(* ===== verification/Prelude.thy ===== *)
theory Prelude
  imports Main "HOL-Library.Word"
begin

text \<open>
  Shared vocabulary of the development: the fixed-width integer types of the Rust code, the
  outcome of a Rust function (a value, an \<open>Err\<close>, or a panic), integer arithmetic with
  and without overflow checks, little-endian encodings, growable byte vectors, and the generic
  lemmas the component theories use. The fact collections are \<open>outcome_simps\<close> (evaluation of
  outcomes), \<open>arith_simps\<close> (checked arithmetic) and \<open>bytes_simps\<close> (encodings).
\<close>

named_theorems outcome_simps "evaluation of outcomes"
named_theorems arith_simps "evaluation of checked arithmetic"
named_theorems bytes_simps "little-endian encodings and vectors"

section \<open>Integers and bytes\<close>

type_synonym u8 = "8 word"
type_synonym u16 = "16 word"
type_synonym u32 = "32 word"
type_synonym u64 = "64 word"
type_synonym u128 = "128 word"
type_synonym byte = "8 word"

section \<open>Outcomes\<close>

text \<open>
  A Rust function that returns a \<open>Result\<close> gives \<open>Ok\<close> or \<open>Err\<close>; it may also panic,
  which unwinds (or aborts, in the release profile of the crate) and gives no value.
\<close>

datatype panic =
    Arithmetic_Overflow
  | Division_By_Zero
  | Index_Out_Of_Bounds
  | Slice_Out_Of_Range
  | Capacity_Overflow
  | Zero_Chunk_Size
  | Library_Panic

datatype ('a, 'e) outcome = Ok 'a | Err 'e | Panic panic

text \<open>\<open>obind m f\<close> is the \<open>?\<close> operator followed by the rest of the function body.\<close>

fun obind :: "('a, 'e) outcome \<Rightarrow> ('a \<Rightarrow> ('b, 'e) outcome) \<Rightarrow> ('b, 'e) outcome" where
  "obind (Ok a) f = f a"
| "obind (Err e) f = Err e"
| "obind (Panic p) f = Panic p"

text \<open>\<open>Result::map_err\<close>, and \<open>From\<close> conversions applied by \<open>?\<close>.\<close>

fun omap_err :: "('e \<Rightarrow> 'f) \<Rightarrow> ('a, 'e) outcome \<Rightarrow> ('a, 'f) outcome" where
  "omap_err g (Ok a) = Ok a"
| "omap_err g (Err e) = Err (g e)"
| "omap_err g (Panic p) = Panic p"

fun is_ok :: "('a, 'e) outcome \<Rightarrow> bool" where
  "is_ok (Ok a) = True"
| "is_ok _ = False"

fun is_panic :: "('a, 'e) outcome \<Rightarrow> bool" where
  "is_panic (Panic p) = True"
| "is_panic _ = False"

lemma obind_eq_Ok [outcome_simps]: "obind m f = Ok b \<longleftrightarrow> (\<exists>a. m = Ok a \<and> f a = Ok b)"
  by (cases m) auto

lemma obind_eq_Err [outcome_simps]:
  "obind m f = Err e \<longleftrightarrow> m = Err e \<or> (\<exists>a. m = Ok a \<and> f a = Err e)"
  by (cases m) auto

lemma obind_eq_Panic [outcome_simps]:
  "obind m f = Panic p \<longleftrightarrow> m = Panic p \<or> (\<exists>a. m = Ok a \<and> f a = Panic p)"
  by (cases m) auto

lemma omap_err_eq_Ok [outcome_simps]: "omap_err g m = Ok a \<longleftrightarrow> m = Ok a"
  by (cases m) auto

lemma omap_err_eq_Panic [outcome_simps]: "omap_err g m = Panic p \<longleftrightarrow> m = Panic p"
  by (cases m) auto

lemma omap_err_eq_Err [outcome_simps]: "omap_err g m = Err e \<longleftrightarrow> (\<exists>e'. m = Err e' \<and> e = g e')"
  by (cases m) auto

lemma obind_assoc: "obind (obind m f) g = obind m (\<lambda>a. obind (f a) g)"
  by (cases m) auto

section \<open>Checked arithmetic\<close>

text \<open>
  \<open>ovf\<close> is the crate's \<open>overflow-checks\<close> setting: true in the dev profile, where an overflow
  panics, false in the release profile, where the operation wraps. Division and remainder by zero
  panic in both.
\<close>

definition add_ck :: "bool \<Rightarrow> 'l::len word \<Rightarrow> 'l word \<Rightarrow> ('l word, 'e) outcome" where
  "add_ck ovf a b =
     (if ovf \<and> 2 ^ LENGTH('l) \<le> unat a + unat b then Panic Arithmetic_Overflow else Ok (a + b))"

definition sub_ck :: "bool \<Rightarrow> 'l::len word \<Rightarrow> 'l word \<Rightarrow> ('l word, 'e) outcome" where
  "sub_ck ovf a b = (if ovf \<and> unat a < unat b then Panic Arithmetic_Overflow else Ok (a - b))"

definition mul_ck :: "bool \<Rightarrow> 'l::len word \<Rightarrow> 'l word \<Rightarrow> ('l word, 'e) outcome" where
  "mul_ck ovf a b =
     (if ovf \<and> 2 ^ LENGTH('l) \<le> unat a * unat b then Panic Arithmetic_Overflow else Ok (a * b))"

definition div_ck :: "'l::len word \<Rightarrow> 'l word \<Rightarrow> ('l word, 'e) outcome" where
  "div_ck a b = (if b = 0 then Panic Division_By_Zero else Ok (a div b))"

definition rem_ck :: "'l::len word \<Rightarrow> 'l word \<Rightarrow> ('l word, 'e) outcome" where
  "rem_ck a b = (if b = 0 then Panic Division_By_Zero else Ok (a mod b))"

text \<open>\<open>u16::try_from(u32)\<close> and \<open>u32::try_from(usize)\<close>, with the message of \<open>TryFromIntError\<close>.\<close>

definition try_from_int_msg :: string where
  "try_from_int_msg = ''out of range integral type conversion attempted''"

definition u16_try_from_u32 :: "u32 \<Rightarrow> (u16, string) outcome" where
  "u16_try_from_u32 w = (if unat w < 2 ^ 16 then Ok (ucast w) else Err try_from_int_msg)"

definition u32_try_from_usize :: "nat \<Rightarrow> (u32, string) outcome" where
  "u32_try_from_usize n = (if n < 2 ^ 32 then Ok (of_nat n) else Err try_from_int_msg)"

lemma add_ck_fits [arith_simps]:
  "unat a + unat b < 2 ^ LENGTH('l) \<Longrightarrow> add_ck ovf (a :: 'l::len word) b = Ok (a + b)"
  by (simp add: add_ck_def)

lemma sub_ck_fits [arith_simps]: "unat b \<le> unat a \<Longrightarrow> sub_ck ovf a b = Ok (a - b)"
  by (simp add: sub_ck_def)

lemma mul_ck_fits [arith_simps]:
  "unat a * unat b < 2 ^ LENGTH('l) \<Longrightarrow> mul_ck ovf (a :: 'l::len word) b = Ok (a * b)"
  by (simp add: mul_ck_def)

lemma div_ck_nonzero [arith_simps]: "b \<noteq> 0 \<Longrightarrow> div_ck a b = Ok (a div b)"
  by (simp add: div_ck_def)

lemma rem_ck_nonzero [arith_simps]: "b \<noteq> 0 \<Longrightarrow> rem_ck a b = Ok (a mod b)"
  by (simp add: rem_ck_def)

lemma unat_add_fits:
  "unat (a :: 'l::len word) + unat b < 2 ^ LENGTH('l) \<Longrightarrow> unat (a + b) = unat a + unat b"
  by (simp add: unat_word_ariths)

lemma unat_sub_fits: "unat (b :: 'l::len word) \<le> unat a \<Longrightarrow> unat (a - b) = unat a - unat b"
  by (simp add: unat_sub word_le_nat_alt)

lemma unat_mul_fits:
  "unat (a :: 'l::len word) * unat b < 2 ^ LENGTH('l) \<Longrightarrow> unat (a * b) = unat a * unat b"
  by (simp add: unat_word_ariths)

lemma unat_ucast_up:
  "LENGTH('a) \<le> LENGTH('b) \<Longrightarrow> unat (ucast (w :: 'a::len word) :: 'b::len word) = unat w"
  by (simp add: unsigned_ucast_eq take_bit_nat_eq_self less_le_trans [OF unsigned_less])

lemma unat_of_nat_small: "n < 2 ^ LENGTH('l) \<Longrightarrow> unat (of_nat n :: 'l::len word) = n"
  by (simp add: unat_of_nat take_bit_nat_eq_self)

lemma of_nat_word_eq_mod:
  "(of_nat m = (of_nat n :: 'l::len word)) \<longleftrightarrow> m mod 2 ^ LENGTH('l) = n mod 2 ^ LENGTH('l)"
  by (simp add: word_of_nat_eq_iff take_bit_eq_mod)

text \<open>Two indices less than the word's range apart are equal as soon as their words are.\<close>

lemma of_nat_word_inj_near:
  assumes "of_nat m = (of_nat n :: 'l::len word)"
    and "m < n + 2 ^ LENGTH('l)" and "n < m + 2 ^ LENGTH('l)"
  shows "m = n"
proof -
  have mod: "m mod 2 ^ LENGTH('l) = n mod 2 ^ LENGTH('l)"
    using assms(1) by (simp add: of_nat_word_eq_mod)
  show ?thesis
  proof (cases "m \<le> n")
    case True
    then have "2 ^ LENGTH('l) dvd n - m" using mod by (metis mod_eq_dvd_iff_nat)
    moreover have "n - m < 2 ^ LENGTH('l)" using assms(3) True by linarith
    ultimately have "n - m = 0" by (meson nat_dvd_not_less not_gr_zero)
    then show ?thesis using True by simp
  next
    case False
    then have "2 ^ LENGTH('l) dvd m - n" using mod by (metis mod_eq_dvd_iff_nat nle_le)
    moreover have "m - n < 2 ^ LENGTH('l)" using assms(2) False by linarith
    ultimately have "m - n = 0" by (meson nat_dvd_not_less not_gr_zero)
    then show ?thesis using False by simp
  qed
qed

section \<open>Little-endian encodings\<close>

text \<open>\<open>to_le_bytes\<close> and \<open>from_le_bytes\<close>, least significant byte first.\<close>

primrec nat_to_le :: "nat \<Rightarrow> nat \<Rightarrow> byte list" where
  "nat_to_le 0 v = []"
| "nat_to_le (Suc k) v = of_nat v # nat_to_le k (v div 256)"

primrec nat_from_le :: "byte list \<Rightarrow> nat" where
  "nat_from_le [] = 0"
| "nat_from_le (b # bs) = unat b + 256 * nat_from_le bs"

definition to_le_bytes :: "'l::len word \<Rightarrow> byte list" where
  "to_le_bytes w = nat_to_le (LENGTH('l) div 8) (unat w)"

definition from_le_bytes :: "byte list \<Rightarrow> 'l::len word" where
  "from_le_bytes bs = of_nat (nat_from_le bs)"

lemma length_nat_to_le [simp, bytes_simps]: "length (nat_to_le k v) = k"
  by (induction k arbitrary: v) auto

lemma nat_from_le_to_le [bytes_simps]: "nat_from_le (nat_to_le k v) = v mod 256 ^ k"
proof (induction k arbitrary: v)
  case 0
  then show ?case by simp
next
  case (Suc k)
  have "nat_from_le (nat_to_le (Suc k) v) = v mod 256 + 256 * (v div 256 mod 256 ^ k)"
    by (simp add: Suc unat_of_nat take_bit_eq_mod)
  also have "\<dots> = v mod 256 ^ Suc k"
    by (simp add: mod_mult2_eq)
  finally show ?case .
qed

lemma nat_from_le_bound: "nat_from_le bs < 256 ^ length bs"
proof (induction bs)
  case Nil
  then show ?case by simp
next
  case (Cons b bs)
  have "unat b < 256" using unsigned_less[of b] by simp
  with Cons show ?case by simp
qed

lemma length_to_le_bytes [simp, bytes_simps]:
  "length (to_le_bytes (w :: 'l::len word)) = LENGTH('l) div 8"
  by (simp add: to_le_bytes_def)

text \<open>The round trip, for the widths that are whole bytes.\<close>

lemma from_to_le_bytes [bytes_simps]:
  assumes "8 dvd LENGTH('l)"
  shows "from_le_bytes (to_le_bytes (w :: 'l::len word)) = w"
proof -
  have "(256::nat) ^ (LENGTH('l) div 8) = (2 ^ 8) ^ (LENGTH('l) div 8)"
    by simp
  also have "\<dots> = 2 ^ (8 * (LENGTH('l) div 8))"
    by (rule power_mult [symmetric])
  also have "\<dots> = 2 ^ LENGTH('l)"
    using assms by simp
  finally have pow: "(256::nat) ^ (LENGTH('l) div 8) = 2 ^ LENGTH('l)" .
  have "unat w < 2 ^ LENGTH('l)" by (rule unsigned_less)
  with pow show ?thesis
    by (simp add: from_le_bytes_def to_le_bytes_def nat_from_le_to_le)
qed

lemma nat_to_le_from_le: "nat_to_le (length bs) (nat_from_le bs) = bs"
proof (induction bs)
  case Nil
  then show ?case by simp
next
  case (Cons b bs)
  have "unat b < 256" using unsigned_less [of b] by simp
  moreover have "(of_nat (unat b + 256 * nat_from_le bs) :: byte) = b"
  proof -
    have "(of_nat (unat b + 256 * nat_from_le bs) :: byte) = b + 256 * of_nat (nat_from_le bs)" by simp
    also have "(256 :: byte) = 0" by code_simp
    finally show ?thesis by simp
  qed
  ultimately show ?case using Cons by simp
qed

lemma to_from_le_bytes [bytes_simps]:
  assumes "8 * length bs = LENGTH('l)"
  shows "to_le_bytes (from_le_bytes bs :: 'l::len word) = bs"
proof -
  have "(256::nat) ^ length bs = 2 ^ (8 * length bs)" by (simp add: power_mult)
  then have "nat_from_le bs < 2 ^ LENGTH('l)" using nat_from_le_bound [of bs] assms by simp
  then have "unat (from_le_bytes bs :: 'l word) = nat_from_le bs" by (simp add: from_le_bytes_def unat_of_nat_small)
  moreover have "LENGTH('l) div 8 = length bs" using assms by simp
  ultimately show ?thesis by (simp add: to_le_bytes_def nat_to_le_from_le)
qed

text \<open>
  The contract of a fixed-width field of a wire format: what is written is read back, and the
  width is constant. The header, footer and block layouts are built from instances of it.
\<close>

locale fixed_width_codec =
  fixes enc :: "'a \<Rightarrow> byte list"
    and dec :: "byte list \<Rightarrow> 'a"
    and width :: nat
  assumes dec_enc [simp]: "dec (enc a) = a"
    and length_enc [simp]: "length (enc a) = width"
begin

lemma enc_inject [simp]: "enc a = enc b \<longleftrightarrow> a = b"
  by (metis dec_enc)

lemma take_enc [simp]: "take width (enc a @ bs) = enc a"
  by simp

lemma drop_enc [simp]: "drop width (enc a @ bs) = bs"
  by simp

lemma dec_prefix: "dec (take width (enc a @ bs)) = a"
  by simp

lemma frame_inject: "enc a @ bs = enc b @ cs \<longleftrightarrow> a = b \<and> bs = cs"
  by (metis dec_prefix drop_enc)

end

interpretation le32: fixed_width_codec "to_le_bytes :: u32 \<Rightarrow> byte list" from_le_bytes 4
  by unfold_locales (simp_all add: from_to_le_bytes)

interpretation le64: fixed_width_codec "to_le_bytes :: u64 \<Rightarrow> byte list" from_le_bytes 8
  by unfold_locales (simp_all add: from_to_le_bytes)

interpretation le128: fixed_width_codec "to_le_bytes :: u128 \<Rightarrow> byte list" from_le_bytes 16
  by unfold_locales (simp_all add: from_to_le_bytes)

section \<open>Growable byte vectors\<close>

text \<open>
  \<open>Vec<u8>\<close> with its capacity: \<open>Block::new\<close> pads a block up to \<open>content.capacity()\<close>, so the
  growth policy of the standard library is part of what the code computes. An allocation of more
  than \<open>isize::MAX\<close> bytes panics.
\<close>

record vec =
  vbuf :: "byte list"
  vcap :: nat

definition vec_with_capacity :: "nat \<Rightarrow> vec" where
  "vec_with_capacity n = \<lparr>vbuf = [], vcap = n\<rparr>"

definition vec_grow :: "nat \<Rightarrow> nat \<Rightarrow> nat" where
  "vec_grow cap need = (if need \<le> cap then cap else max 8 (max (2 * cap) need))"

definition vec_extend :: "vec \<Rightarrow> byte list \<Rightarrow> vec" where
  "vec_extend v bs = \<lparr>vbuf = vbuf v @ bs, vcap = vec_grow (vcap v) (length (vbuf v) + length bs)\<rparr>"

definition vec_push :: "vec \<Rightarrow> byte \<Rightarrow> vec" where
  "vec_push v b = vec_extend v [b]"

definition vec_resize :: "vec \<Rightarrow> nat \<Rightarrow> byte \<Rightarrow> vec" where
  "vec_resize v n b =
     (if n \<le> length (vbuf v) then v\<lparr>vbuf := take n (vbuf v)\<rparr>
      else vec_extend v (replicate (n - length (vbuf v)) b))"

definition vec_zeroed :: "nat \<Rightarrow> (byte list, 'e) outcome" where
  "vec_zeroed n = (if n < 2 ^ 63 then Ok (replicate n 0) else Panic Capacity_Overflow)"

lemma vec_extend_fits [bytes_simps]:
  "length (vbuf v) + length bs \<le> vcap v \<Longrightarrow> vec_extend v bs = v\<lparr>vbuf := vbuf v @ bs\<rparr>"
  by (cases v) (simp add: vec_extend_def vec_grow_def)

lemma vec_push_fits [bytes_simps]:
  "length (vbuf v) < vcap v \<Longrightarrow> vec_push v b = v\<lparr>vbuf := vbuf v @ [b]\<rparr>"
  by (simp add: vec_push_def vec_extend_fits)

text \<open>Indexed store and slices: out of range they panic.\<close>

definition vec_set :: "byte list \<Rightarrow> nat \<Rightarrow> byte \<Rightarrow> (byte list, 'e) outcome" where
  "vec_set bs i b = (if i < length bs then Ok (bs[i := b]) else Panic Index_Out_Of_Bounds)"

definition vec_get :: "byte list \<Rightarrow> nat \<Rightarrow> (byte, 'e) outcome" where
  "vec_get bs i = (if i < length bs then Ok (bs ! i) else Panic Index_Out_Of_Bounds)"

definition slice :: "'b list \<Rightarrow> nat \<Rightarrow> nat \<Rightarrow> ('b list, 'e) outcome" where
  "slice bs lo hi =
     (if lo \<le> hi \<and> hi \<le> length bs then Ok (take (hi - lo) (drop lo bs)) else Panic Slice_Out_Of_Range)"

section \<open>Lists\<close>

lemma filter_map_concat_single:
  "concat (map (\<lambda>x. if P x then [f x] else []) xs) = map f (filter P xs)"
  by (induction xs) auto

lemma list_snoc_cases: "xs = [] \<or> (\<exists>ys y. xs = ys @ [y])"
  by (cases xs rule: rev_cases) auto

text \<open>The values of a sequence of optional messages.\<close>

fun somes :: "'b option list \<Rightarrow> 'b list" where
  "somes [] = []"
| "somes (None # xs) = somes xs"
| "somes (Some x # xs) = x # somes xs"

lemma somes_append [simp]: "somes (xs @ ys) = somes xs @ somes ys"
  by (induction xs rule: somes.induct) auto

lemma somes_map_Some [simp]: "somes (map Some xs) = xs"
  by (induction xs) auto

lemma set_somes: "set (somes xs) = {x. Some x \<in> set xs}"
  by (induction xs rule: somes.induct) auto

text \<open>How many elements of a list have a property, when one is replaced.\<close>

lemma length_filter_update:
  assumes "i < length xs"
  shows "length (filter P (xs[i := x])) + (if P (xs ! i) then 1 else 0) =
    length (filter P xs) + (if P x then 1 else 0)"
  using assms
proof (induction xs arbitrary: i)
  case (Cons y ys)
  then show ?case by (cases i) auto
qed simp

lemma length_filter_replace:
  "i < length xs \<Longrightarrow> length (filter P (xs[i := x])) =
     length (filter P xs) + (if P x then 1 else 0) - (if P (xs ! i) then 1 else 0)"
  using length_filter_update [of i xs P x] by (auto split: if_splits)

lemma length_filter_pos: "i < length xs \<Longrightarrow> P (xs ! i) \<Longrightarrow> \<exists>m. length (filter P xs) = Suc m"
  by (cases "filter P xs") (auto simp: filter_empty_conv)

end
