(* ===== verification/Stream_IO.thy ===== *)
theory Stream_IO
  imports Prelude
begin

text \<open>
  The parts of \<open>std::io\<close> the program uses. A readable stream (socket, file, stdin) is a script:
  the list of what successive reads find available, a chunk of bytes or an error, where the end of
  the script is the end of the stream. \<open>read\<close> takes at most the space offered and leaves the rest,
  \<open>read_exact\<close> is the loop of the standard library around it. A writable stream is a sink that
  accepts bytes up to an optional limit, after which its peer is gone; \<open>BufWriter\<close> is the buffer
  of the standard library in front of it, with its flush on drop.
\<close>

section \<open>Errors\<close>

datatype io_error =
    Unexpected_Eof
  | Interrupted
  | Broken_Pipe
  | Invalid_Data string
  | Other_Io string
  | Os_Error nat

section \<open>Socket addresses\<close>

text \<open>\<open>std::net::SocketAddr\<close>: the octets, the port, and for IPv6 the flow information and scope.\<close>

datatype SocketAddr =
    V4 "byte list" u16
  | V6 "byte list" u16 u32 u32

section \<open>Readers\<close>

datatype read_event = Chunk "byte list" | Fail io_error

type_synonym script = "read_event list"

fun stream_read :: "nat \<Rightarrow> script \<Rightarrow> (byte list, io_error) outcome \<times> script" where
  "stream_read n [] = (Ok [], [])"
| "stream_read n (Fail e # s) = (Err e, s)"
| "stream_read n (Chunk c # s) =
     (Ok (take n c), if n < length c then Chunk (drop n c) # s else s)"

fun event_size :: "read_event \<Rightarrow> nat" where
  "event_size (Chunk c) = Suc (length c)"
| "event_size (Fail e) = 1"

definition script_size :: "script \<Rightarrow> nat" where
  "script_size s = sum_list (map event_size s)"

lemma script_size_simps [simp]:
  "script_size [] = 0"
  "script_size (e # s) = event_size e + script_size s"
  by (simp_all add: script_size_def)

text \<open>A read that delivers at least one byte, or an error, makes the script smaller.\<close>

lemma stream_read_shrinks:
  assumes "stream_read n s = (r, s')" and "(\<exists>c. r = Ok c \<and> c \<noteq> []) \<or> (\<exists>e. r = Err e)"
  shows "script_size s' < script_size s"
  using assms by (cases "(n, s)" rule: stream_read.cases) (auto split: if_splits)

lemma stream_read_length: "stream_read n s = (Ok c, s') \<Longrightarrow> length c \<le> n"
  by (cases "(n, s)" rule: stream_read.cases) auto

function read_exact :: "nat \<Rightarrow> script \<Rightarrow> (byte list, io_error) outcome \<times> script" where
  "read_exact n s =
     (if n = 0 then (Ok [], s)
      else case stream_read n s of
        (Ok c, s') \<Rightarrow>
          if c = [] then (Err Unexpected_Eof, s')
          else (case read_exact (n - length c) s' of
                  (Ok d, s'') \<Rightarrow> (Ok (c @ d), s'')
                | (Err e, s'') \<Rightarrow> (Err e, s'')
                | (Panic p, s'') \<Rightarrow> (Panic p, s''))
      | (Err e, s') \<Rightarrow> if e = Interrupted then read_exact n s' else (Err e, s')
      | (Panic p, s') \<Rightarrow> (Panic p, s'))"
  by pat_completeness auto
termination
  by (relation "measure (\<lambda>(n, s). script_size s)") (auto dest!: stream_read_shrinks [OF sym])

declare read_exact.simps [simp del]

text \<open>The bytes a script delivers, and the scripts that deliver only bytes.\<close>

fun script_bytes :: "script \<Rightarrow> byte list" where
  "script_bytes [] = []"
| "script_bytes (Chunk c # s) = c @ script_bytes s"
| "script_bytes (Fail e # s) = script_bytes s"

fun chunk_ok :: "read_event \<Rightarrow> bool" where
  "chunk_ok (Chunk c) = (c \<noteq> [])"
| "chunk_ok (Fail e) = False"

definition clean :: "script \<Rightarrow> bool" where
  "clean s = list_all chunk_ok s"

lemma clean_simps [simp]:
  "clean []"
  "clean (Chunk c # s) \<longleftrightarrow> c \<noteq> [] \<and> clean s"
  "\<not> clean (Fail e # s)"
  by (simp_all add: clean_def)

lemma stream_read_clean:
  assumes "clean s" and "0 < n" and "stream_read n s = (r, s')"
  shows "\<exists>c. r = Ok c \<and> script_bytes s = c @ script_bytes s' \<and> clean s' \<and> (c = [] \<longleftrightarrow> s = [])"
  using assms by (cases "(n, s)" rule: stream_read.cases) (auto split: if_splits)

lemma script_bytes_Nil: "clean s \<Longrightarrow> script_bytes s = [] \<longleftrightarrow> s = []"
  by (cases s rule: script_bytes.cases) auto

text \<open>
  \<open>read_exact\<close> on a stream that delivers only bytes: it depends on the bytes, not on how they are
  cut into chunks, and fails with \<open>UnexpectedEof\<close> exactly when there are too few.
\<close>

lemma read_exact_clean:
  "clean s \<Longrightarrow> n \<le> length (script_bytes s) \<Longrightarrow>
     \<exists>s'. read_exact n s = (Ok (take n (script_bytes s)), s') \<and>
          clean s' \<and> script_bytes s' = drop n (script_bytes s)"
proof (induction n s rule: read_exact.induct)
  case (1 n s)
  show ?case
  proof (cases "n = 0")
    case True
    then show ?thesis using 1 by (simp add: read_exact.simps)
  next
    case False
    obtain r s1 where rd: "stream_read n s = (r, s1)" by (cases "stream_read n s")
    with False 1 obtain c where c: "r = Ok c" "script_bytes s = c @ script_bytes s1" "clean s1"
      "c = [] \<longleftrightarrow> s = []" using stream_read_clean by blast
    from False 1 have "s \<noteq> []" by auto
    with c have ne: "c \<noteq> []" by simp
    have le: "length c \<le> n" using rd c stream_read_length by blast
    have "n - length c \<le> length (script_bytes s1)" using 1 c le by simp
    from "1.IH"(1) [OF False rd [symmetric] c(1) ne c(3) this]
    obtain s' where "read_exact (n - length c) s1 =
        (Ok (take (n - length c) (script_bytes s1)), s')"
      "clean s'" "script_bytes s' = drop (n - length c) (script_bytes s1)" by blast
    with False rd c ne le show ?thesis by (subst read_exact.simps) simp
  qed
qed

lemma read_exact_short:
  "clean s \<Longrightarrow> length (script_bytes s) < n \<Longrightarrow> fst (read_exact n s) = Err Unexpected_Eof"
proof (induction n s rule: read_exact.induct)
  case (1 n s)
  obtain r s1 where rd: "stream_read n s = (r, s1)" by (cases "stream_read n s")
  have n0: "0 < n" using 1(4) by simp
  obtain c where c: "r = Ok c" "script_bytes s = c @ script_bytes s1" "clean s1"
    using stream_read_clean [OF 1(3) n0 rd] by blast
  show ?case
  proof (cases "c = []")
    case True
    then show ?thesis using n0 rd c(1) by (subst read_exact.simps) simp
  next
    case False
    have len: "length (script_bytes s1) < n - length c" using 1(4) c(2) by simp
    have "fst (read_exact (n - length c) s1) = Err Unexpected_Eof"
      by (rule 1(1) [OF _ rd [symmetric] c(1) False c(3) len]) (use n0 in simp)
    then obtain s2 where "read_exact (n - length c) s1 = (Err Unexpected_Eof, s2)"
      by (cases "read_exact (n - length c) s1") simp
    then show ?thesis using n0 rd c(1) False by (subst read_exact.simps) simp
  qed
qed

section \<open>Sequencing\<close>

text \<open>
  The \<open>?\<close> operator in code that also changes a stream: run \<open>m\<close>, stop at an error or a panic, go on with
  the rest otherwise. \<open>smap_err\<close> is the \<open>From\<close> conversion of the error, \<open>slift\<close> code without effect.
\<close>

definition sbind :: "('s \<Rightarrow> ('a, 'e) outcome \<times> 's) \<Rightarrow> ('a \<Rightarrow> 's \<Rightarrow> ('b, 'e) outcome \<times> 's) \<Rightarrow>
    's \<Rightarrow> ('b, 'e) outcome \<times> 's" where
  "sbind m f s =
     (case m s of
        (Ok a, s') \<Rightarrow> f a s'
      | (Err e, s') \<Rightarrow> (Err e, s')
      | (Panic p, s') \<Rightarrow> (Panic p, s'))"

definition slift :: "('a, 'e) outcome \<Rightarrow> 's \<Rightarrow> ('a, 'e) outcome \<times> 's" where
  "slift r s = (r, s)"

definition smap_err :: "('e \<Rightarrow> 'f) \<Rightarrow> ('s \<Rightarrow> ('a, 'e) outcome \<times> 's) \<Rightarrow> 's \<Rightarrow> ('a, 'f) outcome \<times> 's" where
  "smap_err g m s = (case m s of (r, s') \<Rightarrow> (omap_err g r, s'))"

lemma sbind_Ok [outcome_simps]: "m s = (Ok a, s') \<Longrightarrow> sbind m f s = f a s'"
  by (simp add: sbind_def)

lemma sbind_Err [outcome_simps]: "m s = (Err e, s') \<Longrightarrow> sbind m f s = (Err e, s')"
  by (simp add: sbind_def)

lemma sbind_Panic [outcome_simps]: "m s = (Panic p, s') \<Longrightarrow> sbind m f s = (Panic p, s')"
  by (simp add: sbind_def)

lemma smap_err_Ok [outcome_simps]: "m s = (Ok a, s') \<Longrightarrow> smap_err g m s = (Ok a, s')"
  by (simp add: smap_err_def)

lemma smap_err_Err [outcome_simps]: "m s = (Err e, s') \<Longrightarrow> smap_err g m s = (Err (g e), s')"
  by (simp add: smap_err_def)

lemma sbind_lift_Ok [simp]: "sbind (slift (Ok a)) f s = f a s"
  by (simp add: sbind_def slift_def)

context fixed_width_codec
begin

lemma read_field:
  assumes "clean s" and "script_bytes s = enc a @ bs"
  shows "\<exists>s'. read_exact width s = (Ok (enc a), s') \<and> clean s' \<and> script_bytes s' = bs"
  using read_exact_clean [OF assms(1), of width] assms(2) by simp

lemma read_field_then:
  assumes "clean s" and "script_bytes s = enc a @ bs"
  shows "\<exists>s'. sbind (smap_err g (read_exact width)) f s = f (enc a) s' \<and> clean s' \<and> script_bytes s' = bs"
  using read_field [OF assms] by (auto simp: outcome_simps)

end

section \<open>Writers\<close>

record sink =
  sink_out :: "byte list"
  sink_limit :: "nat option"

definition sink_write_all :: "byte list \<Rightarrow> sink \<Rightarrow> (unit, io_error) outcome \<times> sink" where
  "sink_write_all bs s =
     (case sink_limit s of
        None \<Rightarrow> (Ok (), s\<lparr>sink_out := sink_out s @ bs\<rparr>)
      | Some l \<Rightarrow>
          if length (sink_out s) + length bs \<le> l then (Ok (), s\<lparr>sink_out := sink_out s @ bs\<rparr>)
          else (Err Broken_Pipe, s\<lparr>sink_out := sink_out s @ take (l - length (sink_out s)) bs\<rparr>))"

text \<open>A sequence of \<open>write_all(..)?\<close> calls stops at the first error.\<close>

fun write_seq :: "(byte list \<Rightarrow> 's \<Rightarrow> (unit, 'e) outcome \<times> 's) \<Rightarrow> byte list list \<Rightarrow> 's \<Rightarrow>
    (unit, 'e) outcome \<times> 's" where
  "write_seq wr [] s = (Ok (), s)"
| "write_seq wr (bs # bss) s =
     (case wr bs s of
        (Ok u, s') \<Rightarrow> write_seq wr bss s'
      | (Err e, s') \<Rightarrow> (Err e, s')
      | (Panic p, s') \<Rightarrow> (Panic p, s'))"

text \<open>
  The contract of a writer that does not fail: every \<open>write_all\<close> appends its argument to what the
  receiving side will see. Whoever writes a format in pieces relies on this only.
\<close>

locale byte_writer =
  fixes wr :: "byte list \<Rightarrow> 's \<Rightarrow> (unit, 'e) outcome \<times> 's"
    and view :: "'s \<Rightarrow> byte list"
    and good :: "'s \<Rightarrow> bool"
  assumes write_ok: "good s \<Longrightarrow> \<exists>s'. wr bs s = (Ok (), s') \<and> good s' \<and> view s' = view s @ bs"
begin

lemma write_seq_ok:
  "good s \<Longrightarrow> \<exists>s'. write_seq wr bss s = (Ok (), s') \<and> good s' \<and> view s' = view s @ concat bss"
proof (induction bss arbitrary: s)
  case Nil
  then show ?case by simp
next
  case (Cons bs bss)
  obtain s1 where s1: "wr bs s = (Ok (), s1)" "good s1" "view s1 = view s @ bs"
    using write_ok [OF Cons.prems] by blast
  from Cons.IH [OF s1(2)] s1 show ?case by auto
qed

end

definition unlimited :: "sink \<Rightarrow> bool" where
  "unlimited s \<longleftrightarrow> sink_limit s = None"

interpretation sk: byte_writer sink_write_all sink_out unlimited
  by unfold_locales (simp add: sink_write_all_def unlimited_def)

text \<open>A sink never takes back bytes it has accepted.\<close>

lemma sink_write_all_prefix:
  "\<exists>bs'. sink_out (snd (sink_write_all bs s)) = sink_out s @ bs'"
  by (auto simp: sink_write_all_def split: option.splits)

subsection \<open>BufWriter\<close>

record buf_writer =
  bw_cap :: nat
  bw_pending :: "byte list"
  bw_inner :: sink

definition bw_new :: "nat \<Rightarrow> sink \<Rightarrow> buf_writer" where
  "bw_new cap s = \<lparr>bw_cap = cap, bw_pending = [], bw_inner = s\<rparr>"

definition bw_flush_buf :: "buf_writer \<Rightarrow> (unit, io_error) outcome \<times> buf_writer" where
  "bw_flush_buf w =
     (case sink_write_all (bw_pending w) (bw_inner w) of (r, s') \<Rightarrow>
        (r, w\<lparr>bw_pending := drop (length (sink_out s') - length (sink_out (bw_inner w))) (bw_pending w),
              bw_inner := s'\<rparr>))"

definition bw_write_all :: "byte list \<Rightarrow> buf_writer \<Rightarrow> (unit, io_error) outcome \<times> buf_writer" where
  "bw_write_all bs w =
     (if length bs < bw_cap w - length (bw_pending w)
      then (Ok (), w\<lparr>bw_pending := bw_pending w @ bs\<rparr>)
      else case (if bw_cap w - length (bw_pending w) < length bs then bw_flush_buf w else (Ok (), w)) of
        (Ok u, w1) \<Rightarrow>
          if bw_cap w1 \<le> length bs
          then (case sink_write_all bs (bw_inner w1) of (r, s') \<Rightarrow> (r, w1\<lparr>bw_inner := s'\<rparr>))
          else (Ok (), w1\<lparr>bw_pending := bw_pending w1 @ bs\<rparr>)
      | (Err e, w1) \<Rightarrow> (Err e, w1)
      | (Panic p, w1) \<Rightarrow> (Panic p, w1))"

text \<open>\<open>flush\<close> (the inner sockets have nothing to flush), \<open>into_inner\<close> and \<open>drop\<close> empty the buffer.\<close>

definition bw_flush :: "buf_writer \<Rightarrow> (unit, io_error) outcome \<times> buf_writer" where
  "bw_flush w = bw_flush_buf w"

definition bw_into_inner :: "buf_writer \<Rightarrow> (unit, io_error) outcome \<times> buf_writer" where
  "bw_into_inner w = bw_flush_buf w"

definition bw_drop :: "buf_writer \<Rightarrow> sink" where
  "bw_drop w = bw_inner (snd (bw_flush_buf w))"

text \<open>What the peer has or will have received, as long as it is there.\<close>

definition bw_view :: "buf_writer \<Rightarrow> byte list" where
  "bw_view w = sink_out (bw_inner w) @ bw_pending w"

definition bw_good :: "buf_writer \<Rightarrow> bool" where
  "bw_good w \<longleftrightarrow> unlimited (bw_inner w) \<and> length (bw_pending w) \<le> bw_cap w"

lemma bw_flush_buf_good:
  assumes "bw_good w"
  shows "\<exists>w'. bw_flush_buf w = (Ok (), w') \<and> bw_good w' \<and> bw_view w' = bw_view w \<and>
    bw_pending w' = [] \<and> sink_out (bw_inner w') = bw_view w \<and> bw_cap w' = bw_cap w"
  using assms
  by (auto simp: bw_flush_buf_def bw_good_def bw_view_def unlimited_def sink_write_all_def)

lemma bw_write_all_good:
  assumes "bw_good w"
  shows "\<exists>w'. bw_write_all bs w = (Ok (), w') \<and> bw_good w' \<and> bw_view w' = bw_view w @ bs"
proof (cases "length bs < bw_cap w - length (bw_pending w)")
  case True
  then show ?thesis using assms by (simp add: bw_write_all_def bw_good_def bw_view_def)
next
  case False
  show ?thesis
  proof (cases "bw_cap w - length (bw_pending w) < length bs")
    case True
    obtain w1 where w1: "bw_flush_buf w = (Ok (), w1)" "bw_good w1" "bw_view w1 = bw_view w"
      "bw_pending w1 = []" "bw_cap w1 = bw_cap w"
      using bw_flush_buf_good [OF assms] by blast
    with False True show ?thesis
      by (auto simp: bw_write_all_def bw_good_def bw_view_def unlimited_def sink_write_all_def)
  next
    case F2: False
    show ?thesis
    proof (cases "bw_cap w \<le> length bs")
      case True
      then have "bw_pending w = []"
        using False F2 assms by (cases "bw_pending w") (auto simp: bw_good_def)
      with False F2 True assms show ?thesis
        by (simp add: bw_write_all_def bw_good_def bw_view_def unlimited_def sink_write_all_def)
    next
      case F3: False
      with False F2 assms show ?thesis
        by (simp add: bw_write_all_def bw_good_def bw_view_def)
    qed
  qed
qed

interpretation bw: byte_writer bw_write_all bw_view bw_good
  by unfold_locales (rule bw_write_all_good)

lemma bw_new_good [simp]: "unlimited s \<Longrightarrow> bw_good (bw_new cap s)"
  by (simp add: bw_new_def bw_good_def)

lemma bw_new_view [simp]: "bw_view (bw_new cap s) = sink_out s"
  by (simp add: bw_new_def bw_view_def)

lemma bw_drop_good: "bw_good w \<Longrightarrow> sink_out (bw_drop w) = bw_view w"
  using bw_flush_buf_good [of w] by (auto simp: bw_drop_def)

section \<open>Good connections\<close>

text \<open>A stream that delivers given bytes, and a new connection to a peer that takes everything.\<close>

definition delivers :: "script \<Rightarrow> byte list \<Rightarrow> bool" where
  "delivers s bs \<longleftrightarrow> clean s \<and> script_bytes s = bs"

definition open_conn :: "(sink, io_error) outcome" where
  "open_conn = Ok \<lparr>sink_out = [], sink_limit = None\<rparr>"

lemma delivers_chunk: "bs \<noteq> [] \<Longrightarrow> delivers [Chunk bs] bs"
  by (simp add: delivers_def)

lemma sink_write_unlimited:
  "unlimited k \<Longrightarrow> sink_write_all bs k = (Ok (), k\<lparr>sink_out := sink_out k @ bs\<rparr>)"
  by (simp add: sink_write_all_def unlimited_def)

lemma unlimited_update [simp]: "unlimited (k\<lparr>sink_out := out\<rparr>) = unlimited k"
  by (simp add: unlimited_def)

end
