(* ===== verification/Protocol.thy ===== *)
theory Protocol
  imports Stream_IO
begin

text \<open>
  \<open>src/protocol.rs\<close>: the RaptorQ parameters derived from the command line, the block types, the
  client identifiers and the block format. The \<open>raptorq\<close> crate is not part of the repository: the
  functions of it that the program calls are the fields of the record \<open>raptorq_lib\<close>, a parameter
  of every definition that uses them.
\<close>

section \<open>Errors\<close>

datatype protocol_error =
    PE_Io io_error
  | PE_InvalidBlockType "u8 option"
  | PE_Other string

section \<open>The raptorq crate\<close>

record ('plan, 'config, 'pkt) raptorq_lib =
  lib_generate :: "u16 \<Rightarrow> 'plan"
  lib_with_defaults :: "u64 \<Rightarrow> u16 \<Rightarrow> 'config"
  lib_symbol_size :: "'config \<Rightarrow> u16"
  lib_source_packets :: "u8 \<Rightarrow> 'config \<Rightarrow> byte list \<Rightarrow> 'plan \<Rightarrow> 'pkt list"
  lib_repair_packets :: "u8 \<Rightarrow> 'config \<Rightarrow> byte list \<Rightarrow> 'plan \<Rightarrow> u32 \<Rightarrow> u32 \<Rightarrow> 'pkt list"
  lib_decode :: "u8 \<Rightarrow> 'config \<Rightarrow> u64 \<Rightarrow> 'pkt list \<Rightarrow> byte list option"
  lib_deserialize :: "byte list \<Rightarrow> 'pkt option"  \<comment> \<open>\<open>None\<close>: it panics\<close>
  lib_serialize :: "'pkt \<Rightarrow> byte list"
  lib_source_block_number :: "'pkt \<Rightarrow> u8"

section \<open>RaptorQ parameters\<close>

definition PACKET_HEADER_SIZE :: u16 where "PACKET_HEADER_SIZE = 20 + 8"
definition RAPTORQ_ALIGNMENT :: u16 where "RAPTORQ_ALIGNMENT = 8"
definition RAPTORQ_HEADER_SIZE :: u16 where "RAPTORQ_HEADER_SIZE = 4"

record ('plan, 'config) RaptorQ =
  max_packet_size :: u16
  symbol_count :: u16
  transfer_length :: u32
  plan :: 'plan
  config :: 'config
  nb_repair_packets :: u16
  min_nb_repair_packets :: u16

definition RaptorQ_new :: "('plan, 'config, 'pkt) raptorq_lib \<Rightarrow> bool \<Rightarrow> u16 \<Rightarrow> u32 \<Rightarrow> u32 \<Rightarrow> u32 \<Rightarrow>
    (('plan, 'config) RaptorQ, protocol_error) outcome" where
  "RaptorQ_new lib ovf mtu block_size repair_percentage min_repair_percentage =
     obind (sub_ck ovf mtu PACKET_HEADER_SIZE) (\<lambda>m1.
     obind (sub_ck ovf m1 RAPTORQ_HEADER_SIZE) (\<lambda>m2.
     obind (rem_ck m2 RAPTORQ_ALIGNMENT) (\<lambda>r.
     obind (sub_ck ovf m2 r) (\<lambda>mps.
     obind (div_ck block_size (ucast mps)) (\<lambda>q.
     obind (omap_err (\<lambda>e. PE_Other (''symbol_count: '' @ e)) (u16_try_from_u32 q)) (\<lambda>sc.
     obind (mul_ck ovf (ucast mps) (ucast sc)) (\<lambda>tl.
     let pl = lib_generate lib sc;
         cf = lib_with_defaults lib (ucast tl) mps in
     obind (mul_ck ovf (tl div 100) repair_percentage) (\<lambda>m3.
     obind (div_ck m3 (ucast mps)) (\<lambda>q3.
     obind (omap_err (\<lambda>e. PE_Other (''nb_repair_packets: '' @ e)) (u16_try_from_u32 q3)) (\<lambda>nrp.
     obind (mul_ck ovf (tl div 100) min_repair_percentage) (\<lambda>m4.
     obind (div_ck m4 (ucast mps)) (\<lambda>q4.
     obind (omap_err (\<lambda>e. PE_Other (''min_nb_repair_packets: '' @ e)) (u16_try_from_u32 q4)) (\<lambda>mnrp.
     Ok \<lparr>max_packet_size = mps, symbol_count = sc, transfer_length = tl, plan = pl, config = cf,
         nb_repair_packets = (if nrp < mnrp then mnrp else nrp),
         min_nb_repair_packets = mnrp\<rparr>)))))))))))))"

definition block_size :: "('plan, 'config) RaptorQ \<Rightarrow> u32" where
  "block_size rq = transfer_length rq"

definition min_nb_packets :: "bool \<Rightarrow> ('plan, 'config) RaptorQ \<Rightarrow> (u16, 'e) outcome" where
  "min_nb_packets ovf rq = add_ck ovf (symbol_count rq) (min_nb_repair_packets rq)"

definition nb_packets :: "('plan, 'config) RaptorQ \<Rightarrow> u32" where
  "nb_packets rq = ucast (symbol_count rq) + ucast (nb_repair_packets rq)"

definition RaptorQ_encode :: "('plan, 'config, 'pkt) raptorq_lib \<Rightarrow> ('plan, 'config) RaptorQ \<Rightarrow>
    u8 \<Rightarrow> byte list \<Rightarrow> 'pkt list" where
  "RaptorQ_encode lib rq block_id data =
     lib_source_packets lib block_id (config rq) data (plan rq) @
     (if 0 < nb_repair_packets rq
      then lib_repair_packets lib block_id (config rq) data (plan rq)
             (ucast (lib_symbol_size lib (config rq))) (ucast (nb_repair_packets rq))
      else [])"

definition RaptorQ_decode :: "('plan, 'config, 'pkt) raptorq_lib \<Rightarrow> ('plan, 'config) RaptorQ \<Rightarrow>
    u8 \<Rightarrow> 'pkt list \<Rightarrow> byte list option" where
  "RaptorQ_decode lib rq block_id packets =
     lib_decode lib block_id (config rq) (ucast (transfer_length rq)) packets"

section \<open>Block types and client identifiers\<close>

datatype BlockType = Heartbeat | Start | Data | Abort | End

definition ID_HEARTBEAT :: u8 where "ID_HEARTBEAT = 0"
definition ID_START :: u8 where "ID_START = 1"
definition ID_DATA :: u8 where "ID_DATA = 2"
definition ID_ABORT :: u8 where "ID_ABORT = 3"
definition ID_END :: u8 where "ID_END = 4"

lemmas block_ids = ID_HEARTBEAT_def ID_START_def ID_DATA_def ID_ABORT_def ID_END_def

fun BlockType_serialized :: "BlockType \<Rightarrow> u8" where
  "BlockType_serialized Heartbeat = ID_HEARTBEAT"
| "BlockType_serialized Start = ID_START"
| "BlockType_serialized Data = ID_DATA"
| "BlockType_serialized Abort = ID_ABORT"
| "BlockType_serialized End = ID_END"

text \<open>\<open>fetch_add\<close> on the process-wide counter: the new value of the counter and the identifier.\<close>

definition new_client_id :: "u32 \<Rightarrow> u32 \<times> u32" where
  "new_client_id counter = (counter + 1, counter)"

section \<open>Blocks\<close>

datatype Block = Block (block_bytes: "byte list")

definition SERIALIZE_OVERHEAD :: nat where "SERIALIZE_OVERHEAD = 4 + 1 + 4"

definition Block_new :: "BlockType \<Rightarrow> ('plan, 'config) RaptorQ \<Rightarrow> u32 \<Rightarrow> byte list option \<Rightarrow>
    (Block, protocol_error) outcome" where
  "Block_new block rq client_id data =
     (case data of
        None \<Rightarrow>
          (let content = replicate (unat (transfer_length rq)) 0;
               bytes = to_le_bytes client_id in
           obind (vec_set content 0 (bytes ! 0)) (\<lambda>c0.
           obind (vec_set c0 1 (bytes ! 1)) (\<lambda>c1.
           obind (vec_set c1 2 (bytes ! 2)) (\<lambda>c2.
           obind (vec_set c2 3 (bytes ! 3)) (\<lambda>c3.
           obind (vec_set c3 4 (BlockType_serialized block)) (\<lambda>c4. Ok (Block c4)))))))
      | Some data \<Rightarrow>
          (let v0 = vec_with_capacity (unat (transfer_length rq));
               v1 = vec_extend v0 (to_le_bytes client_id);
               v2 = vec_push v1 (BlockType_serialized block) in
           obind (omap_err (\<lambda>e. PE_Other (''data.len(): '' @ e)) (u32_try_from_usize (length data)))
             (\<lambda>len.
           let v3 = vec_extend v2 (to_le_bytes len);
               v4 = vec_extend v3 data in
           Ok (Block (vbuf (if length (vbuf v4) < vcap v4 then vec_resize v4 (vcap v4) 0 else v4))))))"

definition Block_client_id :: "Block \<Rightarrow> (u32, 'e) outcome" where
  "Block_client_id b =
     obind (vec_get (block_bytes b) 0) (\<lambda>b0.
     obind (vec_get (block_bytes b) 1) (\<lambda>b1.
     obind (vec_get (block_bytes b) 2) (\<lambda>b2.
     obind (vec_get (block_bytes b) 3) (\<lambda>b3.
     Ok (from_le_bytes [b0, b1, b2, b3])))))"

definition Block_block_type :: "Block \<Rightarrow> (BlockType, protocol_error) outcome" where
  "Block_block_type b =
     (if 4 < length (block_bytes b) then
        (let t = block_bytes b ! 4 in
         if t = ID_HEARTBEAT then Ok Heartbeat
         else if t = ID_START then Ok Start
         else if t = ID_DATA then Ok Data
         else if t = ID_ABORT then Ok Abort
         else if t = ID_END then Ok End
         else Err (PE_InvalidBlockType (Some t)))
      else Err (PE_InvalidBlockType None))"

definition Block_payload_len :: "Block \<Rightarrow> (u32, 'e) outcome" where
  "Block_payload_len b =
     obind (vec_get (block_bytes b) 5) (\<lambda>b5.
     obind (vec_get (block_bytes b) 6) (\<lambda>b6.
     obind (vec_get (block_bytes b) 7) (\<lambda>b7.
     obind (vec_get (block_bytes b) 8) (\<lambda>b8.
     Ok (from_le_bytes [b5, b6, b7, b8])))))"

definition Block_deserialize :: "byte list \<Rightarrow> Block" where
  "Block_deserialize data = Block data"

text \<open>\<open>usize\<close> is 64 bits wide.\<close>

definition max_data_len :: "bool \<Rightarrow> ('plan, 'config) RaptorQ \<Rightarrow> (nat, 'e) outcome" where
  "max_data_len ovf rq =
     obind (sub_ck ovf (ucast (transfer_length rq) :: u64) (of_nat SERIALIZE_OVERHEAD)) (\<lambda>n. Ok (unat n))"

definition Block_payload :: "Block \<Rightarrow> (byte list, 'e) outcome" where
  "Block_payload b =
     obind (Block_payload_len b) (\<lambda>len.
     slice (block_bytes b) SERIALIZE_OVERHEAD (SERIALIZE_OVERHEAD + unat len))"

definition Block_serialized :: "Block \<Rightarrow> byte list" where
  "Block_serialized b = block_bytes b"

section \<open>The block format\<close>

text \<open>The layout drawn in the module documentation: client, type, length, payload, zero padding.\<close>

definition block_layout :: "nat \<Rightarrow> BlockType \<Rightarrow> u32 \<Rightarrow> byte list \<Rightarrow> Block" where
  "block_layout n block client_id data =
     Block (to_le_bytes client_id @ [BlockType_serialized block] @
            to_le_bytes (of_nat (length data) :: u32) @ data @
            replicate (n - SERIALIZE_OVERHEAD - length data) 0)"

lemma length_block_layout [simp]:
  "SERIALIZE_OVERHEAD + length data \<le> n \<Longrightarrow>
     length (block_bytes (block_layout n block client_id data)) = n"
  by (simp add: block_layout_def SERIALIZE_OVERHEAD_def)

lemma list4: "length xs = 4 \<Longrightarrow> \<exists>a b c d. xs = [a, b, c, d]"
  by (auto simp: length_Suc_conv eval_nat_numeral)

lemma to_le_bytes_u32_4:
  obtains a b c d where "to_le_bytes (w :: u32) = [a, b, c, d]" "from_le_bytes [a, b, c, d] = w"
proof -
  have "length (to_le_bytes w) = 4" by simp
  then obtain a b c d where "to_le_bytes w = [a, b, c, d]" using list4 by blast
  with le32.dec_enc [of w] that show thesis by simp
qed

lemma block_layout_client_id [simp]:
  "Block_client_id (block_layout n block client_id data) = Ok client_id"
proof -
  obtain a b c d where "to_le_bytes client_id = [a, b, c, d]" "from_le_bytes [a, b, c, d] = client_id"
    by (rule to_le_bytes_u32_4)
  then show ?thesis by (simp add: Block_client_id_def block_layout_def vec_get_def)
qed

lemma BlockType_serialized_cases:
  "BlockType_serialized b = ID_HEARTBEAT \<longleftrightarrow> b = Heartbeat"
  "BlockType_serialized b = ID_START \<longleftrightarrow> b = Start"
  "BlockType_serialized b = ID_DATA \<longleftrightarrow> b = Data"
  "BlockType_serialized b = ID_ABORT \<longleftrightarrow> b = Abort"
  "BlockType_serialized b = ID_END \<longleftrightarrow> b = End"
  by (cases b; simp add: block_ids)+

lemma block_layout_block_type [simp]:
  "Block_block_type (block_layout n block client_id data) = Ok block"
proof -
  obtain a b c d where "to_le_bytes client_id = [a, b, c, d]"
    by (rule to_le_bytes_u32_4)
  then have "4 < length (block_bytes (block_layout n block client_id data))"
    "block_bytes (block_layout n block client_id data) ! 4 = BlockType_serialized block"
    by (simp_all add: block_layout_def)
  then show ?thesis
    by (cases block) (simp_all add: Block_block_type_def Let_def BlockType_serialized_cases,
        simp_all add: block_ids)
qed

lemma block_layout_payload_len [simp]:
  "Block_payload_len (block_layout n block client_id data) = Ok (of_nat (length data))"
proof -
  obtain a b c d where c: "to_le_bytes client_id = [a, b, c, d]"
    by (rule to_le_bytes_u32_4)
  obtain p q r s where "to_le_bytes (of_nat (length data) :: u32) = [p, q, r, s]"
    "from_le_bytes [p, q, r, s] = (of_nat (length data) :: u32)"
    by (rule to_le_bytes_u32_4)
  with c show ?thesis
    by (simp add: Block_payload_len_def block_layout_def vec_get_def)
qed

lemma block_layout_payload [simp]:
  assumes "length data < 2 ^ 32"
  shows "Block_payload (block_layout n block client_id data) = Ok data"
proof -
  have "unat (of_nat (length data) :: u32) = length data"
    using assms by (simp add: unat_of_nat_small)
  then have "Block_payload (block_layout n block client_id data) =
      slice (block_bytes (block_layout n block client_id data)) 9 (9 + length data)"
    by (simp add: Block_payload_def SERIALIZE_OVERHEAD_def)
  then show ?thesis
    by (simp add: slice_def block_layout_def)
qed

text \<open>What the constructor builds is the layout, when the data fits.\<close>

lemma Block_client_id_Ok:
  "4 \<le> length (block_bytes b) \<Longrightarrow> \<exists>c. Block_client_id b = (Ok c :: (u32, 'e) outcome)"
  by (cases "block_bytes b") (auto simp: Block_client_id_def vec_get_def)

lemma Block_new_Some:
  assumes "SERIALIZE_OVERHEAD + length data \<le> unat (transfer_length rq)"
  shows "Block_new block rq client_id (Some data) =
    Ok (block_layout (unat (transfer_length rq)) block client_id data)"
proof -
  have small: "unat (transfer_length rq) < 2 ^ 32" using unsigned_less [of "transfer_length rq"] by simp
  then have "length data < 2 ^ 32" using assms by linarith
  with assms show ?thesis
    by (simp add: Block_new_def Let_def vec_with_capacity_def vec_extend_fits vec_push_fits
        u32_try_from_usize_def SERIALIZE_OVERHEAD_def vec_resize_def block_layout_def)
qed

lemma Block_new_None:
  assumes "SERIALIZE_OVERHEAD \<le> unat (transfer_length rq)"
  shows "Block_new block rq client_id None =
    Ok (block_layout (unat (transfer_length rq)) block client_id [])"
proof -
  obtain a b c d where c: "to_le_bytes client_id = [a, b, c, d]"
    by (rule to_le_bytes_u32_4)
  have z: "to_le_bytes (0 :: u32) = [0, 0, 0, 0]"
    by code_simp
  obtain m where m: "unat (transfer_length rq) = 9 + m"
    using assms le_Suc_ex [of 9 "unat (transfer_length rq)"] by (auto simp: SERIALIZE_OVERHEAD_def)
  have r9: "replicate (unat (transfer_length rq)) (0::byte) = [0, 0, 0, 0, 0, 0, 0, 0, 0] @ replicate m 0"
    unfolding m replicate_add by (simp add: numeral_eq_Suc)
  have "Block_new block rq client_id None =
      Ok (Block ([a, b, c, d, BlockType_serialized block, 0, 0, 0, 0] @ replicate m 0))"
    unfolding Block_new_def r9 c by (simp add: Let_def vec_set_def)
  moreover have "block_layout (unat (transfer_length rq)) block client_id [] =
      Block ([a, b, c, d, BlockType_serialized block, 0, 0, 0, 0] @ replicate m 0)"
    unfolding block_layout_def c by (simp add: m z SERIALIZE_OVERHEAD_def)
  ultimately show ?thesis by simp
qed

text \<open>A transfer shorter than the header cannot hold a block: the constructor panics below 5 bytes.\<close>

lemma Block_new_None_panics:
  assumes "unat (transfer_length rq) < 5"
  shows "Block_new block rq client_id None = Panic Index_Out_Of_Bounds"
proof -
  have "unat (transfer_length rq) \<in> {0, 1, 2, 3, 4}" using assms by auto
  then show ?thesis
    by (auto simp: Block_new_def Let_def vec_set_def)
qed

lemma max_data_len_fits:
  assumes "SERIALIZE_OVERHEAD \<le> unat (transfer_length rq)"
  shows "max_data_len ovf rq = Ok (unat (transfer_length rq) - SERIALIZE_OVERHEAD)"
proof -
  have u: "unat (ucast (transfer_length rq) :: u64) = unat (transfer_length rq)"
    by (simp add: unat_ucast_up)
  have o: "unat (of_nat SERIALIZE_OVERHEAD :: u64) = SERIALIZE_OVERHEAD"
    by (simp add: SERIALIZE_OVERHEAD_def)
  show ?thesis
    using assms by (simp add: max_data_len_def sub_ck_fits u o unat_sub_fits)
qed

section \<open>The RaptorQ parameters\<close>

text \<open>The packet size the constructor derives from the MTU, on natural numbers.\<close>

definition packet_size :: "nat \<Rightarrow> nat" where
  "packet_size mtu = (mtu - 32) div 8 * 8"

lemma packet_size_bounds: "packet_size mtu \<le> mtu - 32" "8 dvd packet_size mtu"
  by (simp_all add: packet_size_def)

lemma packet_size_pos: "40 \<le> mtu \<Longrightarrow> 0 < packet_size mtu"
  by (simp add: packet_size_def)

lemma max_packet_size_steps:
  assumes "32 \<le> unat mtu"
  shows "sub_ck ovf mtu PACKET_HEADER_SIZE = Ok (mtu - 28)"
    and "sub_ck ovf (mtu - 28) RAPTORQ_HEADER_SIZE = Ok (mtu - 32)"
    and "rem_ck (mtu - 32) RAPTORQ_ALIGNMENT = Ok ((mtu - 32) mod 8)"
    and "sub_ck ovf (mtu - 32) ((mtu - 32) mod 8) = Ok (mtu - 32 - (mtu - 32) mod 8)"
    and "unat (mtu - 32 - (mtu - 32) mod 8) = packet_size (unat mtu)"
proof -
  have u28: "unat (mtu - 28) = unat mtu - 28" using assms by (simp add: unat_sub_fits)
  have u32: "unat (mtu - 32) = unat mtu - 32" using assms by (simp add: unat_sub_fits)
  have um: "unat ((mtu - 32) mod 8) = (unat mtu - 32) mod 8" by (simp add: unat_mod u32)
  have le: "unat ((mtu - 32) mod 8) \<le> unat (mtu - 32)" by (simp add: um u32)
  show "sub_ck ovf mtu PACKET_HEADER_SIZE = Ok (mtu - 28)"
    using assms by (simp add: sub_ck_fits PACKET_HEADER_SIZE_def)
  show "sub_ck ovf (mtu - 28) RAPTORQ_HEADER_SIZE = Ok (mtu - 32)"
    using assms u28 by (simp add: sub_ck_fits RAPTORQ_HEADER_SIZE_def)
  show "rem_ck (mtu - 32) RAPTORQ_ALIGNMENT = Ok ((mtu - 32) mod 8)"
    by (simp add: rem_ck_def RAPTORQ_ALIGNMENT_def)
  show "sub_ck ovf (mtu - 32) ((mtu - 32) mod 8) = Ok (mtu - 32 - (mtu - 32) mod 8)"
    using le by (simp add: sub_ck_fits)
  show "unat (mtu - 32 - (mtu - 32) mod 8) = packet_size (unat mtu)"
    unfolding unat_sub_fits [OF le] um u32 packet_size_def by (rule minus_mod_eq_div_mult)
qed

text \<open>One repair count: the percentage of a hundredth of the transfer, in whole packets.\<close>

lemma repair_count_steps:
  fixes tl p :: u32 and mps :: u16
  assumes "unat p \<le> 100" and "0 < unat mps" and "unat tl \<le> unat mps * 65535"
  shows "mul_ck ovf (tl div 100) p = Ok (tl div 100 * p)"
    and "div_ck (tl div 100 * p) (ucast mps) = Ok (tl div 100 * p div ucast mps)"
    and "unat (tl div 100 * p div ucast mps) = unat tl div 100 * unat p div unat mps"
    and "unat tl div 100 * unat p div unat mps < 2 ^ 16"
proof -
  have prod: "unat tl div 100 * unat p \<le> unat tl"
  proof -
    have "unat tl div 100 * unat p \<le> unat tl div 100 * 100" using assms(1) by simp
    then show ?thesis by linarith
  qed
  have small: "unat (tl div 100) * unat p < 2 ^ LENGTH(32)"
  proof -
    have "unat tl < 2 ^ 32" using unsigned_less [of tl] by simp
    with prod show ?thesis by (simp add: unat_div)
  qed
  then show "mul_ck ovf (tl div 100) p = Ok (tl div 100 * p)"
    by (simp add: mul_ck_fits)
  have m: "unat (ucast mps :: u32) = unat mps" by (simp add: unat_ucast_up)
  then have "(ucast mps :: u32) \<noteq> 0" using assms(2) by (metis less_irrefl unsigned_0)
  then show "div_ck (tl div 100 * p) (ucast mps) = Ok (tl div 100 * p div ucast mps)"
    by (simp add: div_ck_def)
  have "unat (tl div 100 * p) = unat tl div 100 * unat p"
    using small by (simp add: unat_mul_fits unat_div)
  then show "unat (tl div 100 * p div ucast mps) = unat tl div 100 * unat p div unat mps"
    by (simp add: unat_div m)
  have "unat tl div 100 * unat p div unat mps \<le> unat mps * 65535 div unat mps"
    using prod assms(3) by (intro div_le_mono) linarith
  then show "unat tl div 100 * unat p div unat mps < 2 ^ 16"
    using assms(2) by simp
qed

text \<open>
  For an MTU of at least 40 bytes and percentages up to 100, in both build profiles, nothing
  overflows: the constructor returns the parameters below exactly when the symbol count fits 16
  bits, and reports the symbol count otherwise.
\<close>

lemma RaptorQ_new_ok:
  assumes mtu: "40 \<le> unat mtu" and rp: "unat rp \<le> 100" and mrp: "unat mrp \<le> 100"
    and sc: "unat bs div packet_size (unat mtu) < 2 ^ 16"
  shows "\<exists>rq. RaptorQ_new lib ovf mtu bs rp mrp = Ok rq \<and>
    unat (max_packet_size rq) = packet_size (unat mtu) \<and>
    unat (symbol_count rq) = unat bs div packet_size (unat mtu) \<and>
    unat (transfer_length rq) = packet_size (unat mtu) * (unat bs div packet_size (unat mtu)) \<and>
    unat (min_nb_repair_packets rq) =
      unat (transfer_length rq) div 100 * unat mrp div packet_size (unat mtu) \<and>
    unat (nb_repair_packets rq) =
      max (unat (transfer_length rq) div 100 * unat rp div packet_size (unat mtu))
          (unat (min_nb_repair_packets rq)) \<and>
    plan rq = lib_generate lib (symbol_count rq) \<and>
    config rq = lib_with_defaults lib (ucast (transfer_length rq)) (max_packet_size rq)"
proof -
  define mps where "mps = mtu - 32 - (mtu - 32) mod 8"
  define q where "q = bs div ucast mps"
  define scw :: u16 where "scw = ucast q"
  define tlw where "tlw = ucast mps * (ucast scw :: u32)"
  have m32: "32 \<le> unat mtu" using mtu by simp
  note steps = max_packet_size_steps [OF m32, folded mps_def]
  have mps_u: "unat mps = packet_size (unat mtu)" by (rule steps(5))
  have mps_pos: "0 < unat mps" using packet_size_pos [OF mtu] mps_u by simp
  have mps32: "unat (ucast mps :: u32) = unat mps" by (simp add: unat_ucast_up)
  then have nz: "(ucast mps :: u32) \<noteq> 0" using mps_pos by (metis less_irrefl unsigned_0)
  have q_u: "unat q = unat bs div packet_size (unat mtu)"
    by (simp add: q_def unat_div mps32 mps_u)
  have tq: "u16_try_from_u32 q = Ok scw"
    using sc q_u by (simp add: u16_try_from_u32_def scw_def)
  have sc_u: "unat scw = unat q"
    using sc q_u by (simp add: scw_def unsigned_ucast_eq take_bit_nat_eq_self)
  have sc32: "unat (ucast scw :: u32) = unat scw" by (simp add: unat_ucast_up)
  have prod: "unat (ucast mps :: u32) * unat (ucast scw :: u32) \<le> unat bs"
    by (simp add: mps32 sc32 sc_u q_u mps_u)
  have bs_lt: "unat bs < 2 ^ 32" using unsigned_less [of bs] by simp
  have mul: "mul_ck ovf (ucast mps) (ucast scw :: u32) = Ok tlw"
    using prod bs_lt by (simp add: mul_ck_fits tlw_def)
  have tl_u: "unat tlw = unat mps * unat scw"
    using prod bs_lt by (simp add: tlw_def unat_mul_fits mps32 sc32)
  have "unat scw < 2 ^ 16" using unsigned_less [of scw] by simp
  then have "unat scw \<le> 65535" by simp
  then have tl_le: "unat tlw \<le> unat mps * 65535" using tl_u by simp
  note r = repair_count_steps [OF rp mps_pos tl_le]
  note mr = repair_count_steps [OF mrp mps_pos tl_le]
  define nrp :: u16 where "nrp = ucast (tlw div 100 * rp div ucast mps)"
  define mnrp :: u16 where "mnrp = ucast (tlw div 100 * mrp div ucast mps)"
  have tr: "u16_try_from_u32 (tlw div 100 * rp div ucast mps) = Ok nrp"
    using r(3,4) by (simp add: u16_try_from_u32_def nrp_def)
  have tm: "u16_try_from_u32 (tlw div 100 * mrp div ucast mps) = Ok mnrp"
    using mr(3,4) by (simp add: u16_try_from_u32_def mnrp_def)
  have nrp_u: "unat nrp = unat tlw div 100 * unat rp div unat mps"
    using r(3,4) by (simp add: nrp_def unsigned_ucast_eq take_bit_nat_eq_self)
  have mnrp_u: "unat mnrp = unat tlw div 100 * unat mrp div unat mps"
    using mr(3,4) by (simp add: mnrp_def unsigned_ucast_eq take_bit_nat_eq_self)
  have d: "div_ck bs (ucast mps) = Ok q" using nz by (simp add: div_ck_def q_def)
  let ?rq = "\<lparr>max_packet_size = mps, symbol_count = scw, transfer_length = tlw,
    plan = lib_generate lib scw, config = lib_with_defaults lib (ucast tlw) mps,
    nb_repair_packets = (if nrp < mnrp then mnrp else nrp), min_nb_repair_packets = mnrp\<rparr>"
  have "RaptorQ_new lib ovf mtu bs rp mrp = Ok ?rq"
    by (simp add: RaptorQ_new_def steps d tq mul r(1,2) mr(1,2) tr tm Let_def)
  moreover have "unat (if nrp < mnrp then mnrp else nrp) = max (unat nrp) (unat mnrp)"
    by (simp add: word_less_nat_alt max_def)
  ultimately show ?thesis
    using nrp_u mnrp_u mps_u sc_u q_u tl_u by (intro exI [of _ ?rq]) simp
qed

lemma RaptorQ_new_symbol_count_error:
  assumes mtu: "40 \<le> unat mtu" and sc: "2 ^ 16 \<le> unat bs div packet_size (unat mtu)"
  shows "RaptorQ_new lib ovf mtu bs rp mrp = Err (PE_Other (''symbol_count: '' @ try_from_int_msg))"
proof -
  define mps where "mps = mtu - 32 - (mtu - 32) mod 8"
  have m32: "32 \<le> unat mtu" using mtu by simp
  note steps = max_packet_size_steps [OF m32, folded mps_def]
  have mps32: "unat (ucast mps :: u32) = packet_size (unat mtu)"
    by (simp add: unat_ucast_up steps(5))
  then have nz: "(ucast mps :: u32) \<noteq> 0"
    using packet_size_pos [OF mtu] by (metis less_irrefl unsigned_0)
  have "unat (bs div ucast mps) = unat bs div packet_size (unat mtu)"
    by (simp add: unat_div mps32)
  then show ?thesis
    using sc nz by (simp add: RaptorQ_new_def steps div_ck_def u16_try_from_u32_def)
qed

text \<open>
  Below 40 bytes the constructor does not return: an MTU under 32 underflows the subtraction of the
  headers (in the dev profile), one from 32 to 39 leaves no aligned packet and divides by zero.
\<close>

lemma RaptorQ_new_underflow:
  assumes "unat mtu < 32"
  shows "RaptorQ_new lib True mtu bs rp mrp = Panic Arithmetic_Overflow"
proof (cases "unat mtu < 28")
  case True
  then show ?thesis by (simp add: RaptorQ_new_def sub_ck_def PACKET_HEADER_SIZE_def)
next
  case False
  then have "unat (mtu - 28) = unat mtu - 28" by (simp add: unat_sub_fits)
  moreover have "unat mtu - 28 < 4" using assms by simp
  ultimately show ?thesis using False
    by (simp add: RaptorQ_new_def sub_ck_def PACKET_HEADER_SIZE_def RAPTORQ_HEADER_SIZE_def)
qed

lemma RaptorQ_new_div_by_zero:
  assumes "32 \<le> unat mtu" and "unat mtu < 40"
  shows "RaptorQ_new lib ovf mtu bs rp mrp = Panic Division_By_Zero"
proof -
  define mps where "mps = mtu - 32 - (mtu - 32) mod 8"
  note steps = max_packet_size_steps [OF assms(1), folded mps_def]
  have "unat mps = 0"
    using assms unfolding steps(5) packet_size_def by simp
  then have "mps = 0" by (simp add: unat_eq_0)
  then show ?thesis
    by (simp add: RaptorQ_new_def steps(1-4) div_ck_def)
qed

section \<open>Properties\<close>

text \<open>A transfer of 17 bytes, with unit values for what the raptorq crate computes.\<close>

definition small_rq :: "(unit, unit) RaptorQ" where
  "small_rq = \<lparr>max_packet_size = 17, symbol_count = 1, transfer_length = 17, plan = (), config = (),
     nb_repair_packets = 0, min_nb_repair_packets = 0\<rparr>"

lemma small_rq_simps [simp]:
  "transfer_length small_rq = 17" "symbol_count small_rq = 1" "nb_repair_packets small_rq = 0"
  "min_nb_repair_packets small_rq = 0"
  by (simp_all add: small_rq_def)

text \<open>
  A repetition code in the place of the raptorq crate, for the concrete instances of the theorems:
  each packet is the block number and the whole block.
\<close>

definition repetition_lib :: "(unit, unit, u8 \<times> byte list) raptorq_lib" where
  "repetition_lib = \<lparr>lib_generate = (\<lambda>n. ()), lib_with_defaults = (\<lambda>n m. ()), lib_symbol_size = (\<lambda>c. 8),
     lib_source_packets = (\<lambda>k c d p. [(k, d)]),
     lib_repair_packets = (\<lambda>k c d p start n. replicate (unat n) (k, d)),
     lib_decode = (\<lambda>k c n ps. case ps of [] \<Rightarrow> None | p # ps' \<Rightarrow> Some (snd p)),
     lib_deserialize = (\<lambda>bs. case bs of [] \<Rightarrow> None | b # d \<Rightarrow> Some (b, d)),
     lib_serialize = (\<lambda>p. fst p # snd p),
     lib_source_block_number = fst\<rparr>"

text \<open>
  C4. A block built from data that fits the transfer (with or without a data argument) has exactly
  the transfer's length, and reading it back gives the client, the type and the data it was built
  from: the constructor and the accessors of \<open>Block\<close> agree on the wire format.
\<close>

theorem block_roundtrip:
  assumes "SERIALIZE_OVERHEAD + length d \<le> unat (transfer_length rq)"
    and "data = Some d \<or> (data = None \<and> d = [])"
  shows "\<exists>b. Block_new bt rq cid data = Ok b \<and>
    length (Block_serialized b) = unat (transfer_length rq) \<and>
    Block_client_id (Block_deserialize (Block_serialized b)) = (Ok cid :: (u32, protocol_error) outcome) \<and>
    Block_block_type (Block_deserialize (Block_serialized b)) = Ok bt \<and>
    Block_payload (Block_deserialize (Block_serialized b)) = (Ok d :: (byte list, protocol_error) outcome)"
proof -
  have "unat (transfer_length rq) < 2 ^ 32" using unsigned_less [of "transfer_length rq"] by simp
  then have small: "length d < 2 ^ 32" using assms(1) by linarith
  have "Block_new bt rq cid data = Ok (block_layout (unat (transfer_length rq)) bt cid d)"
    using assms Block_new_Some Block_new_None by (auto simp: SERIALIZE_OVERHEAD_def)
  with assms(1) small show ?thesis
    by (simp add: Block_serialized_def Block_deserialize_def)
qed

theorem block_roundtrip_witness:
  "\<exists>b. Block_new Data small_rq 7 (Some [1, 2, 3]) = Ok b \<and>
    length (Block_serialized b) = 17 \<and>
    Block_client_id (Block_deserialize (Block_serialized b)) = (Ok 7 :: (u32, protocol_error) outcome) \<and>
    Block_block_type (Block_deserialize (Block_serialized b)) = Ok Data \<and>
    Block_payload (Block_deserialize (Block_serialized b)) =
      (Ok [1, 2, 3] :: (byte list, protocol_error) outcome)"
  using block_roundtrip [of "[1, 2, 3]" small_rq "Some [1, 2, 3]" Data 7]
  by (simp add: SERIALIZE_OVERHEAD_def)





end
