(* ===== verification/Send_Client.thy ===== *)
theory Send_Client
  imports Protocol
begin

text \<open>
  \<open>src/send/client.rs\<close>, \<open>src/send/server.rs\<close> and \<open>src/send/heartbeat.rs\<close>: the workers that put
  blocks into the \<open>to_ordering\<close> channel. A client worker reads its socket (a script of reads) into a
  buffer of \<open>max_data_len\<close> bytes and cuts it into blocks; the server worker gives it an identifier
  and appends an \<open>Abort\<close> block when it fails. The channels of \<open>Sender\<close> have both their ends in the
  shared structure, so a send on them cannot fail and is an append to the list of blocks sent.
\<close>

section \<open>Configuration and errors\<close>

record send_config =
  s_max_clients :: u32
  s_flush :: bool
  s_nb_encode_threads :: u8
  s_heartbeat_interval :: "nat option"  \<comment> \<open>seconds\<close>
  s_to :: SocketAddr
  s_to_bind :: SocketAddr
  s_to_mtu :: u16
  s_batch_send :: "u32 option"
  s_cpu_affinity :: bool
  s_hash :: bool

datatype send_error =
    SE_Io io_error
  | SE_SendBlock
  | SE_SendUdp
  | SE_Receive
  | SE_Protocol protocol_error
  | SE_Diode string
  | SE_Other string

section \<open>The client worker\<close>

text \<open>What the worker has done so far: blocks sent, writes to the hasher, bytes transmitted.\<close>

record client_log =
  sent :: "Block list"
  hashed :: "byte list list"
  transmitted :: nat

definition empty_log :: client_log where
  "empty_log = \<lparr>sent = [], hashed = [], transmitted = 0\<rparr>"

text \<open>
  The read loop. \<open>acc\<close> is \<open>buffer[..cursor]\<close>, \<open>buflen\<close> is \<open>buffer.len()\<close>. A read of zero bytes
  ends the transfer with an \<open>End\<close> block that carries what is left in the buffer.
\<close>

function client_loop :: "send_config \<Rightarrow> ('plan, 'config) RaptorQ \<Rightarrow> u32 \<Rightarrow> nat \<Rightarrow> byte list \<Rightarrow>
    client_log \<Rightarrow> script \<Rightarrow> client_log \<times> (unit, send_error) outcome" where
  "client_loop cfg rq client_id buflen acc log s =
     (case stream_read (buflen - length acc) s of
        (Err e, s') \<Rightarrow> (log, Err (SE_Io e))
      | (Panic p, s') \<Rightarrow> (log, Panic p)
      | (Ok chunk, s') \<Rightarrow>
          let read = length chunk; acc' = acc @ chunk in
          if 0 < read \<and> \<not> (s_flush cfg \<or> buflen \<le> length acc')
          then client_loop cfg rq client_id buflen acc' log s'
          else
            let block_type = (if read = 0 then End else Data);
                log1 = (if s_hash cfg then log\<lparr>hashed := hashed log @ [acc']\<rparr> else log) in
            case Block_new block_type rq client_id (Some acc') of
              Err e \<Rightarrow> (log1, Err (SE_Protocol e))
            | Panic p \<Rightarrow> (log1, Panic p)
            | Ok block \<Rightarrow>
                let log2 = log1\<lparr>sent := sent log1 @ [block],
                                transmitted := transmitted log1 + length acc'\<rparr> in
                if read = 0 then (log2, Ok ())
                else client_loop cfg rq client_id buflen [] log2 s')"
  by pat_completeness auto
termination
  by (relation "measure (\<lambda>(cfg, rq, client_id, buflen, acc, log, s). script_size s)")
    (auto dest!: stream_read_shrinks [OF sym])

declare client_loop.simps [simp del]

definition client_start :: "bool \<Rightarrow> send_config \<Rightarrow> ('plan, 'config) RaptorQ \<Rightarrow> u32 \<Rightarrow> script \<Rightarrow>
    client_log \<times> (unit, send_error) outcome" where
  "client_start ovf cfg rq client_id client =
     (case Block_new Start rq client_id None of
        Err e \<Rightarrow> (empty_log, Err (SE_Protocol e))
      | Panic p \<Rightarrow> (empty_log, Panic p)
      | Ok block \<Rightarrow>
          let log = empty_log\<lparr>sent := [block]\<rparr> in
          case obind (max_data_len ovf rq) vec_zeroed of
            Err e \<Rightarrow> (log, Err e)
          | Panic p \<Rightarrow> (log, Panic p)
          | Ok buffer \<Rightarrow> client_loop cfg rq client_id (length buffer) [] log client)"

section \<open>The server and heartbeat workers\<close>

text \<open>
  One round of the server worker on a client socket: the identifier counter after it, and the blocks
  it sent. The semaphore around the client worker is taken and released in the same round.
\<close>

definition server_round :: "bool \<Rightarrow> send_config \<Rightarrow> ('plan, 'config) RaptorQ \<Rightarrow> u32 \<Rightarrow> script \<Rightarrow>
    u32 \<times> Block list \<times> (unit, send_error) outcome" where
  "server_round ovf cfg rq counter client =
     (case new_client_id counter of (counter', client_id) \<Rightarrow>
        case client_start ovf cfg rq client_id client of
          (log, Ok u) \<Rightarrow> (counter', sent log, Ok ())
        | (log, Panic p) \<Rightarrow> (counter', sent log, Panic p)
        | (log, Err e) \<Rightarrow>
            (case Block_new Abort rq client_id None of
               Ok block \<Rightarrow> (counter', sent log @ [block], Ok ())
             | Err e' \<Rightarrow> (counter', sent log, Err (SE_Protocol e'))
             | Panic p \<Rightarrow> (counter', sent log, Panic p)))"

text \<open>
  The loop of the worker over what its channel delivers: \<open>None\<close> stops it, after sending one \<open>None\<close>
  for each encoding thread; the end of the list leaves it waiting.
\<close>

fun server_start :: "bool \<Rightarrow> send_config \<Rightarrow> ('plan, 'config) RaptorQ \<Rightarrow> u32 \<Rightarrow> script option list \<Rightarrow>
    u32 \<times> Block option list \<times> (unit, send_error) outcome option" where
  "server_start ovf cfg rq counter [] = (counter, [], None)"
| "server_start ovf cfg rq counter (None # cs) =
     (counter, replicate (unat (s_nb_encode_threads cfg)) None, Some (Ok ()))"
| "server_start ovf cfg rq counter (Some client # cs) =
     (case server_round ovf cfg rq counter client of
        (counter', blocks, Ok u) \<Rightarrow>
          (case server_start ovf cfg rq counter' cs of
             (counter'', blocks', r) \<Rightarrow> (counter'', map Some blocks @ blocks', r))
      | (counter', blocks, Err e) \<Rightarrow> (counter', map Some blocks, Some (Err e))
      | (counter', blocks, Panic p) \<Rightarrow> (counter', map Some blocks, Some (Panic p)))"

text \<open>The first \<open>n\<close> rounds of the heartbeat worker, each followed by a sleep of the interval.\<close>

fun heartbeat_rounds :: "('plan, 'config) RaptorQ \<Rightarrow> nat \<Rightarrow> (Block list, send_error) outcome" where
  "heartbeat_rounds rq 0 = Ok []"
| "heartbeat_rounds rq (Suc n) =
     obind (omap_err SE_Protocol (Block_new Heartbeat rq 0 None)) (\<lambda>b.
     obind (heartbeat_rounds rq n) (\<lambda>bs. Ok (b # bs)))"

definition heartbeat_start :: "send_config \<Rightarrow> ('plan, 'config) RaptorQ \<Rightarrow> nat \<Rightarrow>
    (Block list, send_error) outcome" where
  "heartbeat_start cfg rq n =
     (case s_heartbeat_interval cfg of
        None \<Rightarrow> Err (SE_Other ''no heartbeat duration but heartbeat enabled'')
      | Some duration \<Rightarrow> heartbeat_rounds rq n)"

section \<open>What a client worker sends\<close>

text \<open>The data blocks \<open>ds\<close> of a client and its last block with the rest \<open>e\<close>.\<close>

definition data_blocks :: "nat \<Rightarrow> u32 \<Rightarrow> byte list list \<Rightarrow> Block list" where
  "data_blocks n cid ds = map (block_layout n Data cid) ds"

lemma data_blocks_simps [simp]:
  "data_blocks n cid [] = []"
  "data_blocks n cid (d # ds) = block_layout n Data cid d # data_blocks n cid ds"
  by (simp_all add: data_blocks_def)

text \<open>
  The specification of the loop started with \<open>acc\<close> in the buffer and \<open>log\<close> behind it: the stream is
  cut into non-empty pieces that fit the buffer (full ones without \<open>--flush\<close>), each sent as a
  \<open>Data\<close> block; a returning worker ends with an \<open>End\<close> block, a failing one fails with the I/O error
  of its socket, and there is no panic.
\<close>

definition client_spec :: "send_config \<Rightarrow> nat \<Rightarrow> u32 \<Rightarrow> nat \<Rightarrow> byte list \<Rightarrow> client_log \<Rightarrow> script \<Rightarrow>
    client_log \<Rightarrow> (unit, send_error) outcome \<Rightarrow> byte list list \<Rightarrow> byte list \<Rightarrow> byte list \<Rightarrow> bool" where
  "client_spec cfg n cid buflen acc log s log' r ds e rest \<longleftrightarrow>
     acc @ script_bytes s = concat ds @ e @ rest \<and>
     (\<forall>d \<in> set ds. d \<noteq> [] \<and> length d \<le> buflen \<and> (\<not> s_flush cfg \<longrightarrow> length d = buflen)) \<and>
     length e < buflen \<and> (s_flush cfg \<and> acc = [] \<longrightarrow> e = []) \<and>
     (clean s \<longrightarrow> r = Ok () \<and> rest = []) \<and>
     (case r of
        Ok u \<Rightarrow> sent log' = sent log @ data_blocks n cid ds @ [block_layout n End cid e] \<and>
          transmitted log' = transmitted log + length (concat ds @ e) \<and>
          (s_hash cfg \<longrightarrow> concat (hashed log') = concat (hashed log) @ concat ds @ e)
      | Err err \<Rightarrow> (\<exists>io. err = SE_Io io) \<and> sent log' = sent log @ data_blocks n cid ds
      | Panic p \<Rightarrow> False)"

lemma stream_read_bytes:
  "stream_read k s = (Ok c, s') \<Longrightarrow> script_bytes s = c @ script_bytes s'"
  by (cases "(k, s)" rule: stream_read.cases) (auto split: if_splits)

lemma stream_read_clean_rest:
  "stream_read k s = (r, s') \<Longrightarrow> clean s \<Longrightarrow> 0 < k \<Longrightarrow> clean s' \<and> (\<exists>c. r = Ok c \<and> (c = [] \<longrightarrow> script_bytes s' = []))"
  using stream_read_clean [of s k r s'] by (cases s) auto

lemma stream_read_no_panic: "stream_read k s = (r, s') \<Longrightarrow> r \<noteq> Panic p"
  by (cases "(k, s)" rule: stream_read.cases) auto

text \<open>One unfolding of the loop for each kind of read.\<close>

lemma client_loop_fail:
  "stream_read (buflen - length acc) s = (Err e, s') \<Longrightarrow>
     client_loop cfg rq cid buflen acc log s = (log, Err (SE_Io e))"
  by (subst client_loop.simps) simp

lemma client_loop_fill:
  "stream_read (buflen - length acc) s = (Ok c, s') \<Longrightarrow> c \<noteq> [] \<Longrightarrow> \<not> s_flush cfg \<Longrightarrow>
   length (acc @ c) < buflen \<Longrightarrow>
     client_loop cfg rq cid buflen acc log s = client_loop cfg rq cid buflen (acc @ c) log s'"
  by (subst client_loop.simps) simp

lemma client_loop_end:
  "stream_read (buflen - length acc) s = (Ok [], s') \<Longrightarrow>
   SERIALIZE_OVERHEAD + length acc \<le> unat (transfer_length rq) \<Longrightarrow>
     client_loop cfg rq cid buflen acc log s =
       (log\<lparr>hashed := (if s_hash cfg then hashed log @ [acc] else hashed log),
             sent := sent log @ [block_layout (unat (transfer_length rq)) End cid acc],
             transmitted := transmitted log + length acc\<rparr>, Ok ())"
  by (subst client_loop.simps) (simp add: Block_new_Some)

lemma client_loop_emit:
  "stream_read (buflen - length acc) s = (Ok c, s') \<Longrightarrow> c \<noteq> [] \<Longrightarrow>
   s_flush cfg \<or> buflen \<le> length (acc @ c) \<Longrightarrow>
   SERIALIZE_OVERHEAD + length (acc @ c) \<le> unat (transfer_length rq) \<Longrightarrow>
     client_loop cfg rq cid buflen acc log s =
       client_loop cfg rq cid buflen []
         (log\<lparr>hashed := (if s_hash cfg then hashed log @ [acc @ c] else hashed log),
               sent := sent log @ [block_layout (unat (transfer_length rq)) Data cid (acc @ c)],
               transmitted := transmitted log + length (acc @ c)\<rparr>) s'"
  by (subst client_loop.simps) (auto simp: Block_new_Some Let_def)

lemma client_loop_spec:
  assumes n: "n = unat (transfer_length rq)" "n = SERIALIZE_OVERHEAD + buflen"
  shows "length acc < buflen \<Longrightarrow>
    \<exists>log' r ds e rest. client_loop cfg rq cid buflen acc log s = (log', r) \<and>
      client_spec cfg n cid buflen acc log s log' r ds e rest"
proof (induction s arbitrary: acc log rule: measure_induct_rule [where f = script_size])
  case (less s)
  define k where "k = buflen - length acc"
  have k: "0 < k" using less.prems by (simp add: k_def)
  obtain rd s' where rd: "stream_read k s = (rd, s')" by (cases "stream_read k s")
  note rd' = rd [unfolded k_def]
  consider (err) e where "rd = Err e" | (eof) "rd = Ok []" | (bytes) c where "rd = Ok c" "c \<noteq> []"
    using stream_read_no_panic [OF rd] by (cases rd) auto
  then show ?case
  proof cases
    case err
    have "\<not> clean s" using stream_read_clean_rest [OF rd _ k] err by auto
    then have "client_spec cfg n cid buflen acc log s log (Err (SE_Io e)) [] acc (script_bytes s)"
      using less.prems by (simp add: client_spec_def)
    with client_loop_fail [OF rd' [unfolded err]] show ?thesis by blast
  next
    case eof
    have rest: "clean s \<Longrightarrow> script_bytes s = []"
      using stream_read_clean_rest [OF rd _ k] stream_read_bytes [of k s "[]" s'] rd eof by auto
    have fits: "SERIALIZE_OVERHEAD + length acc \<le> unat (transfer_length rq)"
      using n less.prems by simp
    have "client_spec cfg n cid buflen acc log s
        (log\<lparr>hashed := (if s_hash cfg then hashed log @ [acc] else hashed log),
              sent := sent log @ [block_layout (unat (transfer_length rq)) End cid acc],
              transmitted := transmitted log + length acc\<rparr>) (Ok ()) [] acc (script_bytes s)"
      using rest n(1) less.prems by (simp add: client_spec_def)
    with client_loop_end [OF rd' [unfolded eof] fits] show ?thesis by blast
  next
    case bytes
    have len: "length c \<le> k" using rd bytes stream_read_length by blast
    have sm: "script_size s' < script_size s" using stream_read_shrinks [OF rd] bytes by blast
    have sb: "script_bytes s = c @ script_bytes s'" using stream_read_bytes rd bytes by blast
    have cl: "clean s \<Longrightarrow> clean s'" using stream_read_clean_rest [OF rd _ k] by blast
    show ?thesis
    proof (cases "\<not> s_flush cfg \<and> length (acc @ c) < buflen")
      case True
      obtain log' r ds e rest where IH:
        "client_loop cfg rq cid buflen (acc @ c) log s' = (log', r)"
        "client_spec cfg n cid buflen (acc @ c) log s' log' r ds e rest"
        using less.IH [OF sm, of "acc @ c" log] True by blast
      have "client_loop cfg rq cid buflen acc log s = (log', r)"
        using client_loop_fill [OF rd' [unfolded bytes(1)] bytes(2), where cfg = cfg and rq = rq] True IH(1) by simp
      moreover have "client_spec cfg n cid buflen acc log s log' r ds e rest"
        using IH(2) True sb cl by (auto simp: client_spec_def)
      ultimately show ?thesis by blast
    next
      case False
      define log2 where "log2 = log\<lparr>hashed := (if s_hash cfg then hashed log @ [acc @ c] else hashed log),
        sent := sent log @ [block_layout (unat (transfer_length rq)) Data cid (acc @ c)],
        transmitted := transmitted log + length (acc @ c)\<rparr>"
      have pos: "length ([]::byte list) < buflen" using less.prems by simp
      obtain log' r ds e rest where IH: "client_loop cfg rq cid buflen [] log2 s' = (log', r)"
        "client_spec cfg n cid buflen [] log2 s' log' r ds e rest"
        using less.IH [OF sm pos, of log2] by blast
      have fits: "SERIALIZE_OVERHEAD + length (acc @ c) \<le> unat (transfer_length rq)"
        using n len less.prems by (simp add: k_def)
      have fl: "s_flush cfg \<or> buflen \<le> length (acc @ c)" using False by auto
      have "client_loop cfg rq cid buflen acc log s = (log', r)"
        using client_loop_emit [OF rd' [unfolded bytes(1)] bytes(2) fl fits] IH(1)
        by (simp add: log2_def)
      moreover have "client_spec cfg n cid buflen acc log s log' r ((acc @ c) # ds) e rest"
        using IH(2) fl len less.prems sb cl n(1) bytes(2)
        unfolding client_spec_def log2_def
        by (auto simp: k_def split: outcome.splits)
      ultimately show ?thesis by blast
    qed
  qed
qed

text \<open>
  The same for the whole worker: after the \<open>Start\<close> block it behaves as the loop from an empty buffer.
\<close>

lemma client_start_spec:
  assumes n: "n = unat (transfer_length rq)" "SERIALIZE_OVERHEAD < n"
  shows "\<exists>log' r ds e rest. client_start ovf cfg rq cid s = (log', r) \<and>
    client_spec cfg n cid (n - SERIALIZE_OVERHEAD) []
      (empty_log\<lparr>sent := [block_layout n Start cid []]\<rparr>) s log' r ds e rest"
proof -
  have fits: "SERIALIZE_OVERHEAD \<le> unat (transfer_length rq)" using n by simp
  have "n < 2 ^ 32" using n(1) unsigned_less [of "transfer_length rq"] by simp
  then have "n - SERIALIZE_OVERHEAD < 2 ^ 63" by simp
  then have buf: "obind (max_data_len ovf rq) vec_zeroed =
      (Ok (replicate (n - SERIALIZE_OVERHEAD) 0) :: (byte list, send_error) outcome)"
    by (simp add: max_data_len_fits [OF fits] vec_zeroed_def n(1))
  obtain log' r ds e rest where
    "client_loop cfg rq cid (n - SERIALIZE_OVERHEAD) [] (empty_log\<lparr>sent := [block_layout n Start cid []]\<rparr>) s
       = (log', r)"
    "client_spec cfg n cid (n - SERIALIZE_OVERHEAD) []
      (empty_log\<lparr>sent := [block_layout n Start cid []]\<rparr>) s log' r ds e rest"
    using client_loop_spec [OF n(1), of "n - SERIALIZE_OVERHEAD" "[]"] n(2) by fastforce
  then show ?thesis
    by (auto simp: client_start_def Block_new_None [OF fits] buf n(1) Let_def)
qed

text \<open>Cutting a stream into full buffers, the reference for the worker without \<open>--flush\<close>.\<close>

function segment :: "nat \<Rightarrow> byte list \<Rightarrow> byte list list \<times> byte list" where
  "segment k xs =
     (if 0 < k \<and> k \<le> length xs
      then (case segment k (drop k xs) of (ds, e) \<Rightarrow> (take k xs # ds, e))
      else ([], xs))"
  by pat_completeness auto
termination
  by (relation "measure (\<lambda>(k, xs). length xs)") auto

declare segment.simps [simp del]

lemma segment_unique:
  "\<forall>d \<in> set ds. length d = k \<Longrightarrow> length e < k \<Longrightarrow> segment k (concat ds @ e) = (ds, e)"
proof (induction ds)
  case Nil
  then show ?case by (subst segment.simps) simp
next
  case (Cons d ds)
  then show ?case by (subst segment.simps) simp
qed

section \<open>Properties\<close>

text \<open>
  C5. However the bytes of a client arrive, a client worker whose socket delivers them without an
  error returns, and has sent a \<open>Start\<close> block, \<open>Data\<close> blocks and one \<open>End\<close> block, all with the
  client's identifier, whose payloads in order are the client's bytes: nothing lost, duplicated or
  reordered. No \<open>Data\<close> block is empty and every payload fits its block; with hashing on, exactly
  these bytes have been hashed.
\<close>

theorem client_sends_stream:
  assumes "SERIALIZE_OVERHEAD < unat (transfer_length rq)" and "clean s"
  shows "\<exists>log ds e. client_start ovf cfg rq cid s = (log, Ok ()) \<and>
    sent log = [block_layout (unat (transfer_length rq)) Start cid []] @
      data_blocks (unat (transfer_length rq)) cid ds @
      [block_layout (unat (transfer_length rq)) End cid e] \<and>
    concat ds @ e = script_bytes s \<and> transmitted log = length (script_bytes s) \<and>
    (\<forall>d \<in> set ds. d \<noteq> [] \<and> SERIALIZE_OVERHEAD + length d \<le> unat (transfer_length rq)) \<and>
    SERIALIZE_OVERHEAD + length e \<le> unat (transfer_length rq) \<and>
    (s_hash cfg \<longrightarrow> concat (hashed log) = script_bytes s)"
proof -
  obtain log r ds e rest where c: "client_start ovf cfg rq cid s = (log, r)"
    and sp: "client_spec cfg (unat (transfer_length rq)) cid
      (unat (transfer_length rq) - SERIALIZE_OVERHEAD) []
      (empty_log\<lparr>sent := [block_layout (unat (transfer_length rq)) Start cid []]\<rparr>) s log r ds e rest"
    using client_start_spec [OF refl assms(1)] by blast
  from sp assms(2) have "r = Ok ()" by (simp add: client_spec_def)
  with c sp assms show ?thesis
    by (intro exI [of _ log] exI [of _ ds] exI [of _ e])
      (auto simp: client_spec_def empty_log_def)
qed

text \<open>A sender configuration with \<open>--flush\<close> off and hashing on.\<close>

definition small_send_config :: send_config where
  "small_send_config = \<lparr>s_max_clients = 2, s_flush = False, s_nb_encode_threads = 1,
     s_heartbeat_interval = Some 5, s_to = V4 [127, 0, 0, 1] 6000, s_to_bind = V4 [0, 0, 0, 0] 0,
     s_to_mtu = 1500, s_batch_send = None, s_cpu_affinity = False, s_hash = True\<rparr>"

theorem client_sends_stream_witness:
  "\<exists>log ds e. client_start True small_send_config small_rq 3 [Chunk [1, 2, 3], Chunk [4, 5, 6, 7, 8, 9, 10]]
      = (log, Ok ()) \<and>
    sent log = [block_layout 17 Start 3 []] @ data_blocks 17 3 ds @ [block_layout 17 End 3 e] \<and>
    concat ds @ e = [1, 2, 3, 4, 5, 6, 7, 8, 9, 10]"
  using client_sends_stream [of small_rq "[Chunk [1, 2, 3], Chunk [4, 5, 6, 7, 8, 9, 10]]" True
      small_send_config 3]
  by (auto simp: SERIALIZE_OVERHEAD_def)

text \<open>
  C13. Without \<open>--flush\<close> the blocks do not depend on how the bytes arrive: they are the stream cut
  into full buffers, the rest in the \<open>End\<close> block.
\<close>

theorem client_segments_stream:
  assumes "SERIALIZE_OVERHEAD < unat (transfer_length rq)" and "clean s" and "\<not> s_flush cfg"
  shows "map_prod sent id (client_start ovf cfg rq cid s) =
    (case segment (unat (transfer_length rq) - SERIALIZE_OVERHEAD) (script_bytes s) of (ds, e) \<Rightarrow>
      ([block_layout (unat (transfer_length rq)) Start cid []] @
       data_blocks (unat (transfer_length rq)) cid ds @
       [block_layout (unat (transfer_length rq)) End cid e], Ok ()))"
proof -
  obtain log r ds e rest where c: "client_start ovf cfg rq cid s = (log, r)"
    and sp: "client_spec cfg (unat (transfer_length rq)) cid
      (unat (transfer_length rq) - SERIALIZE_OVERHEAD) []
      (empty_log\<lparr>sent := [block_layout (unat (transfer_length rq)) Start cid []]\<rparr>) s log r ds e rest"
    using client_start_spec [OF refl assms(1)] by blast
  from sp assms(2) have r: "r = Ok ()" by (simp add: client_spec_def)
  from sp assms have "script_bytes s = concat ds @ e"
    "\<forall>d \<in> set ds. length d = unat (transfer_length rq) - SERIALIZE_OVERHEAD"
    "length e < unat (transfer_length rq) - SERIALIZE_OVERHEAD"
    by (auto simp: client_spec_def)
  then have "segment (unat (transfer_length rq) - SERIALIZE_OVERHEAD) (script_bytes s) = (ds, e)"
    using segment_unique by metis
  with c sp r show ?thesis
    by (simp add: client_spec_def empty_log_def)
qed

theorem client_segments_stream_witness:
  "map_prod sent id (client_start False small_send_config small_rq 3
      [Chunk [1, 2, 3], Chunk [4, 5, 6, 7, 8, 9, 10]]) =
    ([block_layout 17 Start 3 [], block_layout 17 Data 3 [1, 2, 3, 4, 5, 6, 7, 8],
      block_layout 17 End 3 [9, 10]], Ok ())"
proof -
  have "segment 8 [1, 2, 3, 4, 5, 6, 7, 8, 9, 10] = ([[1, 2, 3, 4, 5, 6, 7, 8]], [9, 10])"
    by (simp add: segment.simps)
  then show ?thesis
    using client_segments_stream [of small_rq "[Chunk [1, 2, 3], Chunk [4, 5, 6, 7, 8, 9, 10]]"
        small_send_config False 3]
    by (simp add: SERIALIZE_OVERHEAD_def small_send_config_def)
qed

text \<open>The blocks of one round of the server worker, whatever the socket does.\<close>

lemma server_round_spec:
  assumes "SERIALIZE_OVERHEAD < unat (transfer_length rq)"
  shows "\<exists>ds e rest bt. server_round ovf cfg rq counter s =
      (counter + 1,
       [block_layout (unat (transfer_length rq)) Start counter []] @
       data_blocks (unat (transfer_length rq)) counter ds @
       [block_layout (unat (transfer_length rq)) bt counter e], Ok ()) \<and>
    (bt = End \<or> (bt = Abort \<and> e = [])) \<and>
    script_bytes s = concat ds @ e @ rest \<and> (clean s \<longrightarrow> bt = End \<and> rest = []) \<and>
    (\<forall>d \<in> set (e # ds). SERIALIZE_OVERHEAD + length d \<le> unat (transfer_length rq))"
proof -
  let ?n = "unat (transfer_length rq)"
  obtain log r ds e rest where c: "client_start ovf cfg rq counter s = (log, r)"
    and sp: "client_spec cfg ?n counter (?n - SERIALIZE_OVERHEAD) []
      (empty_log\<lparr>sent := [block_layout ?n Start counter []]\<rparr>) s log r ds e rest"
    using client_start_spec [OF refl assms] by blast
  have lens: "SERIALIZE_OVERHEAD + length d \<le> ?n" if "d \<in> set (e # ds)" for d
    using sp assms that by (auto simp: client_spec_def)
  then have lens0: "\<forall>d \<in> set ([] # ds). SERIALIZE_OVERHEAD + length d \<le> ?n" using assms by simp
  show ?thesis
  proof (cases r)
    case (Ok u)
    with c sp have "server_round ovf cfg rq counter s = (counter + 1,
        [block_layout ?n Start counter []] @ data_blocks ?n counter ds @ [block_layout ?n End counter e], Ok ())"
      "script_bytes s = concat ds @ e @ rest" "clean s \<longrightarrow> rest = []"
      by (simp_all add: server_round_def new_client_id_def client_spec_def empty_log_def)
    then show ?thesis using lens by blast
  next
    case (Err err)
    have "Block_new Abort rq counter None = Ok (block_layout ?n Abort counter [])"
      using assms by (simp add: Block_new_None)
    with Err c sp have "server_round ovf cfg rq counter s = (counter + 1,
        [block_layout ?n Start counter []] @ data_blocks ?n counter ds @ [block_layout ?n Abort counter []], Ok ())"
      "script_bytes s = concat ds @ [] @ (e @ rest)" "\<not> clean s"
      by (auto simp: server_round_def new_client_id_def client_spec_def empty_log_def)
    then show ?thesis using lens0 by blast
  next
    case (Panic p)
    with sp show ?thesis by (simp add: client_spec_def)
  qed
qed

lemma server_round_blocks:
  assumes "SERIALIZE_OVERHEAD < unat (transfer_length rq)"
    and "server_round ovf cfg rq counter s = (next_id, blocks, res)"
  shows "\<exists>ds e rest bt. blocks = [block_layout (unat (transfer_length rq)) Start counter []] @
       data_blocks (unat (transfer_length rq)) counter ds @
       [block_layout (unat (transfer_length rq)) bt counter e] \<and>
    (bt = End \<or> (bt = Abort \<and> e = [])) \<and>
    script_bytes s = concat ds @ e @ rest \<and> (clean s \<longrightarrow> bt = End \<and> rest = []) \<and>
    (\<forall>d \<in> set (e # ds). SERIALIZE_OVERHEAD + length d \<le> unat (transfer_length rq))"
proof -
  obtain ds e rest bt where r: "server_round ovf cfg rq counter s =
      (counter + 1,
       [block_layout (unat (transfer_length rq)) Start counter []] @
       data_blocks (unat (transfer_length rq)) counter ds @
       [block_layout (unat (transfer_length rq)) bt counter e], Ok ())"
    "bt = End \<or> (bt = Abort \<and> e = [])"
    "script_bytes s = concat ds @ e @ rest" "clean s \<longrightarrow> bt = End \<and> rest = []"
    "\<forall>d \<in> set (e # ds). SERIALIZE_OVERHEAD + length d \<le> unat (transfer_length rq)"
    using server_round_spec [OF assms(1), of ovf cfg counter s] by blast
  then have "blocks = [block_layout (unat (transfer_length rq)) Start counter []] @
       data_blocks (unat (transfer_length rq)) counter ds @
       [block_layout (unat (transfer_length rq)) bt counter e]" using assms(2) by simp
  with r(2-5) show ?thesis by blast
qed

text \<open>
  C14. Whatever a client's socket does (any reads, any error), one round of the server worker gives
  the client the next identifier, does not fail, and sends a \<open>Start\<close> block, \<open>Data\<close> blocks and exactly
  one closing block, \<open>End\<close> or \<open>Abort\<close>; what was sent is a prefix of the client's bytes, and on
  \<open>End\<close> of a socket without errors it is all of them.
\<close>

theorem server_round_closes_transfer:
  assumes "SERIALIZE_OVERHEAD < unat (transfer_length rq)"
  shows "\<exists>ds e rest bt. server_round ovf cfg rq counter s =
      (counter + 1,
       [block_layout (unat (transfer_length rq)) Start counter []] @
       data_blocks (unat (transfer_length rq)) counter ds @
       [block_layout (unat (transfer_length rq)) bt counter e], Ok ()) \<and>
    (bt = End \<or> (bt = Abort \<and> e = [])) \<and>
    script_bytes s = concat ds @ e @ rest \<and> (clean s \<longrightarrow> bt = End \<and> rest = [])"
  using server_round_spec [OF assms] by blast

theorem server_round_closes_transfer_witness:
  "\<exists>ds e rest bt. server_round True small_send_config small_rq 3 [Chunk [1, 2], Fail Broken_Pipe] =
      (4, [block_layout 17 Start 3 []] @ data_blocks 17 3 ds @ [block_layout 17 bt 3 e], Ok ()) \<and>
    (bt = End \<or> (bt = Abort \<and> e = [])) \<and> [1, 2] = concat ds @ e @ rest"
  using server_round_closes_transfer [of small_rq True small_send_config 3 "[Chunk [1, 2], Fail Broken_Pipe]"]
  by (simp add: SERIALIZE_OVERHEAD_def)

end
