(* ===== verification/Turnstile.thy ===== *)
theory Turnstile
  imports Prelude
begin

text \<open>
  The hand-over in sequence used on both sides of the diode: several worker threads take numbered
  jobs from a queue, and a counter behind a mutex and a condition variable (\<open>block_to_send\<close> in
  \<open>src/send/encoding.rs\<close>, \<open>block_to_dispatch\<close> in \<open>src/receive/decode.rs\<close>) lets the one whose number
  is up pass its result on. The numbers are eight bits wide and wrap, so the scheme rests on there
  being fewer threads than numbers. This theory holds the threads' states and the invariant that
  relates them to the unwrapped sequence of jobs; the two pipelines use it through the locale
  \<open>handover\<close>.
\<close>

section \<open>Worker threads\<close>

datatype 'j worker =
    Waiting            \<comment> \<open>blocked on its receiving channel\<close>
  | Holding u8 'j      \<comment> \<open>has a job and waits for its turn\<close>
  | Stopped

fun is_holding :: "'j worker \<Rightarrow> bool" where
  "is_holding (Holding k j) = True"
| "is_holding _ = False"

definition holders :: "'j worker list \<Rightarrow> nat set" where
  "holders ws = {i. i < length ws \<and> is_holding (ws ! i)}"

text \<open>
  The jobs taken and not yet handed over are those with sequence numbers \<open>m\<close> to \<open>n - 1\<close>; each is held
  by one thread, under its number modulo 256, counted from \<open>c\<close>.
\<close>

definition holds :: "nat \<Rightarrow> 'j worker list \<Rightarrow> 'j list \<Rightarrow> nat \<Rightarrow> nat \<Rightarrow> bool" where
  "holds c ws jobs m n \<longleftrightarrow> m \<le> n \<and> n \<le> length jobs \<and>
     (\<exists>f. bij_betw f (holders ws) {m..<n} \<and>
          (\<forall>i k j. i < length ws \<longrightarrow> ws ! i = Holding k j \<longrightarrow> k = of_nat (c + f i) \<and> j = jobs ! f i))"

lemma finite_holders [simp]: "finite (holders ws)"
  by (simp add: holders_def)

lemma holds_card: "holds c ws jobs m n \<Longrightarrow> n - m = card (holders ws)"
  by (auto simp: holds_def dest!: bij_betw_same_card)

lemma card_holders_le: "card (holders ws) \<le> length ws"
proof -
  have "holders ws \<subseteq> {..<length ws}" by (auto simp: holders_def)
  then show ?thesis using card_mono [of "{..<length ws}"] by simp
qed

lemma holds_width: "holds c ws jobs m n \<Longrightarrow> n \<le> m + length ws"
  using holds_card [of c ws jobs m n] card_holders_le [of ws] by (auto simp: holds_def)

lemma holders_update_holding:
  "i < length ws \<Longrightarrow> holders (ws[i := Holding k j]) = insert i (holders ws)"
  by (auto simp: holders_def nth_list_update)

lemma holders_update_idle:
  "i < length ws \<Longrightarrow> \<not> is_holding w \<Longrightarrow> holders (ws[i := w]) = holders ws - {i}"
  by (auto simp: holders_def nth_list_update)

lemma holds_none:
  assumes "\<forall>w \<in> set ws. \<not> is_holding w" and "n \<le> length jobs"
  shows "holds c ws jobs n n"
proof -
  have none: "\<not> is_holding (ws ! i)" if "i < length ws" for i using assms(1) that by simp
  then have "holders ws = {}" by (auto simp: holders_def)
  then have "bij_betw id (holders ws) {n..<n}" by (simp add: bij_betw_def)
  moreover have "ws ! i \<noteq> Holding k j" if "i < length ws" for i k j using none [OF that] by auto
  ultimately show ?thesis using assms(2) by (auto simp: holds_def)
qed

text \<open>New jobs at the end of the sequence do not matter to those already taken.\<close>

lemma holds_append: "holds c ws jobs m n \<Longrightarrow> holds c ws (jobs @ js) m n"
proof -
  assume h: "holds c ws jobs m n"
  then obtain f where f: "bij_betw f (holders ws) {m..<n}"
    "\<forall>i k j. i < length ws \<longrightarrow> ws ! i = Holding k j \<longrightarrow> k = of_nat (c + f i) \<and> j = jobs ! f i"
    "m \<le> n" "n \<le> length jobs" by (auto simp: holds_def)
  have "j = (jobs @ js) ! f i" if "i < length ws" "ws ! i = Holding k j" for i k j
  proof -
    have "i \<in> holders ws" using that by (simp add: holders_def)
    then have "f i < length jobs" using f(1,4) by (auto dest!: bij_betwE)
    then show ?thesis using f(2) that by (simp add: nth_append)
  qed
  then show ?thesis using f by (auto simp: holds_def)
qed

text \<open>A free thread takes the next job.\<close>

lemma holds_take:
  assumes h: "holds c ws jobs m n" and i: "i < length ws" "ws ! i = Waiting" and n: "n < length jobs"
  shows "holds c (ws[i := Holding (of_nat (c + n)) (jobs ! n)]) jobs m (Suc n)"
proof -
  obtain f where f: "bij_betw f (holders ws) {m..<n}"
    "\<forall>i k j. i < length ws \<longrightarrow> ws ! i = Holding k j \<longrightarrow> k = of_nat (c + f i) \<and> j = jobs ! f i"
    "m \<le> n" using h by (auto simp: holds_def)
  have ni: "i \<notin> holders ws" using i by (simp add: holders_def)
  let ?g = "f(i := n)"
  have "bij_betw ?g (holders ws) {m..<n}"
    using f(1) ni by (subst bij_betw_cong [of _ _ f]) auto
  then have "bij_betw ?g (insert i (holders ws)) (insert n {m..<n})"
    using ni by (auto simp: bij_betw_def inj_on_def)
  moreover have "insert n {m..<n} = {m..<Suc n}" using f(3) by auto
  ultimately have "bij_betw ?g (holders (ws[i := Holding (of_nat (c + n)) (jobs ! n)])) {m..<Suc n}"
    using i by (simp add: holders_update_holding)
  then show ?thesis
    using f(2,3) n i by (auto simp: holds_def nth_list_update intro!: exI [of _ ?g])
qed

text \<open>
  The thread whose number is up holds the oldest job: with at most 255 threads the eight-bit
  comparison cannot pick another one.
\<close>

lemma holds_turn:
  assumes h: "holds c ws jobs m n" and i: "i < length ws" "ws ! i = Holding (of_nat (c + m)) j"
    and w: "length ws \<le> 255"
  shows "m < n \<and> j = jobs ! m \<and> holds c (ws[i := Waiting]) jobs (Suc m) n"
proof -
  obtain f where f: "bij_betw f (holders ws) {m..<n}"
    "\<forall>i k j. i < length ws \<longrightarrow> ws ! i = Holding k j \<longrightarrow> k = of_nat (c + f i) \<and> j = jobs ! f i"
    "m \<le> n" "n \<le> length jobs" using h by (auto simp: holds_def)
  have ih: "i \<in> holders ws" using i by (simp add: holders_def)
  then have fi: "m \<le> f i" "f i < n" using f(1) by (auto dest!: bij_betwE)
  have "of_nat (c + f i) = (of_nat (c + m) :: u8)" using f(2) i by metis
  moreover have "f i < m + 256" using fi holds_width [OF h] w by simp
  ultimately have "c + f i = c + m" using fi(1) by (intro of_nat_word_inj_near) auto
  then have fm: "f i = m" by simp
  have "bij_betw f (holders ws - {i}) ({m..<n} - {f i})"
    using f(1) ih by (auto simp: bij_betw_def inj_on_def)
  moreover have "{m..<n} - {f i} = {Suc m..<n}" using fm by auto
  ultimately have "bij_betw f (holders (ws[i := Waiting])) {Suc m..<n}"
    using i by (simp add: holders_update_idle)
  then have "holds c (ws[i := Waiting]) jobs (Suc m) n"
    using f fi fm i by (auto simp: holds_def nth_list_update intro!: exI [of _ f] split: if_splits)
  moreover have "j = jobs ! m" using f(2) i fm by metis
  ultimately show ?thesis using fi fm by simp
qed

text \<open>As long as a job is held, some thread holds the one whose turn it is.\<close>

lemma holds_progress:
  assumes h: "holds c ws jobs m n" and "m < n"
  shows "\<exists>i < length ws. ws ! i = Holding (of_nat (c + m)) (jobs ! m)"
proof -
  obtain f where f: "bij_betw f (holders ws) {m..<n}"
    "\<forall>i k j. i < length ws \<longrightarrow> ws ! i = Holding k j \<longrightarrow> k = of_nat (c + f i) \<and> j = jobs ! f i"
    using h by (auto simp: holds_def)
  have "m \<in> f ` holders ws" using f(1) assms(2) by (simp add: bij_betw_def)
  then obtain i where i: "i \<in> holders ws" "f i = m" by auto
  then obtain k j where "i < length ws" "ws ! i = Holding k j"
    by (cases "ws ! i") (auto simp: holders_def)
  with f(2) i show ?thesis by metis
qed

section \<open>The hand-over as an interface\<close>

text \<open>
  What a pipeline shows of its hand-over: the threads, the sequence of all jobs queued so far, how
  many of them were taken and how many handed over, and the counter.
\<close>

record 'j hview =
  hv_workers :: "'j worker list"
  hv_jobs :: "'j list"
  hv_taken :: nat
  hv_released :: nat
  hv_turn :: u8

definition hinv :: "nat \<Rightarrow> 'j hview \<Rightarrow> bool" where
  "hinv c v \<longleftrightarrow> holds c (hv_workers v) (hv_jobs v) (hv_released v) (hv_taken v) \<and>
     hv_turn v = of_nat (c + hv_released v) \<and> length (hv_workers v) \<le> 255"

inductive hstep :: "nat \<Rightarrow> 'j hview \<Rightarrow> 'j hview \<Rightarrow> bool" for c where
  stay: "hstep c v v"
| enqueue: "hstep c v (v\<lparr>hv_jobs := hv_jobs v @ js\<rparr>)"
| take: "i < length (hv_workers v) \<Longrightarrow> hv_workers v ! i = Waiting \<Longrightarrow> hv_taken v < length (hv_jobs v) \<Longrightarrow>
    hstep c v (v\<lparr>hv_workers := (hv_workers v)[i := Holding (of_nat (c + hv_taken v)) (hv_jobs v ! hv_taken v)],
                hv_taken := Suc (hv_taken v)\<rparr>)"
| release: "i < length (hv_workers v) \<Longrightarrow> hv_workers v ! i = Holding (hv_turn v) j \<Longrightarrow>
    hstep c v (v\<lparr>hv_workers := (hv_workers v)[i := Waiting],
                hv_released := Suc (hv_released v), hv_turn := hv_turn v + 1\<rparr>)"

lemma hinv_release:
  assumes "hinv c v" and "i < length (hv_workers v)" and "hv_workers v ! i = Holding (hv_turn v) j"
  shows "hv_released v < hv_taken v \<and> hv_taken v \<le> length (hv_jobs v) \<and>
    j = hv_jobs v ! hv_released v \<and> hv_turn v = of_nat (c + hv_released v) \<and>
    holds c ((hv_workers v)[i := Waiting]) (hv_jobs v) (Suc (hv_released v)) (hv_taken v)"
  using assms holds_turn [of c "hv_workers v" "hv_jobs v" "hv_released v" "hv_taken v" i j]
  by (auto simp: hinv_def holds_def)

lemma hstep_inv: "hstep c v w \<Longrightarrow> hinv c v \<Longrightarrow> hinv c w"
proof (induction rule: hstep.induct)
  case (stay v)
  then show ?case .
next
  case (enqueue v js)
  then show ?case by (simp add: hinv_def holds_append)
next
  case (take i v)
  then show ?case using holds_take [of c "hv_workers v" "hv_jobs v" "hv_released v" "hv_taken v" i]
    by (simp add: hinv_def)
next
  case (release i v j)
  then show ?case using hinv_release [OF release(3,1,2)] by (simp add: hinv_def algebra_simps)
qed

text \<open>
  A pipeline with a hand-over: each of its steps is, seen through \<open>view\<close>, one of the four above. Its
  own invariant \<open>aux\<close> (what its queues hold) may rely on the hand-over's.
\<close>

locale handover =
  fixes step :: "'s \<Rightarrow> 's \<Rightarrow> bool"
    and start :: "'s \<Rightarrow> bool"
    and view :: "'s \<Rightarrow> 'j hview"
    and aux :: "'s \<Rightarrow> bool"
    and base :: nat
  assumes start_aux: "start s \<Longrightarrow> aux s"
    and start_inv: "start s \<Longrightarrow> hinv base (view s)"
    and step_aux: "aux s \<Longrightarrow> hinv base (view s) \<Longrightarrow> step s t \<Longrightarrow> aux t"
    and step_view: "aux s \<Longrightarrow> step s t \<Longrightarrow> hstep base (view s) (view t)"
begin

lemma reachable:
  assumes "start s" and "step\<^sup>*\<^sup>* s t"
  shows "aux t \<and> hinv base (view t)"
  using assms(2)
proof (induction rule: rtranclp_induct)
  case base
  then show ?case using assms(1) start_aux start_inv by simp
next
  case (step t u)
  then show ?case using step_aux step_view hstep_inv by blast
qed

lemma turn_taken:
  assumes "start s" and "step\<^sup>*\<^sup>* s t" and "hv_released (view t) < hv_taken (view t)"
  shows "\<exists>i j. i < length (hv_workers (view t)) \<and> hv_workers (view t) ! i = Holding (hv_turn (view t)) j"
proof -
  have inv: "hinv base (view t)" using reachable assms(1,2) by blast
  then have "holds base (hv_workers (view t)) (hv_jobs (view t)) (hv_released (view t)) (hv_taken (view t))"
    by (simp add: hinv_def)
  from holds_progress [OF this assms(3)] inv show ?thesis by (auto simp: hinv_def)
qed

lemma released_le:
  assumes "start s" and "step\<^sup>*\<^sup>* s t"
  shows "hv_released (view t) \<le> hv_taken (view t)" "hv_taken (view t) \<le> length (hv_jobs (view t))"
  using reachable [OF assms] by (auto simp: hinv_def holds_def)

end

end
