(* ===== verification/Send_Pipeline.thy ===== *)
theory Send_Pipeline
  imports Protocol Turnstile
begin

text \<open>
  The sending pipeline of \<open>src/send\<close>: the ordering worker (\<open>ordering.rs\<close>), the encoding workers
  (\<open>encoding.rs\<close>) and the UDP worker (\<open>udp.rs\<close>), with the bounded channels between them
  (\<open>send/mod.rs\<close>). Each worker's loop body is a function on the shared state that is \<open>None\<close> while
  the worker is blocked; the threads interleave freely. A channel is the list of the messages in
  transit; \<open>crossbeam_channel\<close> keeps them in order and blocks a sender at the capacity.
\<close>

section \<open>State\<close>

datatype udp_state =
    Udp_Running
  | Udp_Draining u8     \<comment> \<open>received \<open>None\<close>, waits for that many more\<close>
  | Udp_Stopped
  | Udp_Failed

text \<open>
  \<open>ordered\<close> is a history: the blocks numbered by the ordering worker so far. \<open>udp_out\<close> lists the
  packets handed to \<open>udp.send\<close>, call by call.
\<close>

record 'pkt send_pipe =
  ord_q :: "Block option list"
  ord_id :: u8
  ord_done :: bool
  enc_q :: "(u8 \<times> Block) option list"
  encs :: "Block worker list"
  block_to_send :: u8
  send_q :: "'pkt list option list"
  udp_state :: udp_state
  udp_out :: "'pkt list list"
  ordered :: "Block list"

text \<open>The parameters: raptorq, the build profile, \<open>nb_encode_threads\<close>, and which sends succeed.\<close>

record ('plan, 'config, 'pkt) send_env =
  se_lib :: "('plan, 'config, 'pkt) raptorq_lib"
  se_rq :: "('plan, 'config) RaptorQ"
  se_ovf :: bool
  se_threads :: u8
  se_udp_ok :: "'pkt list \<Rightarrow> bool"

text \<open>The capacity of \<open>to_ordering\<close>, \<open>to_encoding\<close> and \<open>to_send\<close>.\<close>

definition chan_cap :: "('plan, 'config, 'pkt) send_env \<Rightarrow> nat" where
  "chan_cap E = unat (se_threads E)"

definition send_init :: "('plan, 'config, 'pkt) send_env \<Rightarrow> 'pkt send_pipe" where
  "send_init E = \<lparr>ord_q = [], ord_id = 0, ord_done = False, enc_q = [],
     encs = replicate (unat (se_threads E)) Waiting, block_to_send = 0, send_q = [],
     udp_state = Udp_Running, udp_out = [], ordered = []\<rparr>"

section \<open>The workers\<close>

text \<open>A client, server or heartbeat worker sends a message to the ordering worker.\<close>

definition submit_step :: "('plan, 'config, 'pkt) send_env \<Rightarrow> Block option \<Rightarrow> 'pkt send_pipe \<Rightarrow>
    'pkt send_pipe option" where
  "submit_step E m s =
     (if length (ord_q s) < chan_cap E then Some (s\<lparr>ord_q := ord_q s @ [m]\<rparr>) else None)"

text \<open>\<open>ordering::start\<close>, one iteration: number the block, or pass the stop on and return.\<close>

definition ordering_step :: "('plan, 'config, 'pkt) send_env \<Rightarrow> 'pkt send_pipe \<Rightarrow>
    'pkt send_pipe option" where
  "ordering_step E s =
     (if ord_done s then None
      else case ord_q s of
        [] \<Rightarrow> None
      | None # q \<Rightarrow>
          if length (send_q s) < chan_cap E
          then Some (s\<lparr>ord_q := q, send_q := send_q s @ [None], ord_done := True\<rparr>)
          else None
      | Some block # q \<Rightarrow>
          if length (enc_q s) < chan_cap E
          then Some (s\<lparr>ord_q := q, enc_q := enc_q s @ [Some (ord_id s, block)],
                       ord_id := ord_id s + 1, ordered := ordered s @ [block]\<rparr>)
          else None)"

text \<open>
  \<open>encoding::start\<close>, thread \<open>i\<close>: it either receives (and reads the client identifier of the block,
  for its log line) or, holding a block, sends the packets when its turn has come.
\<close>

definition encoding_step :: "('plan, 'config, 'pkt) send_env \<Rightarrow> nat \<Rightarrow> 'pkt send_pipe \<Rightarrow>
    'pkt send_pipe option" where
  "encoding_step E i s =
     (if i < length (encs s) then
        (case encs s ! i of
           Waiting \<Rightarrow>
             (case enc_q s of
                [] \<Rightarrow> None
              | None # q \<Rightarrow>
                  if length (send_q s) < chan_cap E
                  then Some (s\<lparr>enc_q := q, send_q := send_q s @ [None], encs := (encs s)[i := Stopped]\<rparr>)
                  else None
              | Some (k, block) # q \<Rightarrow>
                  (case (Block_client_id block :: (u32, protocol_error) outcome) of
                     Ok client_id \<Rightarrow> Some (s\<lparr>enc_q := q, encs := (encs s)[i := Holding k block]\<rparr>)
                   | _ \<Rightarrow> Some (s\<lparr>enc_q := q, encs := (encs s)[i := Stopped]\<rparr>)))
         | Holding k block \<Rightarrow>
             if block_to_send s = k \<and> length (send_q s) < chan_cap E
             then Some (s\<lparr>send_q := send_q s @
                            [Some (RaptorQ_encode (se_lib E) (se_rq E) k (Block_serialized block))],
                          block_to_send := block_to_send s + 1,
                          encs := (encs s)[i := Waiting]\<rparr>)
             else None
         | Stopped \<Rightarrow> None)
      else None)"

text \<open>
  \<open>udp::start\<close>, one message. After the first \<open>None\<close> it counts \<open>nb_encode_threads - 1\<close> further ones
  before it returns; a failed send ends it.
\<close>

definition udp_send_packets :: "('plan, 'config, 'pkt) send_env \<Rightarrow> 'pkt list \<Rightarrow> 'pkt send_pipe \<Rightarrow>
    'pkt send_pipe" where
  "udp_send_packets E packets s =
     (let s' = s\<lparr>udp_out := udp_out s @ [packets]\<rparr> in
      if se_udp_ok E packets then s' else s'\<lparr>udp_state := Udp_Failed\<rparr>)"

definition udp_step :: "('plan, 'config, 'pkt) send_env \<Rightarrow> 'pkt send_pipe \<Rightarrow> 'pkt send_pipe option" where
  "udp_step E s =
     (case udp_state s of
        Udp_Running \<Rightarrow>
          (case send_q s of
             [] \<Rightarrow> None
           | Some packets # q \<Rightarrow> Some (udp_send_packets E packets (s\<lparr>send_q := q\<rparr>))
           | None # q \<Rightarrow>
               (case (sub_ck (se_ovf E) (se_threads E) 1 :: (u8, protocol_error) outcome) of
                  Ok count \<Rightarrow> Some (s\<lparr>send_q := q,
                    udp_state := (if 0 < count then Udp_Draining count else Udp_Stopped)\<rparr>)
                | _ \<Rightarrow> Some (s\<lparr>send_q := q, udp_state := Udp_Failed\<rparr>)))
      | Udp_Draining count \<Rightarrow>
          (case send_q s of
             [] \<Rightarrow> None
           | Some packets # q \<Rightarrow> Some (udp_send_packets E packets (s\<lparr>send_q := q\<rparr>))
           | None # q \<Rightarrow> Some (s\<lparr>send_q := q,
               udp_state := (if 0 < count - 1 then Udp_Draining (count - 1) else Udp_Stopped)\<rparr>))
      | Udp_Stopped \<Rightarrow> None
      | Udp_Failed \<Rightarrow> None)"

section \<open>Interleaving\<close>

datatype send_action = Submit "Block option" | Ordering | Encoding nat | Udp

fun pipe_step :: "('plan, 'config, 'pkt) send_env \<Rightarrow> send_action \<Rightarrow> 'pkt send_pipe \<Rightarrow>
    'pkt send_pipe option" where
  "pipe_step E (Submit m) s = submit_step E m s"
| "pipe_step E Ordering s = ordering_step E s"
| "pipe_step E (Encoding i) s = encoding_step E i s"
| "pipe_step E Udp s = udp_step E s"

fun pipe_run :: "('plan, 'config, 'pkt) send_env \<Rightarrow> send_action list \<Rightarrow> 'pkt send_pipe \<Rightarrow>
    'pkt send_pipe option" where
  "pipe_run E [] s = Some s"
| "pipe_run E (a # as) s = Option.bind (pipe_step E a s) (pipe_run E as)"

text \<open>What the other workers submit: blocks of \<open>Block::new\<close>, or the stop message.\<close>

definition submittable :: "('plan, 'config, 'pkt) send_env \<Rightarrow> Block option \<Rightarrow> bool" where
  "submittable E m \<longleftrightarrow> (case m of None \<Rightarrow> True
     | Some b \<Rightarrow> (\<exists>bt cid data. Block_new bt (se_rq E) cid data = Ok b))"

inductive internal :: "('plan, 'config, 'pkt) send_env \<Rightarrow> 'pkt send_pipe \<Rightarrow> 'pkt send_pipe \<Rightarrow> bool"
  for E where
  ordering: "ordering_step E s = Some t \<Longrightarrow> internal E s t"
| encoding: "encoding_step E i s = Some t \<Longrightarrow> internal E s t"
| udp: "udp_step E s = Some t \<Longrightarrow> internal E s t"

inductive send_trans :: "('plan, 'config, 'pkt) send_env \<Rightarrow> 'pkt send_pipe \<Rightarrow> 'pkt send_pipe \<Rightarrow> bool"
  for E where
  submit: "submit_step E m s = Some t \<Longrightarrow> submittable E m \<Longrightarrow> send_trans E s t"
| worker: "internal E s t \<Longrightarrow> send_trans E s t"

abbreviation send_reachable :: "('plan, 'config, 'pkt) send_env \<Rightarrow> 'pkt send_pipe \<Rightarrow> bool" where
  "send_reachable E s \<equiv> (send_trans E)\<^sup>*\<^sup>* (send_init E) s"

lemma pipe_step_trans:
  "pipe_step E a s = Some t \<Longrightarrow> (\<forall>m. a = Submit m \<longrightarrow> submittable E m) \<Longrightarrow> send_trans E s t"
  by (cases a) (auto intro: send_trans.intros internal.intros)

lemma pipe_run_reaches:
  "pipe_run E as s = Some t \<Longrightarrow> (\<forall>m. Submit m \<in> set as \<longrightarrow> submittable E m) \<Longrightarrow> (send_trans E)\<^sup>*\<^sup>* s t"
proof (induction as arbitrary: s)
  case Nil
  then show ?case by simp
next
  case (Cons a as)
  then obtain s' where s': "pipe_step E a s = Some s'" "pipe_run E as s' = Some t"
    by (auto simp: bind_eq_Some_conv)
  have "send_trans E s s'" using s'(1) Cons.prems(2) by (intro pipe_step_trans) auto
  moreover have "(send_trans E)\<^sup>*\<^sup>* s' t" using Cons.IH s'(2) Cons.prems(2) by auto
  ultimately show ?case by (rule converse_rtranclp_into_rtranclp)
qed

section \<open>The invariant\<close>

definition encode_seq :: "('plan, 'config, 'pkt) send_env \<Rightarrow> Block list \<Rightarrow> 'pkt list list" where
  "encode_seq E bs =
     map (\<lambda>k. RaptorQ_encode (se_lib E) (se_rq E) (of_nat k) (Block_serialized (bs ! k))) [0..<length bs]"

lemma length_encode_seq [simp]: "length (encode_seq E bs) = length bs"
  by (simp add: encode_seq_def)

lemma encode_seq_snoc:
  "encode_seq E (bs @ [b]) = encode_seq E bs @
     [RaptorQ_encode (se_lib E) (se_rq E) (of_nat (length bs)) (Block_serialized b)]"
  by (simp add: encode_seq_def nth_append)

lemma take_Suc_encode_seq:
  "m < length bs \<Longrightarrow> take (Suc m) (encode_seq E bs) = take m (encode_seq E bs) @
     [RaptorQ_encode (se_lib E) (se_rq E) (of_nat m) (Block_serialized (bs ! m))]"
  by (simp add: take_Suc_conv_app_nth encode_seq_def)

text \<open>The packets handed over, sent or still in the channel to the UDP worker.\<close>

definition handed :: "'pkt send_pipe \<Rightarrow> 'pkt list list" where
  "handed s = udp_out s @ somes (send_q s)"

definition taken :: "'pkt send_pipe \<Rightarrow> nat" where
  "taken s = length (ordered s) - length (enc_q s)"

lemma taken_update [simp]:
  "taken (s\<lparr>ord_q := a\<rparr>) = taken s" "taken (s\<lparr>ord_id := b\<rparr>) = taken s"
  "taken (s\<lparr>ord_done := c\<rparr>) = taken s" "taken (s\<lparr>encs := d\<rparr>) = taken s"
  "taken (s\<lparr>block_to_send := e\<rparr>) = taken s" "taken (s\<lparr>send_q := f\<rparr>) = taken s"
  "taken (s\<lparr>udp_state := g\<rparr>) = taken s" "taken (s\<lparr>udp_out := h\<rparr>) = taken s"
  by (simp_all add: taken_def)

lemma handed_update [simp]:
  "handed (s\<lparr>ord_q := a\<rparr>) = handed s" "handed (s\<lparr>ord_id := b\<rparr>) = handed s"
  "handed (s\<lparr>ord_done := c\<rparr>) = handed s" "handed (s\<lparr>encs := d\<rparr>) = handed s"
  "handed (s\<lparr>block_to_send := e\<rparr>) = handed s" "handed (s\<lparr>enc_q := i\<rparr>) = handed s"
  "handed (s\<lparr>udp_state := g\<rparr>) = handed s" "handed (s\<lparr>ordered := j\<rparr>) = handed s"
  "handed (s\<lparr>send_q := q\<rparr>) = udp_out s @ somes q"
  by (simp_all add: handed_def)

definition sp_view :: "'pkt send_pipe \<Rightarrow> Block hview" where
  "sp_view s = \<lparr>hv_workers = encs s, hv_jobs = ordered s, hv_taken = taken s,
     hv_released = length (handed s), hv_turn = block_to_send s\<rparr>"

lemma sp_view_simps [simp]:
  "hv_workers (sp_view s) = encs s" "hv_jobs (sp_view s) = ordered s" "hv_taken (sp_view s) = taken s"
  "hv_released (sp_view s) = length (handed s)" "hv_turn (sp_view s) = block_to_send s"
  by (simp_all add: sp_view_def)

definition sp_aux :: "('plan, 'config, 'pkt) send_env \<Rightarrow> 'pkt send_pipe \<Rightarrow> bool" where
  "sp_aux E s \<longleftrightarrow>
     length (enc_q s) \<le> length (ordered s) \<and>
     enc_q s = map (\<lambda>k. Some (of_nat k, ordered s ! k)) [taken s..<length (ordered s)] \<and>
     ord_id s = of_nat (length (ordered s)) \<and>
     take (length (handed s)) (encode_seq E (ordered s)) = handed s \<and>
     (\<forall>b \<in> set (ordered s) \<union> set (somes (ord_q s)). 4 \<le> length (block_bytes b)) \<and>
     length (encs s) = unat (se_threads E) \<and> Stopped \<notin> set (encs s)"

lemma length_vec_extend [simp]: "length (vbuf (vec_extend v bs)) = length (vbuf v) + length bs"
  by (simp add: vec_extend_def)

lemma length_vec_resize: "length (vbuf v) < k \<Longrightarrow> length (vbuf v) \<le> length (vbuf (vec_resize v k x))"
  by (simp add: vec_resize_def)

lemma Block_new_length:
  assumes "Block_new bt rq cid data = Ok b"
  shows "4 \<le> length (block_bytes b)"
proof (cases data)
  case None
  then show ?thesis
    using assms by (auto simp: Block_new_def Let_def obind_eq_Ok vec_set_def split: if_splits)
next
  case (Some d)
  define v2 where "v2 = vec_push (vec_extend (vec_with_capacity (unat (transfer_length rq)))
    (to_le_bytes cid)) (BlockType_serialized bt)"
  have l2: "4 \<le> length (vbuf v2)" by (simp add: v2_def vec_push_def)
  from Some assms obtain len :: u32 where b: "b = Block (vbuf (let v4 = vec_extend (vec_extend v2 (to_le_bytes len)) d in
      if length (vbuf v4) < vcap v4 then vec_resize v4 (vcap v4) 0 else v4))"
    by (auto simp: Block_new_def Let_def obind_eq_Ok v2_def)
  show ?thesis
  proof (cases "length (vbuf (vec_extend (vec_extend v2 (to_le_bytes len)) d)) <
      vcap (vec_extend (vec_extend v2 (to_le_bytes len)) d)")
    case True
    have "4 \<le> length (vbuf (vec_extend (vec_extend v2 (to_le_bytes len)) d))" using l2 by simp
    also note length_vec_resize [OF True, of 0]
    finally show ?thesis using b True by (simp add: Let_def)
  next
    case False
    then show ?thesis using b l2 by (simp add: Let_def)
  qed
qed

lemma submittable_length: "submittable E (Some b) \<Longrightarrow> 4 \<le> length (block_bytes b)"
  by (auto simp: submittable_def dest: Block_new_length)

subsection \<open>Each worker is a step of the hand-over\<close>

lemma submit_step_inv:
  assumes "submit_step E m s = Some t" and "submittable E m" and "sp_aux E s"
  shows "sp_view t = sp_view s \<and> sp_aux E t"
proof -
  have t: "t = s\<lparr>ord_q := ord_q s @ [m]\<rparr>" using assms(1) by (simp add: submit_step_def split: if_splits)
  have "4 \<le> length (block_bytes b)" if "m = Some b" for b
    using that assms(2) submittable_length by blast
  then show ?thesis
    using assms(3) t by (cases m) (auto simp: sp_aux_def sp_view_def)
qed

lemma ordering_step_inv:
  assumes "ordering_step E s = Some t" and "sp_aux E s"
  shows "hstep 0 (sp_view s) (sp_view t) \<and> (length (handed s) \<le> length (ordered s) \<longrightarrow> sp_aux E t)"
proof -
  from assms(1) consider
    (stop) q where "ord_q s = None # q" "t = s\<lparr>ord_q := q, send_q := send_q s @ [None], ord_done := True\<rparr>"
  | (block) b q where "ord_q s = Some b # q" "t = s\<lparr>ord_q := q, enc_q := enc_q s @ [Some (ord_id s, b)],
      ord_id := ord_id s + 1, ordered := ordered s @ [b]\<rparr>"
    by (auto simp: ordering_step_def split: if_splits list.splits option.splits)
  then show ?thesis
  proof cases
    case stop
    have h: "handed t = handed s" using stop by (simp add: handed_def)
    have "sp_view t = sp_view s" using stop h by (simp add: sp_view_def)
    moreover have "sp_aux E t" using stop assms(2) h by (simp add: sp_aux_def)
    ultimately show ?thesis by (simp add: hstep.stay)
  next
    case block
    have le: "length (enc_q s) \<le> length (ordered s)" using assms(2) by (simp add: sp_aux_def)
    have tk: "taken t = taken s" using block le by (simp add: taken_def)
    have tl: "taken s \<le> length (ordered s)" by (simp add: taken_def)
    have "sp_view t = (sp_view s)\<lparr>hv_jobs := hv_jobs (sp_view s) @ [b]\<rparr>"
      using block tk by (simp add: sp_view_def)
    then have "hstep 0 (sp_view s) (sp_view t)" using hstep.enqueue by metis
    moreover have "enc_q t = map (\<lambda>k. Some (of_nat k, ordered t ! k)) [taken t..<length (ordered t)]"
      using block assms(2) tk tl
      by (simp add: sp_aux_def nth_append)
    moreover have "take (length (handed t)) (encode_seq E (ordered t)) = handed t"
      if "length (handed s) \<le> length (ordered s)"
      using block assms(2) that by (simp add: sp_aux_def encode_seq_snoc)
    moreover have "\<forall>b' \<in> set (ordered t) \<union> set (somes (ord_q t)). 4 \<le> length (block_bytes b')"
      using block assms(2) by (auto simp: sp_aux_def)
    moreover have "length (enc_q t) \<le> length (ordered t)" "ord_id t = of_nat (length (ordered t))"
      "length (encs t) = unat (se_threads E)" "Stopped \<notin> set (encs t)"
      using block assms(2) le by (simp_all add: sp_aux_def)
    ultimately show ?thesis by (simp add: sp_aux_def)
  qed
qed

lemma Some_not_Stopped: "w \<noteq> Stopped \<Longrightarrow> Stopped \<notin> set ws \<Longrightarrow> Stopped \<notin> set (ws[i := w])"
  using set_update_subset_insert [of ws i w] by auto

lemma encoding_step_cases:
  assumes "encoding_step E i s = Some t" and "sp_aux E s"
  obtains
    (take) q where "i < length (encs s)" "encs s ! i = Waiting" "taken s < length (ordered s)"
      "enc_q s = Some (of_nat (taken s), ordered s ! taken s) # q"
      "t = s\<lparr>enc_q := q, encs := (encs s)[i := Holding (of_nat (taken s)) (ordered s ! taken s)]\<rparr>"
  | (release) b where "i < length (encs s)" "encs s ! i = Holding (block_to_send s) b"
      "length (send_q s) < chan_cap E"
      "t = s\<lparr>send_q := send_q s @
             [Some (RaptorQ_encode (se_lib E) (se_rq E) (block_to_send s) (Block_serialized b))],
           block_to_send := block_to_send s + 1, encs := (encs s)[i := Waiting]\<rparr>"
proof -
  from assms(1) have i: "i < length (encs s)" by (simp add: encoding_step_def split: if_splits)
  show thesis
  proof (cases "encs s ! i")
    case Waiting
    with assms(1) i have ne: "enc_q s \<noteq> []" by (auto simp: encoding_step_def)
    with assms(2) have lt: "taken s < length (ordered s)" by (auto simp: sp_aux_def)
    then have q: "enc_q s = Some (of_nat (taken s), ordered s ! taken s) #
        map (\<lambda>k. Some (of_nat k, ordered s ! k)) [Suc (taken s)..<length (ordered s)]"
      using assms(2) by (simp add: sp_aux_def upt_conv_Cons)
    have "4 \<le> length (block_bytes (ordered s ! taken s))" using assms(2) lt by (simp add: sp_aux_def)
    then obtain c where "Block_client_id (ordered s ! taken s) = (Ok c :: (u32, protocol_error) outcome)"
      using Block_client_id_Ok by blast
    with assms(1) i Waiting q have "t = s\<lparr>enc_q := map (\<lambda>k. Some (of_nat k, ordered s ! k)) [Suc (taken s)..<length (ordered s)],
        encs := (encs s)[i := Holding (of_nat (taken s)) (ordered s ! taken s)]\<rparr>"
      by (simp add: encoding_step_def)
    with take i Waiting lt q show thesis by blast
  next
    case (Holding k b)
    with assms(1) i release show thesis
      by (auto simp: encoding_step_def split: if_splits)
  next
    case Stopped
    with assms(1) i show thesis by (simp add: encoding_step_def)
  qed
qed

lemma encoding_step_inv:
  assumes "encoding_step E i s = Some t" and "sp_aux E s"
  shows "hstep 0 (sp_view s) (sp_view t) \<and> (hinv 0 (sp_view s) \<longrightarrow> sp_aux E t)"
  using assms
proof (cases rule: encoding_step_cases)
  case (take q)
  have "length (enc_q s) = Suc (length q)" using take(4) by simp
  moreover have "length (enc_q s) \<le> length (ordered s)" using assms(2) unfolding sp_aux_def by blast
  ultimately have tk: "taken t = Suc (taken s)" using take(5) by (simp add: taken_def)
  have "sp_view t = (sp_view s)\<lparr>hv_workers := (hv_workers (sp_view s))[i := Holding (of_nat (0 + hv_taken (sp_view s)))
      (hv_jobs (sp_view s) ! hv_taken (sp_view s))], hv_taken := Suc (hv_taken (sp_view s))\<rparr>"
    using take(5) tk by (simp add: sp_view_def)
  then have st: "hstep 0 (sp_view s) (sp_view t)"
    using hstep.take [of i "sp_view s" 0] take(1-3) by simp
  have "enc_q t = map (\<lambda>k. Some (of_nat k, ordered s ! k)) [Suc (taken s)..<length (ordered s)]"
    using take(3-5) assms(2) by (simp add: sp_aux_def upt_conv_Cons)
  then have "sp_aux E t"
    using take tk assms(2) by (simp add: sp_aux_def Some_not_Stopped)
  with st show ?thesis by blast
next
  case (release b)
  let ?p = "RaptorQ_encode (se_lib E) (se_rq E) (block_to_send s) (Block_serialized b)"
  have h: "handed t = handed s @ [?p]" using release(4) by (simp add: handed_def)
  have "sp_view t = (sp_view s)\<lparr>hv_workers := (hv_workers (sp_view s))[i := Waiting],
      hv_released := Suc (hv_released (sp_view s)), hv_turn := hv_turn (sp_view s) + 1\<rparr>"
    using release(4) by (simp add: sp_view_def handed_def)
  then have st: "hstep 0 (sp_view s) (sp_view t)"
    using hstep.release [of i "sp_view s" b 0] release(1,2) by simp
  have "sp_aux E t" if inv: "hinv 0 (sp_view s)"
  proof -
    from hinv_release [OF inv, of i b] release(1,2)
    have m: "length (handed s) < length (ordered s)" "b = ordered s ! length (handed s)"
      "block_to_send s = of_nat (length (handed s))" by auto
    then have "take (length (handed t)) (encode_seq E (ordered s)) = handed t"
      using assms(2) by (simp add: h take_Suc_encode_seq sp_aux_def)
    then show ?thesis using release assms(2) by (simp add: sp_aux_def Some_not_Stopped h)
  qed
  with st show ?thesis by blast
qed

lemma udp_send_packets_simps [simp]:
  "ord_q (udp_send_packets E p s) = ord_q s" "ord_id (udp_send_packets E p s) = ord_id s"
  "ord_done (udp_send_packets E p s) = ord_done s" "enc_q (udp_send_packets E p s) = enc_q s"
  "encs (udp_send_packets E p s) = encs s" "block_to_send (udp_send_packets E p s) = block_to_send s"
  "send_q (udp_send_packets E p s) = send_q s" "udp_out (udp_send_packets E p s) = udp_out s @ [p]"
  "ordered (udp_send_packets E p s) = ordered s"
  by (simp_all add: udp_send_packets_def Let_def)

lemma udp_step_frame:
  assumes "udp_step E s = Some t"
  shows "ord_q t = ord_q s \<and> ord_id t = ord_id s \<and> ord_done t = ord_done s \<and> enc_q t = enc_q s \<and>
    encs t = encs s \<and> block_to_send t = block_to_send s \<and> ordered t = ordered s \<and> handed t = handed s \<and>
    (\<exists>m. send_q s = m # send_q t \<and> udp_out t = udp_out s @ somes [m])"
  using assms
  by (auto simp: udp_step_def handed_def sub_ck_def split: udp_state.splits list.splits option.splits if_splits)

lemma udp_step_inv:
  assumes "udp_step E s = Some t" and "sp_aux E s"
  shows "sp_view t = sp_view s \<and> sp_aux E t"
proof -
  have "taken t = taken s" using udp_step_frame [OF assms(1)] by (simp add: taken_def)
  then show ?thesis
    using udp_step_frame [OF assms(1)] assms(2) by (simp add: sp_view_def sp_aux_def)
qed

subsection \<open>The sending pipeline is a hand-over\<close>

lemma send_trans_view:
  assumes "sp_aux E s" and "send_trans E s t"
  shows "hstep 0 (sp_view s) (sp_view t)"
  using assms(2)
proof cases
  case (submit m)
  then show ?thesis using submit_step_inv assms(1) by (metis hstep.stay)
next
  case worker
  then show ?thesis
  proof cases
    case ordering
    then show ?thesis using ordering_step_inv assms(1) by blast
  next
    case (encoding i)
    then show ?thesis using encoding_step_inv assms(1) by blast
  next
    case udp
    then show ?thesis using udp_step_inv assms(1) by (metis hstep.stay)
  qed
qed

lemma send_trans_aux:
  assumes "sp_aux E s" and "hinv 0 (sp_view s)" and "send_trans E s t"
  shows "sp_aux E t"
  using assms(3)
proof cases
  case (submit m)
  then show ?thesis using submit_step_inv assms(1) by blast
next
  case worker
  then show ?thesis
  proof cases
    case ordering
    have "length (handed s) \<le> length (ordered s)" using assms(2) by (auto simp: hinv_def holds_def)
    then show ?thesis using ordering_step_inv ordering assms(1) by blast
  next
    case (encoding i)
    then show ?thesis using encoding_step_inv assms(1,2) by blast
  next
    case udp
    then show ?thesis using udp_step_inv assms(1) by blast
  qed
qed

lemma send_init_aux: "sp_aux E (send_init E)"
  by (simp add: sp_aux_def send_init_def taken_def handed_def)

lemma send_init_inv: "hinv 0 (sp_view (send_init E))"
proof -
  have "unat (se_threads E) < 256" using unsigned_less [of "se_threads E"] by simp
  then show ?thesis
    by (simp add: hinv_def send_init_def sp_view_def taken_def handed_def holds_none)
qed

interpretation sp: handover "send_trans E" "\<lambda>s. s = send_init E" sp_view "sp_aux E" 0 for E
proof unfold_locales
  fix s :: "'c send_pipe"
  assume "s = send_init E"
  then show "sp_aux E s" "hinv 0 (sp_view s)" by (simp_all add: send_init_aux send_init_inv)
next
  fix s t :: "'c send_pipe"
  assume "sp_aux E s" "hinv 0 (sp_view s)" "send_trans E s t"
  then show "sp_aux E t" by (rule send_trans_aux)
next
  fix s t :: "'c send_pipe"
  assume "sp_aux E s" "send_trans E s t"
  then show "hstep 0 (sp_view s) (sp_view t)" by (rule send_trans_view)
qed

lemma send_reachable_inv: "send_reachable E s \<Longrightarrow> sp_aux E s \<and> hinv 0 (sp_view s)"
  using sp.reachable by blast

section \<open>Progress\<close>

text \<open>
  While nobody has asked to stop and the socket accepts the packets, the work in the pipeline is
  counted by a measure that every worker step decreases.
\<close>

definition flowing :: "'pkt send_pipe \<Rightarrow> bool" where
  "flowing s \<longleftrightarrow> udp_state s = Udp_Running \<and> \<not> ord_done s \<and> None \<notin> set (ord_q s) \<and> None \<notin> set (send_q s)"

definition pending :: "'pkt send_pipe \<Rightarrow> nat" where
  "pending s = 4 * length (ord_q s) + 3 * length (enc_q s) + 2 * card (holders (encs s)) + length (send_q s)"

lemma internal_step_effect:
  assumes "internal E s t" and "sp_aux E s" and "flowing s" and "\<forall>p. se_udp_ok E p"
  shows "flowing t \<and> pending t < pending s \<and> ordered t @ somes (ord_q t) = ordered s @ somes (ord_q s)"
  using assms(1)
proof cases
  case ordering
  then show ?thesis
    using assms(3) by (auto simp: ordering_step_def flowing_def pending_def
        split: list.splits option.splits if_splits)
next
  case (encoding i)
  then show ?thesis
    using assms(2)
  proof (cases rule: encoding_step_cases)
    case (take q)
    have "i \<notin> holders (encs s)" using take(2) by (simp add: holders_def)
    then show ?thesis using take assms(3)
      by (simp add: flowing_def pending_def holders_update_holding)
  next
    case (release b)
    have "i \<in> holders (encs s)" using release(1,2) by (simp add: holders_def)
    moreover from this have "0 < card (holders (encs s))" by (auto simp: card_gt_0_iff)
    ultimately show ?thesis using release assms(3)
      by (simp add: flowing_def pending_def holders_update_idle)
  qed
next
  case udp
  then show ?thesis
    using assms(3,4) by (auto simp: udp_step_def flowing_def pending_def udp_send_packets_def
        split: list.splits option.splits)
qed

text \<open>Deadlock freedom: as long as something is pending, some worker can move.\<close>

lemma internal_progress:
  assumes r: "send_reachable E s" and f: "flowing s" and th: "0 < unat (se_threads E)"
    and p: "pending s \<noteq> 0"
  shows "\<exists>t. internal E s t"
proof -
  from r have aux: "sp_aux E s" and inv: "hinv 0 (sp_view s)" using send_reachable_inv by blast+
  show ?thesis
  proof (cases "send_q s")
    case (Cons m q)
    then obtain pk where "m = Some pk" using f by (cases m) (auto simp: flowing_def)
    then have "\<exists>t. udp_step E s = Some t" using Cons f by (simp add: udp_step_def flowing_def)
    then show ?thesis using internal.udp by blast
  next
    case Nil
    then have room: "length (send_q s) < chan_cap E" using th by (simp add: chan_cap_def)
    show ?thesis
    proof (cases "holders (encs s) = {}")
      case False
      have "length (handed s) < taken s"
        using inv False holds_card [of 0 "encs s" "ordered s" "length (handed s)" "taken s"]
        by (auto simp: hinv_def card_gt_0_iff)
      then obtain i b where "i < length (encs s)" "encs s ! i = Holding (block_to_send s) b"
        using sp.turn_taken [OF refl r] by auto
      then have "\<exists>t. encoding_step E i s = Some t" using room by (simp add: encoding_step_def)
      then show ?thesis using internal.encoding by blast
    next
      case nohold: True
      show ?thesis
      proof (cases "enc_q s")
        case (Cons m q)
        have i0: "0 < length (encs s)" using aux th by (simp add: sp_aux_def)
        then have "encs s ! 0 \<noteq> Stopped" using aux nth_mem [OF i0] by (auto simp: sp_aux_def)
        moreover have "\<not> is_holding (encs s ! 0)" using nohold i0 by (auto simp: holders_def)
        ultimately have w: "encs s ! 0 = Waiting" by (cases "encs s ! 0") auto
        have "m \<in> set (enc_q s)" using Cons by simp
        then obtain k b where "m = Some (k, b)" using aux unfolding sp_aux_def by auto
        then have "\<exists>t. encoding_step E 0 s = Some t" using Cons i0 w
          by (simp add: encoding_step_def split: outcome.splits)
        then show ?thesis using internal.encoding by blast
      next
        case en: Nil
        then have "ord_q s \<noteq> []" using p Nil nohold by (simp add: pending_def)
        then obtain m q where o: "ord_q s = m # q" by (cases "ord_q s") auto
        then obtain b where "m = Some b" using f by (cases m) (auto simp: flowing_def)
        then have "\<exists>t. ordering_step E s = Some t"
          using o en f th by (simp add: ordering_step_def flowing_def chan_cap_def)
        then show ?thesis using internal.ordering by blast
      qed
    qed
  qed
qed

lemma pending_zero_all_sent:
  assumes "send_reachable E s" and "pending s = 0"
  shows "udp_out s = encode_seq E (ordered s)"
proof -
  from assms(1) have aux: "sp_aux E s" and inv: "hinv 0 (sp_view s)" using send_reachable_inv by blast+
  have "length (handed s) = taken s"
    using inv assms(2) holds_card [of 0 "encs s" "ordered s" "length (handed s)" "taken s"]
    by (auto simp: hinv_def pending_def holds_def)
  moreover have "taken s = length (ordered s)" "handed s = udp_out s"
    using assms(2) by (simp_all add: pending_def taken_def handed_def)
  ultimately show ?thesis using aux by (simp add: sp_aux_def)
qed

lemma internal_run_effect:
  assumes "(internal E ^^ n) s t" and "send_reachable E s" and "flowing s" and "\<forall>p. se_udp_ok E p"
  shows "send_reachable E t \<and> flowing t \<and> n + pending t \<le> pending s \<and>
    ordered t @ somes (ord_q t) = ordered s @ somes (ord_q s)"
  using assms(1)
proof (induction n arbitrary: t)
  case 0
  then show ?case using assms by simp
next
  case (Suc n)
  then obtain u where u: "(internal E ^^ n) s u" "internal E u t" by auto
  from Suc.IH [OF u(1)] have IH: "send_reachable E u" "flowing u" "n + pending u \<le> pending s"
    "ordered u @ somes (ord_q u) = ordered s @ somes (ord_q s)" by auto
  have "sp_aux E u" using IH(1) send_reachable_inv by blast
  from internal_step_effect [OF u(2) this IH(2) assms(4)] IH u(2) show ?case
    by (auto intro: rtranclp.rtrancl_into_rtrancl send_trans.worker)
qed

text \<open>A pipeline that has come to rest has sent everything.\<close>

lemma rest_all_sent:
  assumes "send_reachable E s" and "flowing s" and "0 < unat (se_threads E)" and "\<forall>p. se_udp_ok E p"
    and "(internal E)\<^sup>*\<^sup>* s t" and "\<not> (\<exists>u. internal E t u)"
  shows "udp_out t = encode_seq E (ordered s @ somes (ord_q s))"
proof -
  obtain n where "(internal E ^^ n) s t" using assms(5) by (auto simp: rtranclp_power)
  from internal_run_effect [OF this assms(1,2,4)]
  have t: "send_reachable E t" "flowing t" "ordered t @ somes (ord_q t) = ordered s @ somes (ord_q s)"
    by auto
  have z: "pending t = 0" using internal_progress [OF t(1,2) assms(3)] assms(6) by blast
  then have "ord_q t = []" by (simp add: pending_def)
  with t(3) pending_zero_all_sent [OF t(1) z] show ?thesis by simp
qed

text \<open>It does come to rest.\<close>

lemma pipeline_rests:
  "send_reachable E s \<Longrightarrow> flowing s \<Longrightarrow> \<forall>p. se_udp_ok E p \<Longrightarrow> \<exists>t. (internal E)\<^sup>*\<^sup>* s t \<and> \<not> (\<exists>u. internal E t u)"
proof (induction s rule: measure_induct_rule [where f = pending])
  case (less u)
  show ?case
  proof (cases "\<exists>v. internal E u v")
    case True
    then obtain v where v: "internal E u v" by blast
    then have "(internal E ^^ 1) u v" by auto
    from internal_run_effect [OF this less.prems]
    have "send_reachable E v" "flowing v" "pending v < pending u" by auto
    with less.IH less.prems(3) v show ?thesis by (meson converse_rtranclp_into_rtranclp)
  qed blast
qed

section \<open>Stopping\<close>

text \<open>Once the UDP worker has returned, what it has sent does not change.\<close>

lemma udp_stopped_stable:
  assumes "(send_trans E)\<^sup>*\<^sup>* s t" and "udp_state s = Udp_Stopped"
  shows "udp_state t = Udp_Stopped \<and> udp_out t = udp_out s"
  using assms
proof (induction rule: rtranclp_induct)
  case base
  then show ?case by simp
next
  case (step t u)
  then have st: "udp_state t = Udp_Stopped" by simp
  from step(2) have "udp_state u = udp_state t \<and> udp_out u = udp_out t"
  proof cases
    case (submit m)
    then show ?thesis by (auto simp: submit_step_def split: if_splits)
  next
    case worker
    then show ?thesis
    proof cases
      case ordering
      then show ?thesis by (auto simp: ordering_step_def split: list.splits option.splits if_splits)
    next
      case (encoding i)
      then show ?thesis
        by (auto simp: encoding_step_def split: worker.splits list.splits option.splits if_splits
            outcome.splits)
    next
      case udp
      then show ?thesis using st by (simp add: udp_step_def)
    qed
  qed
  then show ?case using step by simp
qed

text \<open>
  The ordering worker forwards a single stop message, whatever the number of encoding threads; so
  with two threads or more the UDP worker never sees the number of them it waits for.
\<close>

definition nones :: "'b option list \<Rightarrow> nat" where
  "nones xs = length (filter (\<lambda>x. x = None) xs)"

definition stop_inv :: "('plan, 'config, 'pkt) send_env \<Rightarrow> 'pkt send_pipe \<Rightarrow> bool" where
  "stop_inv E s \<longleftrightarrow> (udp_state s = Udp_Failed) \<or>
     (udp_state s = Udp_Running \<and> nones (send_q s) = (if ord_done s then 1 else 0)) \<or>
     (udp_state s = Udp_Draining (se_threads E - 1) \<and> ord_done s \<and> nones (send_q s) = 0)"

lemma stop_inv_step:
  assumes "send_trans E s t" and "sp_aux E s" and "stop_inv E s" and "2 \<le> unat (se_threads E)"
  shows "stop_inv E t"
  using assms(1)
proof cases
  case (submit m)
  then show ?thesis using assms(3) by (auto simp: submit_step_def stop_inv_def split: if_splits)
next
  case worker
  then show ?thesis
  proof cases
    case ordering
    then show ?thesis using assms(3)
      by (auto simp: ordering_step_def stop_inv_def nones_def split: list.splits option.splits if_splits)
  next
    case (encoding i)
    then show ?thesis
      using assms(2)
      by (cases rule: encoding_step_cases) (use assms(3) in \<open>auto simp: stop_inv_def nones_def\<close>)
  next
    case udp
    have ck: "sub_ck (se_ovf E) (se_threads E) 1 = (Ok (se_threads E - 1) :: (u8, protocol_error) outcome)"
      using assms(4) by (simp add: sub_ck_fits)
    have "unat (se_threads E - 1) = unat (se_threads E) - 1" using assms(4) by (simp add: unat_sub_fits)
    then have pos: "0 < se_threads E - 1" using assms(4) by (simp add: word_less_nat_alt)
    from udp show ?thesis using assms(3) ck pos
      by (auto simp: udp_step_def stop_inv_def nones_def udp_send_packets_def Let_def
          split: udp_state.splits list.splits option.splits if_splits)
  qed
qed

lemma stop_inv_reachable:
  assumes "send_reachable E s" and "2 \<le> unat (se_threads E)"
  shows "stop_inv E s"
  using assms(1)
proof (induction rule: rtranclp_induct)
  case base
  then show ?case by (simp add: stop_inv_def send_init_def nones_def)
next
  case (step t u)
  then show ?case using stop_inv_step send_reachable_inv assms(2) by blast
qed

text \<open>A start state with some blocks waiting for their number.\<close>

definition send_queued :: "('plan, 'config, 'pkt) send_env \<Rightarrow> Block list \<Rightarrow> 'pkt send_pipe" where
  "send_queued E bs = (send_init E)\<lparr>ord_q := map Some bs\<rparr>"

lemma send_queued_reachable:
  "length bs \<le> chan_cap E \<Longrightarrow> \<forall>b \<in> set bs. submittable E (Some b) \<Longrightarrow> send_reachable E (send_queued E bs)"
proof (induction bs rule: rev_induct)
  case Nil
  then show ?case by (simp add: send_queued_def send_init_def)
next
  case (snoc b bs)
  then have r: "send_reachable E (send_queued E bs)" by simp
  have "submit_step E (Some b) (send_queued E bs) = Some (send_queued E (bs @ [b]))"
    using snoc.prems(1) by (simp add: submit_step_def send_queued_def)
  then have "send_trans E (send_queued E bs) (send_queued E (bs @ [b]))"
    using snoc.prems(2) by (intro send_trans.submit) auto
  with r show ?case by (rule rtranclp.rtrancl_into_rtrancl)
qed

section \<open>Properties\<close>

text \<open>One or two encoding threads over the repetition code.\<close>

definition demo_env :: "u8 \<Rightarrow> (unit, unit, u8 \<times> byte list) send_env" where
  "demo_env n = \<lparr>se_lib = repetition_lib, se_rq = small_rq, se_ovf = True, se_threads = n,
     se_udp_ok = (\<lambda>p. True)\<rparr>"

lemma demo_env_simps [simp]:
  "se_lib (demo_env n) = repetition_lib" "se_rq (demo_env n) = small_rq" "se_threads (demo_env n) = n"
  "se_udp_ok (demo_env n) = (\<lambda>p. True)" "se_ovf (demo_env n) = True"
  by (simp_all add: demo_env_def)

definition demo_block :: Block where
  "demo_block = block_layout 17 Heartbeat 0 []"

lemma demo_block_new: "Block_new Heartbeat small_rq 0 None = Ok demo_block"
  by (simp add: Block_new_None SERIALIZE_OVERHEAD_def demo_block_def)

lemma demo_submittable [simp]: "submittable (demo_env n) (Some demo_block)"
  using demo_block_new by (auto simp: submittable_def)

lemma demo_client_id [simp]: "Block_client_id demo_block = Ok 0"
  by (simp add: demo_block_def)

text \<open>A run of two blocks through one encoding thread.\<close>

lemma demo_reachable:
  "send_reachable (demo_env 1) ((send_init (demo_env 1))\<lparr>ord_q := [Some demo_block]\<rparr>)"
  by (rule pipe_run_reaches [of _ "[Submit (Some demo_block)]"])
    (simp_all add: submit_step_def send_init_def chan_cap_def)

text \<open>
  C6. In every interleaving of the ordering worker, up to 255 encoding threads and the UDP worker,
  the packets leave in the order in which the blocks were numbered: what has been handed to the
  socket is, call by call, the encoding of the first blocks in order, block \<open>k\<close> under the number
  \<open>k mod 256\<close>. The eight-bit turn counter never lets a thread pass out of turn, stop messages included.
\<close>

theorem packets_leave_in_order:
  assumes "send_reachable E s"
  shows "\<exists>n \<le> length (ordered s). udp_out s =
    map (\<lambda>k. RaptorQ_encode (se_lib E) (se_rq E) (of_nat k) (Block_serialized (ordered s ! k))) [0..<n]"
proof -
  from assms have aux: "sp_aux E s" and inv: "hinv 0 (sp_view s)" using send_reachable_inv by blast+
  have "length (handed s) \<le> length (ordered s)" using inv by (auto simp: hinv_def holds_def)
  then have le: "length (udp_out s) \<le> length (ordered s)" by (simp add: handed_def)
  have "take (length (udp_out s)) (handed s) = take (length (udp_out s)) (encode_seq E (ordered s))"
    using aux unfolding sp_aux_def by (metis length_append handed_def min.absorb1 le_add1 take_take)
  then have "udp_out s = take (length (udp_out s)) (encode_seq E (ordered s))"
    by (simp add: handed_def)
  also have "\<dots> = map (\<lambda>k. RaptorQ_encode (se_lib E) (se_rq E) (of_nat k) (Block_serialized (ordered s ! k)))
      [0..<length (udp_out s)]"
    using le by (simp add: encode_seq_def take_map)
  finally show ?thesis using le by blast
qed

theorem packets_leave_in_order_witness:
  "\<exists>s n. send_reachable (demo_env 2) s \<and> length (ordered s) = 2 \<and> length (udp_out s) = 1 \<and>
    udp_out s = map (\<lambda>k. RaptorQ_encode repetition_lib small_rq (of_nat k)
      (Block_serialized (ordered s ! k))) [0..<n]"
proof -
  let ?as = "[Submit (Some demo_block), Submit (Some demo_block), Ordering, Ordering, Encoding 0,
    Encoding 1, Encoding 0, Udp]"
  obtain s where s: "pipe_run (demo_env 2) ?as (send_init (demo_env 2)) = Some s"
    "length (ordered s) = 2" "length (udp_out s) = 1"
    by (simp add: submit_step_def ordering_step_def encoding_step_def udp_step_def send_init_def
        chan_cap_def udp_send_packets_def)
  have "send_reachable (demo_env 2) s" by (rule pipe_run_reaches [OF s(1)]) auto
  from packets_leave_in_order [OF this] this s show ?thesis by auto
qed

text \<open>
  C7. The pipeline cannot deadlock and loses nothing while it is not stopped: from any reachable
  state with at least one encoding thread, no stop requested and a working socket, the workers can
  take only finitely many steps (at most \<open>pending s\<close>), they can reach a state where none of them can
  move, and in every such state everything submitted before has been handed to the socket, encoded,
  in order.
\<close>

theorem submitted_blocks_are_sent:
  assumes "send_reachable E s" and "flowing s" and "0 < unat (se_threads E)"
    and "\<forall>p. se_udp_ok E p"
  shows "(\<forall>n t. (internal E ^^ n) s t \<longrightarrow> n \<le> pending s) \<and>
    (\<exists>t. (internal E)\<^sup>*\<^sup>* s t \<and> \<not> (\<exists>u. internal E t u)) \<and>
    (\<forall>t. (internal E)\<^sup>*\<^sup>* s t \<longrightarrow> \<not> (\<exists>u. internal E t u) \<longrightarrow>
       udp_out t = encode_seq E (ordered s @ somes (ord_q s)))"
proof (intro conjI allI impI)
  fix n t
  assume "(internal E ^^ n) s t"
  from internal_run_effect [OF this assms(1,2,4)] show "n \<le> pending s" by simp
next
  show "\<exists>t. (internal E)\<^sup>*\<^sup>* s t \<and> \<not> (\<exists>u. internal E t u)" by (rule pipeline_rests [OF assms(1,2,4)])
next
  fix t
  assume "(internal E)\<^sup>*\<^sup>* s t" and "\<not> (\<exists>u. internal E t u)"
  then show "udp_out t = encode_seq E (ordered s @ somes (ord_q s))" by (rule rest_all_sent [OF assms])
qed

theorem submitted_blocks_are_sent_witness:
  "\<exists>t. (internal (demo_env 1))\<^sup>*\<^sup>* ((send_init (demo_env 1))\<lparr>ord_q := [Some demo_block]\<rparr>) t \<and>
    udp_out t = [[(0, Block_serialized demo_block)]]"
proof -
  have "flowing ((send_init (demo_env 1))\<lparr>ord_q := [Some demo_block]\<rparr>)"
    by (simp add: flowing_def send_init_def)
  from submitted_blocks_are_sent [OF demo_reachable this]
  obtain t where "(internal (demo_env 1))\<^sup>*\<^sup>* ((send_init (demo_env 1))\<lparr>ord_q := [Some demo_block]\<rparr>) t"
    "udp_out t = encode_seq (demo_env 1) [demo_block]"
    by (auto simp: send_init_def)
  then show ?thesis
    by (auto simp: encode_seq_def RaptorQ_encode_def repetition_lib_def)
qed

text \<open>
  C17. Stopping can lose data: with one encoding thread there is, for every block, a reachable state
  in which the block has been numbered (the ordering worker has it behind it), and after which no
  packet of it will ever be handed to the socket, because the stop message goes to the UDP worker
  directly and overtakes the block in the encoding queue.
\<close>

theorem stop_overtakes_block:
  assumes "se_threads E = 1" and "Block_new bt (se_rq E) cid data = Ok b"
  shows "\<exists>s. send_reachable E s \<and> ordered s = [b] \<and> udp_state s = Udp_Stopped \<and>
    (\<forall>t. (send_trans E)\<^sup>*\<^sup>* s t \<longrightarrow> udp_out t = [])"
proof -
  let ?as = "[Submit (Some b), Ordering, Submit None, Ordering, Udp]"
  have cap: "chan_cap E = 1" using assms(1) by (simp add: chan_cap_def)
  define s where "s = (send_init E)\<lparr>ord_id := 1, ord_done := True, enc_q := [Some (0, b)],
    ordered := [b], udp_state := Udp_Stopped\<rparr>"
  have s: "pipe_run E ?as (send_init E) = Some s" "ordered s = [b]"
    "udp_state s = Udp_Stopped" "udp_out s = []"
    by (simp_all add: s_def submit_step_def ordering_step_def udp_step_def send_init_def sub_ck_def cap assms(1))
  have "submittable E (Some b)" "submittable E None" using assms(2) by (auto simp: submittable_def)
  then have r: "send_reachable E s" by (intro pipe_run_reaches [OF s(1)]) auto
  have "udp_out t = []" if "(send_trans E)\<^sup>*\<^sup>* s t" for t
    using udp_stopped_stable [OF that s(3)] s(4) by simp
  with r s(2,3) show ?thesis by blast
qed

theorem stop_overtakes_block_witness:
  "\<exists>s. send_reachable (demo_env 1) s \<and> ordered s = [demo_block] \<and> udp_state s = Udp_Stopped \<and>
    (\<forall>t. (send_trans (demo_env 1))\<^sup>*\<^sup>* s t \<longrightarrow> udp_out t = [])"
  using stop_overtakes_block [of "demo_env 1" Heartbeat 0 None demo_block] demo_block_new by simp

text \<open>
  C18. The stop message does not reach the encoding threads: in every reachable state no encoding
  thread has returned and none has a stop message waiting, so the scope that joins them never ends;
  and with two or more encoding threads the UDP worker does not return either.
\<close>

theorem encoders_never_stop:
  assumes "send_reachable E s"
  shows "Stopped \<notin> set (encs s) \<and> None \<notin> set (enc_q s) \<and>
    (2 \<le> unat (se_threads E) \<longrightarrow> udp_state s \<noteq> Udp_Stopped)"
proof -
  have aux: "sp_aux E s" using assms send_reachable_inv by blast
  then have "Stopped \<notin> set (encs s)" "None \<notin> set (enc_q s)" unfolding sp_aux_def by auto
  moreover have "udp_state s \<noteq> Udp_Stopped" if "2 \<le> unat (se_threads E)"
    using stop_inv_reachable [OF assms that] by (auto simp: stop_inv_def)
  ultimately show ?thesis by blast
qed

theorem encoders_never_stop_witness:
  "\<exists>s. send_reachable (demo_env 2) s \<and> ord_done s \<and> Stopped \<notin> set (encs s) \<and> None \<notin> set (enc_q s) \<and>
    udp_state s \<noteq> Udp_Stopped"
proof -
  obtain s where s: "pipe_run (demo_env 2) [Submit None, Ordering, Udp] (send_init (demo_env 2)) = Some s"
    "ord_done s"
    by (simp add: submit_step_def ordering_step_def udp_step_def send_init_def chan_cap_def sub_ck_def)
  have "send_reachable (demo_env 2) s"
    by (rule pipe_run_reaches [OF s(1)]) (auto simp: submittable_def)
  from encoders_never_stop [OF this] this s(2) show ?thesis by auto
qed

end
