(* ===== verification/Receive_Config.thy ===== *)
theory Receive_Config
  imports Protocol Stream_IO
begin

text \<open>
  The configuration and the errors of the receiver (\<open>src/receive/mod.rs\<close>), shared by its workers.
  Durations are natural numbers of one unit. The fields that only reach the socket, the log or the
  thread builder (\<open>from\<close>, \<open>cpu_affinity\<close>) are left out.
\<close>

record receive_config =
  from_mtu :: u16
  batch_receive :: "u32 option"
  reset_timeout :: nat
  nb_decode_threads :: u8
  max_clients :: u32
  r_flush :: bool
  abort_timeout :: "nat option"
  heartbeat_interval :: "nat option"
  r_hash :: bool

text \<open>\<open>crossbeam_channel::RecvTimeoutError\<close>, and \<open>receive::Error\<close>.\<close>

datatype recv_timeout_error = RT_Timeout | RT_Disconnected

datatype receive_error =
    R_Io io_error
  | R_Send_Packets
  | R_Send_Block_Packets
  | R_Send_Block
  | R_Send_Clients
  | R_Receive
  | R_Receive_Timeout recv_timeout_error
  | R_Protocol protocol_error
  | R_Other string

definition small_receive_config :: receive_config where
  "small_receive_config = \<lparr>from_mtu = 1500, batch_receive = None, reset_timeout = 2, nb_decode_threads = 1,
     max_clients = 2, r_flush = False, abort_timeout = None, heartbeat_interval = None, r_hash = False\<rparr>"

lemma small_receive_config_simps [simp]:
  "r_flush small_receive_config = False" "abort_timeout small_receive_config = None"
  "heartbeat_interval small_receive_config = None" "r_hash small_receive_config = False"
  by (simp_all add: small_receive_config_def)

end
