(* ===== verification/Reblock.thy ===== *)
theory Reblock
  imports Receive_Config "HOL-Library.Sublist"
begin

text \<open>
  \<open>src/receive/reblock.rs\<close>: the worker that groups the packets of incoming datagrams by block
  number. It keeps 256 packet lists and 256 ignore flags; a window of 127 numbers from the current
  one is open, the other numbers are ignored. The loop body is a function of the state and of what
  \<open>recv_timeout\<close> returned; its outputs are the messages to the decoding workers and the writes of
  the shared counter \<open>block_to_dispatch\<close>.
\<close>

section \<open>State\<close>

definition WINDOW_WIDTH :: u8 where
  "WINDOW_WIDTH = 255 div 2"

datatype datagrams = Single "byte list" | Multiple "byte list list"

datatype 'pkt reassembled = Reassembled_Error | Reassembled_Block u8 "'pkt list"

datatype 'pkt reblock_output = To_Decode "'pkt reassembled" | Set_Block_To_Dispatch u8

datatype reblock_input = Recv_Timeout | Recv_Disconnected | Recv_Datagrams datagrams

record 'pkt reblock =
  blocks_data :: "'pkt list list"
  blocks_ignore :: "bool list"
  cur_id :: u8
  reset :: bool

definition reblock_init :: "'pkt reblock" where
  "reblock_init = \<lparr>blocks_data = replicate (255 + 1) [], blocks_ignore = replicate (255 + 1) True,
     cur_id = 0, reset = True\<rparr>"


section \<open>The loop body\<close>

text \<open>The timeout branch: an \<open>Error\<close> message if some ignored block holds packets.\<close>

definition damaged :: "'pkt reblock \<Rightarrow> bool" where
  "damaged st = list_ex (\<lambda>i. blocks_ignore st ! i \<and> blocks_data st ! i \<noteq> []) [0..<256]"

definition reblock_timeout :: "'pkt reblock \<Rightarrow> 'pkt reblock \<times> 'pkt reblock_output list" where
  "reblock_timeout st =
     (st\<lparr>reset := True\<rparr>, if damaged st then [To_Decode Reassembled_Error] else [])"

text \<open>The loop that opens the window: \<open>k\<close> more numbers from \<open>i\<close> until \<open>stop\<close>.\<close>

function open_window :: "u8 \<Rightarrow> u8 \<Rightarrow> bool list \<Rightarrow> bool list" where
  "open_window i stop ign = (if i = stop then ign else open_window (i + 1) stop (ign[unat i := False]))"
  by pat_completeness auto
termination
proof (relation "measure (\<lambda>(i, stop, ign). unat (stop - i))")
  fix i stop :: u8 and ign :: "bool list"
  assume "i \<noteq> stop"
  then have "0 < unat (stop - i)" by (simp add: unat_gt_0)
  then have "unat (stop - i - 1) = unat (stop - i) - 1" by (simp add: unat_sub_fits)
  then show "((i + 1, stop, ign[unat i := False]), i, stop, ign) \<in> measure (\<lambda>(i, stop, ign). unat (stop - i))"
    using \<open>0 < unat (stop - i)\<close> by (simp add: diff_diff_eq)
qed simp

declare open_window.simps [simp del]

definition first_datagram :: "datagrams \<Rightarrow> (byte list, receive_error) outcome" where
  "first_datagram ds =
     (case ds of Single d \<Rightarrow> Ok d | Multiple [] \<Rightarrow> Panic Index_Out_Of_Bounds | Multiple (d # _) \<Rightarrow> Ok d)"

text \<open>\<open>EncodingPacket::deserialize\<close> panics on a datagram shorter than its header.\<close>

definition deserialize_packet :: "('plan, 'config, 'pkt) raptorq_lib \<Rightarrow> byte list \<Rightarrow>
    ('pkt, receive_error) outcome" where
  "deserialize_packet lib d =
     (case lib_deserialize lib d of None \<Rightarrow> Panic Library_Panic | Some p \<Rightarrow> Ok p)"

text \<open>The reset branch, taken on the first datagrams after the start or a timeout.\<close>

definition reblock_reset :: "('plan, 'config, 'pkt) raptorq_lib \<Rightarrow> datagrams \<Rightarrow> 'pkt reblock \<Rightarrow>
    ('pkt reblock \<times> 'pkt reblock_output list, receive_error) outcome" where
  "reblock_reset lib ds st =
     obind (first_datagram ds) (\<lambda>d.
     obind (deserialize_packet lib d) (\<lambda>packet.
     let cur = lib_source_block_number lib packet in
     Ok (st\<lparr>reset := False,
            blocks_data := map (\<lambda>_. []) (blocks_data st),
            blocks_ignore := open_window cur (cur + WINDOW_WIDTH) (map (\<lambda>_. True) (blocks_ignore st)),
            cur_id := cur\<rparr>, [Set_Block_To_Dispatch cur])))"

text \<open>A datagram is stored under its block number, unless that number is ignored.\<close>

definition push_datagram :: "('plan, 'config, 'pkt) raptorq_lib \<Rightarrow> byte list \<Rightarrow> 'pkt reblock \<Rightarrow>
    ('pkt reblock, receive_error) outcome" where
  "push_datagram lib d st =
     obind (deserialize_packet lib d) (\<lambda>packet.
     let k = unat (lib_source_block_number lib packet) in
     Ok (if blocks_ignore st ! k then st
         else st\<lparr>blocks_data := (blocks_data st)[k := (blocks_data st ! k) @ [packet]]\<rparr>))"

fun push_datagrams :: "('plan, 'config, 'pkt) raptorq_lib \<Rightarrow> byte list list \<Rightarrow> 'pkt reblock \<Rightarrow>
    ('pkt reblock, receive_error) outcome" where
  "push_datagrams lib [] st = Ok st"
| "push_datagrams lib (d # ds) st = obind (push_datagram lib d st) (push_datagrams lib ds)"

fun datagram_list :: "datagrams \<Rightarrow> byte list list" where
  "datagram_list (Single d) = [d]"
| "datagram_list (Multiple ds) = ds"

text \<open>
  The final \<open>while\<close> loop: as long as the current number has enough packets, its block is sent to the
  decoders, its number is closed and the number at the far end of the window is opened. The loop need
  not end (\<open>min_nb_packets = 0\<close>), so its model returns an option.
\<close>

partial_function (option) drain :: "nat \<Rightarrow> 'pkt reblock \<Rightarrow> 'pkt reblock_output list \<Rightarrow>
    ('pkt reblock \<times> 'pkt reblock_output list) option" where
  "drain min_nb st out =
     (if min_nb \<le> length (blocks_data st ! unat (cur_id st)) then
        let packets = blocks_data st ! unat (cur_id st);
            out1 = out @ [To_Decode (Reassembled_Block (cur_id st) packets)];
            opposite = unat (cur_id st + WINDOW_WIDTH);
            st1 = st\<lparr>blocks_data := (blocks_data st)[unat (cur_id st) := []],
                     blocks_ignore := (blocks_ignore st)[unat (cur_id st) := True, opposite := False]\<rparr> in
        if blocks_data st1 ! opposite \<noteq> []
        then Some (st1\<lparr>reset := True\<rparr>, out1 @ [To_Decode Reassembled_Error])
        else drain min_nb (st1\<lparr>cur_id := cur_id st + 1\<rparr>) out1
      else Some (st, out))"

text \<open>
  One iteration of \<open>start\<close>: \<open>None\<close> if it does not end. The writes and messages come in the order of
  the code.
\<close>

definition reblock_recv :: "('plan, 'config, 'pkt) raptorq_lib \<Rightarrow> nat \<Rightarrow> reblock_input \<Rightarrow> 'pkt reblock \<Rightarrow>
    ('pkt reblock \<times> 'pkt reblock_output list, receive_error) outcome option" where
  "reblock_recv lib min_nb inp st =
     (case inp of
        Recv_Timeout \<Rightarrow> Some (Ok (reblock_timeout st))
      | Recv_Disconnected \<Rightarrow> Some (Err (R_Receive_Timeout RT_Disconnected))
      | Recv_Datagrams ds \<Rightarrow>
          (case (if reset st then reblock_reset lib ds st else Ok (st, [])) of
             Err e \<Rightarrow> Some (Err e)
           | Panic p \<Rightarrow> Some (Panic p)
           | Ok (st1, out1) \<Rightarrow>
               (case push_datagrams lib (datagram_list ds) st1 of
                  Err e \<Rightarrow> Some (Err e)
                | Panic p \<Rightarrow> Some (Panic p)
                | Ok st2 \<Rightarrow> map_option Ok (drain min_nb st2 out1))))"

text \<open>The loop over a list of inputs: \<open>None\<close> if an iteration does not end.\<close>

fun reblock_run :: "('plan, 'config, 'pkt) raptorq_lib \<Rightarrow> nat \<Rightarrow> reblock_input list \<Rightarrow> 'pkt reblock \<Rightarrow>
    ('pkt reblock \<times> 'pkt reblock_output list, receive_error) outcome option" where
  "reblock_run lib min_nb [] st = Some (Ok (st, []))"
| "reblock_run lib min_nb (inp # inps) st =
     (case reblock_recv lib min_nb inp st of
        None \<Rightarrow> None
      | Some (Err e) \<Rightarrow> Some (Err e)
      | Some (Panic p) \<Rightarrow> Some (Panic p)
      | Some (Ok (st', out)) \<Rightarrow>
          map_option (\<lambda>r. obind r (\<lambda>(st'', out'). Ok (st'', out @ out')))
            (reblock_run lib min_nb inps st'))"

text \<open>The worker: the two packet counts first, then the loop.\<close>

definition reblock_start :: "('plan, 'config, 'pkt) raptorq_lib \<Rightarrow> bool \<Rightarrow> ('plan, 'config) RaptorQ \<Rightarrow>
    reblock_input list \<Rightarrow> ('pkt reblock \<times> 'pkt reblock_output list, receive_error) outcome option" where
  "reblock_start lib ovf rq inps =
     (case min_nb_packets ovf rq of
        Ok m \<Rightarrow> reblock_run lib (unat m) inps reblock_init
      | Err e \<Rightarrow> Some (Err e)
      | Panic p \<Rightarrow> Some (Panic p))"

section \<open>The window\<close>

definition in_window :: "u8 \<Rightarrow> nat \<Rightarrow> bool" where
  "in_window c k \<longleftrightarrow> unat (of_nat k - c :: u8) < 127"

lemma WINDOW_WIDTH_127: "WINDOW_WIDTH = 127"
  by (simp add: WINDOW_WIDTH_def)

lemma unat_u8_less [simp]: "unat (w :: u8) < 256"
  using unsigned_less [of w] by simp

lemma of_nat_unat_u8 [simp]: "of_nat (unat (w :: u8)) = w"
  by simp

lemma unat_minus_one_u8: "(w :: u8) \<noteq> 0 \<Longrightarrow> unat (w - 1) = unat w - 1"
  by (simp add: unat_sub_fits Suc_leI unat_gt_0)

lemma open_window_nth:
  "length ign = 256 \<Longrightarrow> length (open_window i stop ign) = 256 \<and>
   (\<forall>k < 256. open_window i stop ign ! k \<longleftrightarrow> \<not> unat (of_nat k - i) < unat (stop - i) \<and> ign ! k)"
proof (induction i stop ign rule: open_window.induct)
  case (1 i stop ign)
  show ?case
  proof (cases "i = stop")
    case True
    then show ?thesis using 1 by (simp add: open_window.simps)
  next
    case False
    have st: "unat (stop - (i + 1)) = unat (stop - i) - 1"
      using unat_minus_one_u8 [of "stop - i"] False by (simp add: algebra_simps)
    have pos: "0 < unat (stop - i)" using False by (simp add: unat_gt_0)
    have len: "length (ign[unat i := False]) = 256" using 1 by simp
    have eq: "open_window i stop ign = open_window (i + 1) stop (ign[unat i := False])"
      using False by (subst open_window.simps) simp
    from "1.IH" [OF False len] have IH:
      "length (open_window (i + 1) stop (ign[unat i := False])) = 256"
      "\<And>k. k < 256 \<Longrightarrow> open_window (i + 1) stop (ign[unat i := False]) ! k \<longleftrightarrow>
        \<not> unat (of_nat k - (i + 1)) < unat (stop - (i + 1)) \<and> ign[unat i := False] ! k" by auto
    have "open_window i stop ign ! k \<longleftrightarrow> \<not> unat (of_nat k - i) < unat (stop - i) \<and> ign ! k"
      if k: "k < 256" for k
    proof (cases "of_nat k = i")
      case True
      then have "unat i = k" using k by (auto simp: unat_of_nat_small)
      then show ?thesis using True IH(2) [OF k] k 1(2) pos by (simp add: eq)
    next
      case ne: False
      then have "unat i \<noteq> k" by auto
      moreover have "unat (of_nat k - (i + 1)) = unat (of_nat k - i) - 1"
        using unat_minus_one_u8 [of "of_nat k - i"] ne by (simp add: algebra_simps)
      moreover have "0 < unat (of_nat k - i)" using ne by (simp add: unat_gt_0)
      ultimately show ?thesis using IH(2) [OF k] k pos by (auto simp: eq st)
    qed
    with IH(1) eq show ?thesis by simp
  qed
qed

lemma far_end_neq [simp]: "unat (c + WINDOW_WIDTH) \<noteq> unat c" "unat c \<noteq> unat (c + WINDOW_WIDTH)"
proof -
  have "c + WINDOW_WIDTH \<noteq> c" by (simp add: WINDOW_WIDTH_127)
  then show "unat (c + WINDOW_WIDTH) \<noteq> unat c" by (simp add: word_unat_eq_iff [symmetric])
  then show "unat c \<noteq> unat (c + WINDOW_WIDTH)" by simp
qed

text \<open>Moving the window one number on closes the first number and opens the one at the far end.\<close>

lemma in_window_next:
  assumes "k < 256"
  shows "in_window (c + 1) k \<longleftrightarrow> (in_window c k \<and> k \<noteq> unat c) \<or> k = unat (c + WINDOW_WIDTH)"
proof (cases "of_nat k = c")
  case True
  then have "k = unat c" using assms by (auto simp: unat_of_nat_small)
  moreover have "unat (c - (c + 1)) = 255"
  proof -
    have "unat (- 1 :: u8) = 255" by code_simp
    then show ?thesis by simp
  qed
  ultimately show ?thesis using True by (simp add: in_window_def)
next
  case False
  have s: "unat (of_nat k - (c + 1)) = unat (of_nat k - c) - 1"
    using unat_minus_one_u8 [of "of_nat k - c"] False by (simp add: algebra_simps)
  have "k = unat (c + WINDOW_WIDTH) \<longleftrightarrow> unat (of_nat k - c) = 127"
  proof
    assume "k = unat (c + WINDOW_WIDTH)"
    then show "unat (of_nat k - c) = 127" by (simp add: WINDOW_WIDTH_127)
  next
    assume "unat (of_nat k - c) = 127"
    then have "of_nat k - c = 127" by (metis of_nat_numeral of_nat_unat_u8)
    then have "of_nat k = c + WINDOW_WIDTH" by (simp add: WINDOW_WIDTH_127 algebra_simps)
    then show "k = unat (c + WINDOW_WIDTH)" using assms unat_of_nat_small [of k, where 'l = 8] by simp
  qed
  moreover have "0 < unat (of_nat k - c)" using False by (simp add: unat_gt_0)
  moreover have "k \<noteq> unat c" using False by auto
  ultimately show ?thesis using s by (auto simp: in_window_def)
qed

section \<open>The invariant\<close>

text \<open>
  An ignored number has an empty list; the packets of a list carry its number; and between resets
  exactly the numbers of the window are open.
\<close>

definition rb_inv :: "('plan, 'config, 'pkt) raptorq_lib \<Rightarrow> 'pkt reblock \<Rightarrow> bool" where
  "rb_inv lib st \<longleftrightarrow>
     length (blocks_data st) = 256 \<and> length (blocks_ignore st) = 256 \<and>
     (\<forall>k < 256. blocks_ignore st ! k \<longrightarrow> blocks_data st ! k = []) \<and>
     (\<forall>k < 256. \<forall>p \<in> set (blocks_data st ! k). unat (lib_source_block_number lib p) = k) \<and>
     (\<not> reset st \<longrightarrow> (\<forall>k < 256. blocks_ignore st ! k \<longleftrightarrow> \<not> in_window (cur_id st) k))"

lemma rb_inv_init: "rb_inv lib reblock_init"
  by (simp add: rb_inv_def reblock_init_def)

lemma reblock_init_reset [simp]: "reset reblock_init"
  by (simp add: reblock_init_def)

lemma rb_inv_timeout: "rb_inv lib st \<Longrightarrow> rb_inv lib (st\<lparr>reset := True\<rparr>)"
  by (simp add: rb_inv_def)

text \<open>No ignored number holds packets, so the timeout branch never finds damage.\<close>

lemma not_damaged: "rb_inv lib st \<Longrightarrow> \<not> damaged st"
  by (auto simp: damaged_def rb_inv_def list_ex_iff)

lemma rb_inv_reset:
  assumes "rb_inv lib st" and "reblock_reset lib ds st = Ok (st', out)"
  shows "rb_inv lib st' \<and> \<not> reset st' \<and> (\<forall>k < 256. blocks_data st' ! k = []) \<and>
    out = [Set_Block_To_Dispatch (cur_id st')]"
proof -
  from assms(2) obtain c where st': "st' = st\<lparr>reset := False, blocks_data := map (\<lambda>_. []) (blocks_data st),
      blocks_ignore := open_window c (c + WINDOW_WIDTH) (map (\<lambda>_. True) (blocks_ignore st)), cur_id := c\<rparr>"
    "out = [Set_Block_To_Dispatch c]"
    by (auto simp: reblock_reset_def obind_eq_Ok Let_def)
  have len: "length (blocks_data st) = 256" "length (map (\<lambda>_. True) (blocks_ignore st)) = 256"
    using assms(1) by (simp_all add: rb_inv_def)
  have w: "unat WINDOW_WIDTH = 127" by (simp add: WINDOW_WIDTH_127)
  from open_window_nth [OF len(2), of c "c + WINDOW_WIDTH"] show ?thesis
    using len by (auto simp: st' rb_inv_def in_window_def w)
qed

lemma rb_inv_push:
  assumes "rb_inv lib st" and "push_datagram lib d st = Ok st'"
  shows "rb_inv lib st' \<and> reset st' = reset st \<and> cur_id st' = cur_id st \<and>
    blocks_ignore st' = blocks_ignore st"
proof -
  from assms(2) obtain p where st': "st' = (let k = unat (lib_source_block_number lib p) in
      if blocks_ignore st ! k then st
      else st\<lparr>blocks_data := (blocks_data st)[k := (blocks_data st ! k) @ [p]]\<rparr>)"
    by (auto simp: push_datagram_def obind_eq_Ok Let_def)
  then show ?thesis using assms(1)
    by (auto simp: rb_inv_def Let_def nth_list_update split: if_splits)
qed

lemma rb_inv_pushes:
  "rb_inv lib st \<Longrightarrow> push_datagrams lib ds st = Ok st' \<Longrightarrow>
     rb_inv lib st' \<and> reset st' = reset st \<and> cur_id st' = cur_id st \<and> blocks_ignore st' = blocks_ignore st"
proof (induction ds arbitrary: st)
  case Nil
  then show ?case by simp
next
  case (Cons d ds)
  then obtain s1 where s1: "push_datagram lib d st = Ok s1" "push_datagrams lib ds s1 = Ok st'"
    by (auto simp: obind_eq_Ok)
  from rb_inv_push [OF Cons.prems(1) s1(1)] Cons.IH [OF _ s1(2)] show ?case by simp
qed

section \<open>The draining loop\<close>

text \<open>One round of the loop, when the current number has enough packets.\<close>

definition advance :: "'pkt reblock \<Rightarrow> 'pkt reblock" where
  "advance st = st\<lparr>blocks_data := (blocks_data st)[unat (cur_id st) := []],
     blocks_ignore := (blocks_ignore st)[unat (cur_id st) := True, unat (cur_id st + WINDOW_WIDTH) := False],
     cur_id := cur_id st + 1\<rparr>"

lemma rb_inv_advance:
  assumes "rb_inv lib st" and "\<not> reset st"
  shows "rb_inv lib (advance st)"
proof -
  let ?c = "unat (cur_id st)" and ?f = "unat (cur_id st + WINDOW_WIDTH)"
  have len: "length (blocks_data st) = 256" "length (blocks_ignore st) = 256"
    using assms by (simp_all add: rb_inv_def)
  have d: "blocks_data (advance st) ! k = (if k = ?c then [] else blocks_data st ! k)" if "k < 256" for k
    using len that by (simp add: advance_def nth_list_update)
  have i: "blocks_ignore (advance st) ! k \<longleftrightarrow> k \<noteq> ?f \<and> (k = ?c \<or> blocks_ignore st ! k)" if "k < 256" for k
    using len that by (auto simp: advance_def nth_list_update)
  have w: "blocks_ignore (advance st) ! k \<longleftrightarrow> \<not> in_window (cur_id (advance st)) k" if "k < 256" for k
    using assms that i [OF that] by (auto simp: rb_inv_def advance_def in_window_next [OF that])
  have "length (blocks_data (advance st)) = 256" "length (blocks_ignore (advance st)) = 256"
    "reset (advance st) = reset st"
    by (simp_all add: advance_def len)
  then show ?thesis
    using assms len d i w by (auto simp: rb_inv_def)
qed

text \<open>The number at the far end was closed, hence empty: the loss branch is not taken.\<close>

lemma far_end_empty:
  assumes "rb_inv lib st" and "\<not> reset st"
  shows "(blocks_data st)[unat (cur_id st) := []] ! unat (cur_id st + WINDOW_WIDTH) = []"
proof -
  have "\<not> in_window (cur_id st) (unat (cur_id st + WINDOW_WIDTH))"
    by (simp add: in_window_def WINDOW_WIDTH_127)
  then have "blocks_data st ! unat (cur_id st + WINDOW_WIDTH) = []"
    using assms by (simp add: rb_inv_def)
  then show ?thesis using assms(1) by (simp add: rb_inv_def nth_list_update)
qed

lemma drain_step:
  assumes "rb_inv lib st" and "\<not> reset st"
  shows "drain m st out =
    (if m \<le> length (blocks_data st ! unat (cur_id st))
     then drain m (advance st)
       (out @ [To_Decode (Reassembled_Block (cur_id st) (blocks_data st ! unat (cur_id st)))])
     else Some (st, out))"
  using far_end_empty [OF assms]
  by (subst drain.simps) (simp add: Let_def advance_def)


lemma advance_simps [simp]:
  "cur_id (advance st) = cur_id st + 1" "reset (advance st) = reset st"
  by (simp_all add: advance_def)

lemma advance_data:
  assumes "rb_inv lib st" and "k < 256"
  shows "blocks_data (advance st) ! k = (if k = unat (cur_id st) then [] else blocks_data st ! k)"
  using assms by (simp add: advance_def rb_inv_def nth_list_update)

text \<open>
  Induction over a run of the loop that ends, for states between resets: the far end is empty, so only
  two cases are left.
\<close>

lemma drain_induct:
  assumes "drain m st out = Some r" and "rb_inv lib st" and "\<not> reset st"
    and stop: "\<And>st out. rb_inv lib st \<Longrightarrow> \<not> reset st \<Longrightarrow>
      length (blocks_data st ! unat (cur_id st)) < m \<Longrightarrow> P st out (st, out)"
    and next_block: "\<And>st out r. rb_inv lib st \<Longrightarrow> \<not> reset st \<Longrightarrow>
      m \<le> length (blocks_data st ! unat (cur_id st)) \<Longrightarrow>
      P (advance st) (out @ [To_Decode (Reassembled_Block (cur_id st) (blocks_data st ! unat (cur_id st)))]) r \<Longrightarrow>
      P st out r"
  shows "P st out r"
proof -
  have "n = m \<longrightarrow> rb_inv lib st \<longrightarrow> \<not> reset st \<longrightarrow> P st out r" if "drain n st out = Some r" for n st out r
  proof (rule drain.raw_induct [where P = "\<lambda>n st out r. n = m \<longrightarrow> rb_inv lib st \<longrightarrow> \<not> reset st \<longrightarrow> P st out r", OF _ that])
    fix drain :: "nat \<Rightarrow> 'a reblock \<Rightarrow> 'a reblock_output list \<Rightarrow> ('a reblock \<times> 'a reblock_output list) option"
      and n st out r
    assume IH: "\<And>n st out r. drain n st out = Some r \<Longrightarrow>
        n = m \<longrightarrow> rb_inv lib st \<longrightarrow> \<not> reset st \<longrightarrow> P st out r"
      and body: "(if n \<le> length (blocks_data st ! unat (cur_id st)) then
        let packets = blocks_data st ! unat (cur_id st);
            out1 = out @ [To_Decode (Reassembled_Block (cur_id st) packets)];
            opposite = unat (cur_id st + WINDOW_WIDTH);
            st1 = st\<lparr>blocks_data := (blocks_data st)[unat (cur_id st) := []],
                     blocks_ignore := (blocks_ignore st)[unat (cur_id st) := True, opposite := False]\<rparr> in
        if blocks_data st1 ! opposite \<noteq> []
        then Some (st1\<lparr>reset := True\<rparr>, out1 @ [To_Decode Reassembled_Error])
        else drain n (st1\<lparr>cur_id := cur_id st + 1\<rparr>) out1
      else Some (st, out)) = Some r"
    show "n = m \<longrightarrow> rb_inv lib st \<longrightarrow> \<not> reset st \<longrightarrow> P st out r"
    proof (intro impI)
      assume n: "n = m" and inv: "rb_inv lib st" "\<not> reset st"
      show "P st out r"
      proof (cases "m \<le> length (blocks_data st ! unat (cur_id st))")
        case False
        then show ?thesis using body n stop [OF inv] by auto
      next
        case True
        have "drain n (advance st)
            (out @ [To_Decode (Reassembled_Block (cur_id st) (blocks_data st ! unat (cur_id st)))]) = Some r"
          using body n True far_end_empty [OF inv] by (simp add: Let_def advance_def)
        from IH [OF this] n rb_inv_advance [OF inv] inv
        show ?thesis by (intro next_block [OF inv True]) simp
      qed
    qed
  qed
  then show ?thesis using assms(1-3) by blast
qed

text \<open>With no packet required the loop sends empty blocks for ever.\<close>

lemma drain_zero_never_ends:
  assumes "rb_inv lib st" and "\<not> reset st"
  shows "drain 0 st out = None"
proof (cases "drain 0 st out")
  case (Some r)
  have False using drain_induct [OF Some assms, where P = "\<lambda>_ _ _. False"] by auto
  then show ?thesis ..
qed

definition reports_loss :: "'pkt reblock_output \<Rightarrow> bool" where
  "reports_loss out = (case out of To_Decode Reassembled_Error \<Rightarrow> True | _ \<Rightarrow> False)"

lemma drain_keeps:
  assumes "drain m st out = Some (st', out')" and "rb_inv lib st" and "\<not> reset st"
  shows "rb_inv lib st' \<and> \<not> reset st' \<and> (list_ex reports_loss out' \<longleftrightarrow> list_ex reports_loss out)"
  using drain_induct [OF assms, where P = "\<lambda>st out r. rb_inv lib (fst r) \<and> \<not> reset (fst r) \<and>
      (list_ex reports_loss (snd r) \<longleftrightarrow> list_ex reports_loss out)"]
  by (auto simp: reports_loss_def)
section \<open>Runs\<close>

lemma reblock_recv_keeps:
  assumes "rb_inv lib st" and "reblock_recv lib m inp st = Some (Ok (st', out))"
  shows "rb_inv lib st' \<and> \<not> list_ex reports_loss out"
proof (cases inp)
  case Recv_Timeout
  then show ?thesis using assms not_damaged [OF assms(1)]
    by (auto simp: reblock_recv_def reblock_timeout_def rb_inv_timeout)
next
  case Recv_Disconnected
  then show ?thesis using assms(2) by (simp add: reblock_recv_def)
next
  case (Recv_Datagrams ds)
  from assms(2) Recv_Datagrams obtain s1 o1 s2 where s:
    "(if reset st then reblock_reset lib ds st else Ok (st, [])) = Ok (s1, o1)"
    "push_datagrams lib (datagram_list ds) s1 = Ok s2" "drain m s2 o1 = Some (st', out)"
    by (auto simp: reblock_recv_def split: outcome.splits)
  have "rb_inv lib s1 \<and> \<not> reset s1 \<and> \<not> list_ex reports_loss o1"
    using s(1) assms(1) rb_inv_reset [OF assms(1), of ds s1 o1] by (cases "reset st") (auto simp: reports_loss_def)
  then show ?thesis using rb_inv_pushes [OF _ s(2)] drain_keeps [OF s(3)] by blast
qed

lemma reblock_run_keeps:
  "rb_inv lib st \<Longrightarrow> reblock_run lib m inps st = Some (Ok (st', out)) \<Longrightarrow>
     rb_inv lib st' \<and> \<not> list_ex reports_loss out"
proof (induction inps arbitrary: st out)
  case Nil
  then show ?case by simp
next
  case (Cons inp inps)
  from Cons.prems(2) obtain s1 o1 o2 where s: "reblock_recv lib m inp st = Some (Ok (s1, o1))"
    "reblock_run lib m inps s1 = Some (Ok (st', o2))" "out = o1 @ o2"
    by (auto simp: obind_eq_Ok split: option.splits outcome.splits)
  from reblock_recv_keeps [OF Cons.prems(1) s(1)] Cons.IH [OF _ s(2)] s(3) show ?case by simp
qed

lemma reblock_run_append:
  "reblock_run lib m inps st = Some (Ok (st', out)) \<Longrightarrow>
   reblock_run lib m (inps @ rest) st =
     map_option (\<lambda>r. obind r (\<lambda>(st'', out'). Ok (st'', out @ out'))) (reblock_run lib m rest st')"
proof (induction inps arbitrary: st out)
  case Nil
  show ?case using Nil
    by (cases "reblock_run lib m rest st"; cases "the (reblock_run lib m rest st)") auto
next
  case (Cons inp inps)
  from Cons.prems obtain s1 o1 o2 where s: "reblock_recv lib m inp st = Some (Ok (s1, o1))"
    "reblock_run lib m inps s1 = Some (Ok (st', o2))" "out = o1 @ o2"
    by (auto simp: obind_eq_Ok split: option.splits outcome.splits)
  from Cons.IH [OF s(2)] s(1,3) show ?case
    by (cases "reblock_run lib m rest st'"; cases "the (reblock_run lib m rest st')") auto
qed

text \<open>A reset leaves nothing of the state.\<close>

lemma reset_forgets:
  fixes st :: "'pkt reblock"
  assumes "rb_inv lib st" and "reset st"
  shows "reblock_recv lib m (Recv_Datagrams ds) st = reblock_recv lib m (Recv_Datagrams ds) reblock_init"
proof -
  have b: "map (\<lambda>_. True) (blocks_ignore st) = map (\<lambda>_. True) (blocks_ignore (reblock_init :: 'pkt reblock))"
    "map (\<lambda>_. [] :: 'pkt list) (blocks_data st) = map (\<lambda>_. []) (blocks_data (reblock_init :: 'pkt reblock))"
    using assms(1) by (simp_all add: rb_inv_def reblock_init_def map_replicate_const)
  have u: "s\<lparr>reset := r, blocks_data := d, blocks_ignore := i, cur_id := c\<rparr> =
      \<lparr>blocks_data = d, blocks_ignore = i, cur_id = c, reset = r\<rparr>" for s :: "'pkt reblock" and r d i c
    by (cases s) simp
  have "reblock_reset lib ds st = reblock_reset lib ds reblock_init"
    unfolding reblock_reset_def Let_def u b ..
  then show ?thesis using assms(2) by (simp add: reblock_recv_def)
qed

end
