(* ===== verification/Reblock_Stream.thy ===== *)
theory Reblock_Stream
  imports Reblock
begin

text \<open>
  The reblock worker over a stream of any length. The sender's blocks have the numbers 0, 1, 2, ...
  without end, of which a packet shows only the lowest eight bits. Here each packet that arrives is
  paired with the full number of its block, counted from the first one received, and the worker is
  shown to do with eight bits what it would do with the full numbers, as long as the link does not
  delay a packet by more than the window allows.
\<close>

section \<open>The stream of packets\<close>

text \<open>The packets of block \<open>j\<close>, in the order of arrival.\<close>

definition seq_packets :: "(nat \<times> 'pkt) list \<Rightarrow> nat \<Rightarrow> 'pkt list" where
  "seq_packets aps j = map snd (filter (\<lambda>x. fst x = j) aps)"

text \<open>How many blocks at the head of the stream have enough packets.\<close>

definition stream_head :: "nat \<Rightarrow> (nat \<times> 'pkt) list \<Rightarrow> nat" where
  "stream_head m aps = length (takeWhile (\<lambda>j. m \<le> length (seq_packets aps j)) [0..<length aps])"

text \<open>
  What the link may do: when a packet arrives, its block is less than 127 blocks ahead of the first
  incomplete one, or at most 129 behind it. The list has one element per reception, since the worker
  moves its window only between receptions.
\<close>

fun in_reach :: "nat \<Rightarrow> (nat \<times> 'pkt) list \<Rightarrow> (nat \<times> 'pkt) list list \<Rightarrow> bool" where
  "in_reach m aps [] \<longleftrightarrow> True"
| "in_reach m aps (r # rs) \<longleftrightarrow>
     list_all (\<lambda>(j, p). stream_head m aps \<le> j + 129 \<and> j < stream_head m aps + 127) r \<and> in_reach m (aps @ r) rs"

text \<open>Each packet shows the number of its block modulo 256, \<open>c\<close> being the first block's.\<close>

definition numbered :: "('plan, 'config, 'pkt) raptorq_lib \<Rightarrow> u8 \<Rightarrow> (nat \<times> 'pkt) list \<Rightarrow> bool" where
  "numbered lib c aps \<longleftrightarrow> list_all (\<lambda>(j, p). lib_source_block_number lib p = c + of_nat j) aps"

text \<open>The datagrams of one reception and the packets in them.\<close>

definition reception :: "('plan, 'config, 'pkt) raptorq_lib \<Rightarrow> datagrams \<Rightarrow> (nat \<times> 'pkt) list \<Rightarrow> bool" where
  "reception lib ds r \<longleftrightarrow> map (lib_deserialize lib) (datagram_list ds) = map (Some \<circ> snd) r"

lemma seq_packets_append [simp]: "seq_packets (aps @ bps) j = seq_packets aps j @ seq_packets bps j"
  by (simp add: seq_packets_def)

lemma seq_packets_Nil [simp]: "seq_packets [] j = []"
  by (simp add: seq_packets_def)

lemma seq_packets_single [simp]: "seq_packets [(i, p)] j = (if i = j then [p] else [])"
  by (simp add: seq_packets_def)

lemma seq_packets_empty: "\<forall>x \<in> set aps. fst x \<noteq> j \<Longrightarrow> seq_packets aps j = []"
  by (auto simp: seq_packets_def filter_empty_conv)

lemma takeWhile_upt_eq:
  "n \<le> N \<Longrightarrow> \<forall>j < n. P j \<Longrightarrow> n = N \<or> \<not> P n \<Longrightarrow> length (takeWhile P [0..<N]) = n"
proof -
  assume a: "n \<le> N" "\<forall>j < n. P j" "n = N \<or> \<not> P n"
  have "takeWhile P ([0..<n] @ [n..<N]) = [0..<n] @ takeWhile P [n..<N]"
    using a(2) by (intro takeWhile_append2) auto
  moreover have "takeWhile P [n..<N] = []" using a(1,3) by (cases "n < N") (auto simp: upt_conv_Cons)
  moreover have "[0..<n] @ [n..<N] = [0..<N]" using a(1) by (metis le_iff_add upt_add_eq_append zero_le)
  ultimately show ?thesis by simp
qed

lemma complete_le_length:
  assumes "\<forall>j < n. seq_packets aps j \<noteq> []"
  shows "n \<le> length aps"
proof -
  have "{..<n} \<subseteq> fst ` set aps"
    using assms by (fastforce simp: seq_packets_def filter_empty_conv)
  then have "n \<le> card (fst ` set aps)" using card_mono [of "fst ` set aps" "{..<n}"] by simp
  also have "\<dots> \<le> length aps" by (metis card_image_le card_length finite_set le_trans)
  finally show ?thesis .
qed

lemma stream_head_eq:
  assumes "0 < m" and "\<forall>j < n. m \<le> length (seq_packets aps j)" and "length (seq_packets aps n) < m"
  shows "stream_head m aps = n"
proof -
  have "\<forall>j < n. seq_packets aps j \<noteq> []" using assms(1,2) by fastforce
  from complete_le_length [OF this] show ?thesis
    unfolding stream_head_def using assms by (intro takeWhile_upt_eq) auto
qed

section \<open>What the state holds\<close>

text \<open>
  \<open>n\<close> blocks have been sent on; the packets of the next 127 are in the slots of their numbers, and there
  is nothing of later blocks.
\<close>

definition gathered :: "('plan, 'config, 'pkt) raptorq_lib \<Rightarrow> nat \<Rightarrow> u8 \<Rightarrow> (nat \<times> 'pkt) list \<Rightarrow> nat \<Rightarrow>
    'pkt reblock \<Rightarrow> bool" where
  "gathered lib m c aps n st \<longleftrightarrow>
     rb_inv lib st \<and> \<not> reset st \<and> cur_id st = c + of_nat n \<and>
     (\<forall>x \<in> set aps. fst x < n + 127) \<and>
     (\<forall>j. n \<le> j \<longrightarrow> j < n + 127 \<longrightarrow> blocks_data st ! unat (c + of_nat j) = seq_packets aps j) \<and>
     (\<forall>j < n. m \<le> length (seq_packets aps j))"

lemma gathered_head: "gathered lib m c aps n st \<Longrightarrow> 0 < m \<Longrightarrow> length (seq_packets aps n) < m \<Longrightarrow> stream_head m aps = n"
  by (rule stream_head_eq) (auto simp: gathered_def)

text \<open>A number is open exactly for the blocks of the window, if the packet is not too late or too early.\<close>

lemma in_window_stream:
  assumes "n \<le> j + 129" and "j < n + 127"
  shows "in_window (c + of_nat n) (unat (c + of_nat j :: u8)) \<longleftrightarrow> n \<le> j"
proof (cases "n \<le> j")
  case True
  then have "c + of_nat j - (c + of_nat n) = (of_nat (j - n) :: u8)" by (simp add: of_nat_diff)
  then have "of_nat (unat (c + of_nat j :: u8)) - (c + of_nat n) = (of_nat (j - n) :: u8)" by simp
  then have "unat (of_nat (unat (c + of_nat j :: u8)) - (c + of_nat n) :: u8) = j - n"
    using assms(2) True by (simp only:) (rule unat_of_nat_small, simp)
  then show ?thesis using True assms(2) by (simp add: in_window_def)
next
  case False
  have "c + of_nat j - (c + of_nat n) = (of_nat j - of_nat n :: u8)" by simp
  also have "\<dots> = of_nat (256 + j) - of_nat n" by simp
  also have "\<dots> = of_nat (256 + j - n)" using assms(1) by (subst of_nat_diff) simp_all
  finally have "of_nat (unat (c + of_nat j :: u8)) - (c + of_nat n) = (of_nat (256 + j - n) :: u8)" by simp
  then have "unat (of_nat (unat (c + of_nat j :: u8)) - (c + of_nat n) :: u8) = 256 + j - n"
    using False by (simp only:) (rule unat_of_nat_small, simp)
  then show ?thesis using False assms(1) by (simp add: in_window_def)
qed

lemma u8_index_eq: "i < 256 \<Longrightarrow> j < 256 \<Longrightarrow> c + of_nat i = (c + of_nat j :: u8) \<longleftrightarrow> i = j"
  by (auto dest: of_nat_word_inj_near)

text \<open>Different blocks of a window have different slots.\<close>

lemma stream_slots:
  assumes "n \<le> i" and "i < n + 256" and "n \<le> j" and "j < n + 256"
  shows "unat (c + of_nat i :: u8) = unat (c + of_nat j :: u8) \<longleftrightarrow> i = j"
proof -
  have "c + of_nat i = (c + of_nat n) + of_nat (i - n)" "c + of_nat j = (c + of_nat n) + (of_nat (j - n) :: u8)"
    using assms by (simp_all add: of_nat_diff)
  then show ?thesis
    using assms u8_index_eq [of "i - n" "j - n" "c + of_nat n"]
    by (auto simp: word_unat_eq_iff [symmetric] simp del: of_nat_diff)
qed

lemma gathered_push:
  assumes "gathered lib m c aps n st" and "lib_deserialize lib d = Some p"
    and "lib_source_block_number lib p = c + of_nat i" and "n \<le> i + 129" and "i < n + 127"
  shows "\<exists>st'. push_datagram lib d st = Ok st' \<and> gathered lib m c (aps @ [(i, p)]) n st'"
proof -
  let ?k = "unat (c + of_nat i :: u8)"
  have inv: "rb_inv lib st" "\<not> reset st" "cur_id st = c + of_nat n" using assms(1) by (simp_all add: gathered_def)
  have len: "length (blocks_data st) = 256" using inv by (simp add: rb_inv_def)
  have ign: "blocks_ignore st ! ?k \<longleftrightarrow> \<not> n \<le> i"
    using inv in_window_stream [OF assms(4,5), of c] by (simp add: rb_inv_def)
  obtain st' where st': "push_datagram lib d st = Ok st'"
    and e: "st' = (if n \<le> i then st\<lparr>blocks_data := (blocks_data st)[?k := (blocks_data st ! ?k) @ [p]]\<rparr> else st)"
    using assms(2,3) ign by (simp add: push_datagram_def deserialize_packet_def Let_def)
  have data: "blocks_data st' ! unat (c + of_nat j) = seq_packets (aps @ [(i, p)]) j" if j: "n \<le> j" "j < n + 127" for j
  proof -
    have old: "blocks_data st ! unat (c + of_nat j) = seq_packets aps j" using assms(1) j by (simp add: gathered_def)
    show ?thesis
    proof (cases "n \<le> i")
      case True
      have "?k = unat (c + of_nat j) \<longleftrightarrow> i = j" using True assms(5) j by (intro stream_slots [of n]) simp_all
      then show ?thesis using old len True by (auto simp: e nth_list_update)
    next
      case False
      then show ?thesis using old j by (simp add: e)
    qed
  qed
  have "gathered lib m c (aps @ [(i, p)]) n st'"
    using assms(1,5) rb_inv_push [OF inv(1) st'] data by (auto simp: gathered_def trans_le_add1)
  then show ?thesis using st' by blast
qed

lemma gathered_pushes:
  "gathered lib m c aps n st \<Longrightarrow> map (lib_deserialize lib) ds = map (Some \<circ> snd) r \<Longrightarrow> numbered lib c r \<Longrightarrow>
   list_all (\<lambda>(j, p). n \<le> j + 129 \<and> j < n + 127) r \<Longrightarrow>
     \<exists>st'. push_datagrams lib ds st = Ok st' \<and> gathered lib m c (aps @ r) n st'"
proof (induction ds arbitrary: aps r st)
  case Nil
  then show ?case by simp
next
  case (Cons d ds)
  then obtain i p r' where r: "r = (i, p) # r'" "lib_deserialize lib d = Some p"
    "map (lib_deserialize lib) ds = map (Some \<circ> snd) r'" by (cases r) auto
  have num: "lib_source_block_number lib p = c + of_nat i" "numbered lib c r'" and bnd: "n \<le> i + 129" "i < n + 127"
    "list_all (\<lambda>(j, p). n \<le> j + 129 \<and> j < n + 127) r'"
    using Cons.prems(3,4) r(1) by (simp_all add: numbered_def)
  from gathered_push [OF Cons.prems(1) r(2) num(1) bnd(1,2)]
  obtain s1 where s1: "push_datagram lib d st = Ok s1" "gathered lib m c (aps @ [(i, p)]) n s1" by blast
  from Cons.IH [OF s1(2) r(3) num(2) bnd(3)] s1(1) show ?case by (auto simp: r(1))
qed

section \<open>Sending blocks on\<close>

lemma gathered_advance:
  assumes "gathered lib m c aps n st" and "m \<le> length (blocks_data st ! unat (cur_id st))"
  shows "gathered lib m c aps (Suc n) (advance st)" and "blocks_data st ! unat (cur_id st) = seq_packets aps n"
proof -
  have inv: "rb_inv lib st" "\<not> reset st" "cur_id st = c + of_nat n" using assms(1) by (simp_all add: gathered_def)
  show head: "blocks_data st ! unat (cur_id st) = seq_packets aps n" using assms(1) inv(3) by (simp add: gathered_def)
  have data: "blocks_data (advance st) ! unat (c + of_nat j) = seq_packets aps j" if j: "Suc n \<le> j" "j < Suc n + 127" for j
  proof -
    have "unat (c + of_nat j) \<noteq> unat (cur_id st)"
      using j stream_slots [of n j n c] by (simp add: inv(3))
    then have a: "blocks_data (advance st) ! unat (c + of_nat j) = blocks_data st ! unat (c + of_nat j)"
      using advance_data [OF inv(1)] by simp
    show ?thesis
    proof (cases "j < n + 127")
      case True
      then show ?thesis using a assms(1) j(1) by (simp add: gathered_def)
    next
      case False
      then have "j = n + 127" using j(2) by simp
      then have e: "c + of_nat j = cur_id st + WINDOW_WIDTH" by (simp add: inv(3) WINDOW_WIDTH_127)
      have "blocks_data st ! unat (cur_id st + WINDOW_WIDTH) = []"
        using far_end_empty [OF inv(1,2)] inv(1) by (simp add: rb_inv_def)
      moreover have "seq_packets aps j = []"
        using assms(1) \<open>j = n + 127\<close> by (intro seq_packets_empty) (auto simp: gathered_def)
      ultimately show ?thesis using a unfolding e by simp
    qed
  qed
  have "m \<le> length (seq_packets aps j)" if "j < Suc n" for j
    using assms that head by (auto simp: gathered_def less_Suc_eq)
  then show "gathered lib m c aps (Suc n) (advance st)"
    using assms(1) rb_inv_advance [OF inv(1,2)] inv data by (auto simp: gathered_def)
qed

text \<open>The message for block \<open>j\<close>.\<close>

definition seq_message :: "u8 \<Rightarrow> (nat \<times> 'pkt) list \<Rightarrow> nat \<Rightarrow> 'pkt reblock_output" where
  "seq_message c aps j = To_Decode (Reassembled_Block (c + of_nat j) (seq_packets aps j))"

lemma gathered_drain:
  assumes "gathered lib m c aps n st" and "0 < m"
  shows "\<exists>n' st'. n \<le> n' \<and> drain m st out = Some (st', out @ map (seq_message c aps) [n..<n']) \<and>
    gathered lib m c aps n' st' \<and> length (seq_packets aps n') < m"
  using assms
proof (induction "length aps - n" arbitrary: n st out rule: less_induct)
  case less
  have inv: "rb_inv lib st" "\<not> reset st" "cur_id st = c + of_nat n"
    and data: "blocks_data st ! unat (cur_id st) = seq_packets aps n"
    using less.prems(1) by (simp_all add: gathered_def)
  show ?case
  proof (cases "m \<le> length (seq_packets aps n)")
    case False
    then have "drain m st out = Some (st, out @ map (seq_message c aps) [n..<n])"
      using drain_step [OF inv(1,2), of m out] data by simp
    then show ?thesis using False less.prems(1) by (metis le_refl linorder_not_le)
  next
    case True
    then have adv: "gathered lib m c aps (Suc n) (advance st)"
      using gathered_advance(1) [OF less.prems(1)] data by simp
    have "\<forall>j < Suc n. seq_packets aps j \<noteq> []" using adv less.prems(2) by (fastforce simp: gathered_def)
    then have "Suc n \<le> length aps" by (rule complete_le_length)
    then have "length aps - Suc n < length aps - n" by linarith
    from less.hyps [OF this adv less.prems(2), of "out @ [seq_message c aps n]"]
    obtain n' st' where r: "Suc n \<le> n'" "drain m (advance st) (out @ [seq_message c aps n]) =
        Some (st', (out @ [seq_message c aps n]) @ map (seq_message c aps) [Suc n..<n'])"
      "gathered lib m c aps n' st'" "length (seq_packets aps n') < m" by blast
    have "drain m st out = Some (st', out @ map (seq_message c aps) [n..<n'])"
      using drain_step [OF inv(1,2), of m out] True r(1,2) data inv(3)
      by (simp add: seq_message_def upt_conv_Cons)
    then show ?thesis using r by (meson Suc_leD)
  qed
qed

text \<open>A message carries block \<open>j\<close>, with enough of its packets, the first ones to arrive.\<close>

definition seq_part :: "nat \<Rightarrow> (nat \<times> 'pkt) list \<Rightarrow> u8 \<Rightarrow> nat \<Rightarrow> 'pkt reblock_output \<Rightarrow> bool" where
  "seq_part m aps c j out \<longleftrightarrow>
     (\<exists>qs. out = To_Decode (Reassembled_Block (c + of_nat j) qs) \<and> m \<le> length qs \<and> prefix qs (seq_packets aps j))"

lemma seq_part_message: "m \<le> length (seq_packets aps j) \<Longrightarrow> seq_part m (aps @ bps) c j (seq_message c aps j)"
  by (auto simp: seq_part_def seq_message_def)

lemma gathered_messages:
  "gathered lib m c aps n st \<Longrightarrow> n0 \<le> n \<Longrightarrow>
   list_all2 (seq_part m (aps @ bps) c) [n0..<n] (map (seq_message c aps) [n0..<n])"
  by (auto simp: gathered_def list_all2_conv_all_nth intro!: seq_part_message simp del: of_nat_add)

text \<open>One reception, after the reset branch.\<close>

lemma gathered_recv:
  assumes "gathered lib m c aps n st" and "0 < m" and "numbered lib c r"
    and "reception lib ds r"
    and "list_all (\<lambda>(j, p). n \<le> j + 129 \<and> j < n + 127) r"
  shows "\<exists>n' s1 st'. n \<le> n' \<and> push_datagrams lib (datagram_list ds) st = Ok s1 \<and>
    drain m s1 out = Some (st', out @ map (seq_message c (aps @ r)) [n..<n']) \<and>
    gathered lib m c (aps @ r) n' st' \<and> length (seq_packets (aps @ r) n') < m"
  using gathered_pushes [OF assms(1) assms(4) [unfolded reception_def] assms(3,5)] gathered_drain [OF _ assms(2)] by blast

lemma gathered_run:
  "gathered lib m c aps n st \<Longrightarrow> 0 < m \<Longrightarrow> length (seq_packets aps n) < m \<Longrightarrow>
   list_all2 (reception lib) dss rs \<Longrightarrow>
   numbered lib c (concat rs) \<Longrightarrow> in_reach m aps rs \<Longrightarrow>
   \<exists>n' st' out. n \<le> n' \<and> reblock_run lib m (map Recv_Datagrams dss) st = Some (Ok (st', out)) \<and>
     list_all2 (seq_part m (aps @ concat rs) c) [n..<n'] out \<and>
     gathered lib m c (aps @ concat rs) n' st' \<and> length (seq_packets (aps @ concat rs) n') < m"
proof (induction dss arbitrary: n aps rs st)
  case Nil
  then have "reblock_run lib m (map Recv_Datagrams []) st = Some (Ok (st, []))" "rs = []" by simp_all
  with Nil show ?case by (auto intro!: exI [of _ n])
next
  case (Cons ds dss)
  from Cons.prems(4) obtain r rs' where rs: "rs = r # rs'"
    "reception lib ds r"
    "list_all2 (reception lib) dss rs'"
    by (auto simp: list_all2_Cons1)
  have hd: "stream_head m aps = n" using gathered_head Cons.prems(1-3) by blast
  have num: "numbered lib c r" "numbered lib c (concat rs')" using Cons.prems(5) rs(1) by (simp_all add: numbered_def)
  have reach: "list_all (\<lambda>(j, p). n \<le> j + 129 \<and> j < n + 127) r" "in_reach m (aps @ r) rs'"
    using Cons.prems(6) rs(1) hd by simp_all
  from gathered_recv [OF Cons.prems(1,2) num(1) rs(2) reach(1), of "[]"]
  obtain n1 s1 s2 where s: "n \<le> n1" "push_datagrams lib (datagram_list ds) st = Ok s1"
    "drain m s1 [] = Some (s2, map (seq_message c (aps @ r)) [n..<n1])"
    "gathered lib m c (aps @ r) n1 s2" "length (seq_packets (aps @ r) n1) < m" by auto
  have "\<not> reset st" using Cons.prems(1) by (simp add: gathered_def)
  then have recv: "reblock_recv lib m (Recv_Datagrams ds) st = Some (Ok (s2, map (seq_message c (aps @ r)) [n..<n1]))"
    using s(2,3) by (simp add: reblock_recv_def)
  from Cons.IH [OF s(4) Cons.prems(2) s(5) rs(3) num(2) reach(2)]
  obtain n2 s3 out where t: "n1 \<le> n2" "reblock_run lib m (map Recv_Datagrams dss) s2 = Some (Ok (s3, out))"
    "list_all2 (seq_part m ((aps @ r) @ concat rs') c) [n1..<n2] out"
    "gathered lib m c ((aps @ r) @ concat rs') n2 s3" "length (seq_packets ((aps @ r) @ concat rs') n2) < m" by blast
  have "[n..<n2] = [n..<n1] @ [n1..<n2]" using s(1) t(1) by (metis le_iff_add upt_add_eq_append)
  then have "list_all2 (seq_part m (aps @ concat rs) c) [n..<n2] (map (seq_message c (aps @ r)) [n..<n1] @ out)"
    using gathered_messages [OF s(4,1), of "concat rs'"] t(3) by (simp add: rs(1) list_all2_appendI)
  moreover have "reblock_run lib m (map Recv_Datagrams (ds # dss)) st =
      Some (Ok (s3, map (seq_message c (aps @ r)) [n..<n1] @ out))"
    using recv t(2) by simp
  ultimately show ?case using t(1,4,5) s(1) by (auto simp: rs(1) intro!: exI [of _ n2])
qed

lemma gathered_reset:
  assumes "rb_inv lib st" and "reset st" and "datagram_list ds = d # rest" and "lib_deserialize lib d = Some p"
  shows "\<exists>st'. reblock_reset lib ds st = Ok (st', [Set_Block_To_Dispatch (lib_source_block_number lib p)]) \<and>
    gathered lib m (lib_source_block_number lib p) [] 0 st'"
proof -
  have "first_datagram ds = Ok d"
    using assms(3) by (cases ds rule: datagram_list.cases) (auto simp: first_datagram_def)
  then obtain st' where st': "reblock_reset lib ds st = Ok (st', [Set_Block_To_Dispatch (lib_source_block_number lib p)])"
    "cur_id st' = lib_source_block_number lib p"
    using assms(4) by (simp add: reblock_reset_def deserialize_packet_def Let_def)
  with rb_inv_reset [OF assms(1) st'(1)] show ?thesis by (auto simp: gathered_def)
qed

lemma stream_run:
  assumes "rb_inv lib st" and "reset st" and "0 < m" and "rs \<noteq> []" and "hd rs \<noteq> []" and "fst (hd (hd rs)) = 0"
    and pk: "list_all2 (reception lib) dss rs"
    and num: "numbered lib c (concat rs)" and reach: "in_reach m [] rs"
  shows "\<exists>st' out. reblock_run lib m (map Recv_Datagrams dss) st = Some (Ok (st', Set_Block_To_Dispatch c # out)) \<and>
    list_all2 (seq_part m (concat rs) c) [0..<stream_head m (concat rs)] out \<and>
    gathered lib m c (concat rs) (stream_head m (concat rs)) st' \<and>
    length (seq_packets (concat rs) (stream_head m (concat rs))) < m"
proof -
  obtain p r' rs' where rs: "rs = ((0, p) # r') # rs'" using assms(4-6) by (cases rs; cases "hd rs") auto
  with pk obtain ds dss' where dss: "dss = ds # dss'"
    "reception lib ds ((0, p) # r')"
    "list_all2 (reception lib) dss' rs'"
    by (auto simp: list_all2_Cons2)
  let ?r = "(0, p) # r'"
  from dss(2) obtain d rest where d: "datagram_list ds = d # rest" "lib_deserialize lib d = Some p"
    by (auto simp: reception_def)
  have c: "lib_source_block_number lib p = c" and numr: "numbered lib c ?r" "numbered lib c (concat rs')"
    using num by (simp_all add: rs numbered_def)
  have h0: "stream_head m ([] :: (nat \<times> 'c) list) = 0" by (simp add: stream_head_def)
  have reachr: "list_all (\<lambda>(j, p). 0 \<le> j + 129 \<and> j < 0 + 127) ?r" "in_reach m ([] @ ?r) rs'"
    using reach unfolding rs in_reach.simps h0 by blast+
  from gathered_reset [OF assms(1,2) d] obtain s0 where
    s0: "reblock_reset lib ds st = Ok (s0, [Set_Block_To_Dispatch c])" "gathered lib m c [] 0 s0" by (auto simp: c)
  from gathered_recv [OF s0(2) assms(3) numr(1) dss(2) reachr(1), of "[Set_Block_To_Dispatch c]"]
  obtain n1 s1 s2 where s: "push_datagrams lib (datagram_list ds) s0 = Ok s1"
    "drain m s1 [Set_Block_To_Dispatch c] = Some (s2, [Set_Block_To_Dispatch c] @ map (seq_message c ([] @ ?r)) [0..<n1])"
    "gathered lib m c ([] @ ?r) n1 s2" "length (seq_packets ([] @ ?r) n1) < m" by blast
  from gathered_run [OF s(3) assms(3) s(4) dss(3) numr(2) reachr(2)]
  obtain n2 s3 out where t: "n1 \<le> n2" "reblock_run lib m (map Recv_Datagrams dss') s2 = Some (Ok (s3, out))"
    "list_all2 (seq_part m (([] @ ?r) @ concat rs') c) [n1..<n2] out"
    "gathered lib m c (([] @ ?r) @ concat rs') n2 s3" "length (seq_packets (([] @ ?r) @ concat rs') n2) < m" by blast
  have cat: "([] @ ?r) @ concat rs' = concat rs" by (simp add: rs)
  have n2: "stream_head m (concat rs) = n2" using gathered_head [OF t(4) assms(3) t(5)] unfolding cat .
  have run: "reblock_run lib m (map Recv_Datagrams dss) st =
      Some (Ok (s3, Set_Block_To_Dispatch c # (map (seq_message c ([] @ ?r)) [0..<n1] @ out)))"
    using dss(1) assms(2) s0(1) s(1,2) t(2) by (simp add: reblock_recv_def)
  have "[0..<n2] = [0..<n1] @ [n1..<n2]" using t(1) by (metis le_iff_add upt_add_eq_append zero_le)
  then have "list_all2 (seq_part m (concat rs) c) [0..<n2] (map (seq_message c ([] @ ?r)) [0..<n1] @ out)"
    using gathered_messages [OF s(3), of 0 "concat rs'"] t(3) unfolding cat by (simp add: list_all2_appendI)
  with run t(4,5) show ?thesis unfolding n2 cat by blast
qed

section \<open>One window\<close>

text \<open>
  The special case of a run whose packets all lie in the window of the first one: there the full
  numbers can be read off the packets.
\<close>

definition block_packets :: "('plan, 'config, 'pkt) raptorq_lib \<Rightarrow> 'pkt list \<Rightarrow> u8 \<Rightarrow> 'pkt list" where
  "block_packets lib ps k = filter (\<lambda>p. lib_source_block_number lib p = k) ps"

definition block_part :: "('plan, 'config, 'pkt) raptorq_lib \<Rightarrow> nat \<Rightarrow> 'pkt list \<Rightarrow> u8 \<Rightarrow> nat \<Rightarrow>
    'pkt reblock_output \<Rightarrow> bool" where
  "block_part lib m ps c j out \<longleftrightarrow>
     (\<exists>qs. out = To_Decode (Reassembled_Block (c + of_nat j) qs) \<and> m \<le> length qs \<and>
       prefix qs (block_packets lib ps (c + of_nat j)))"

text \<open>The number of complete blocks at the head of the window.\<close>

definition complete_blocks :: "('plan, 'config, 'pkt) raptorq_lib \<Rightarrow> nat \<Rightarrow> 'pkt list \<Rightarrow> u8 \<Rightarrow> nat" where
  "complete_blocks lib m ps c =
     length (takeWhile (\<lambda>j. m \<le> length (block_packets lib ps (c + of_nat j))) [0..<127])"

text \<open>The full number of a packet, and the receptions with them.\<close>

definition window_index :: "('plan, 'config, 'pkt) raptorq_lib \<Rightarrow> u8 \<Rightarrow> 'pkt \<Rightarrow> nat \<times> 'pkt" where
  "window_index lib c p = (unat (lib_source_block_number lib p - c), p)"

definition window_receptions :: "('plan, 'config, 'pkt) raptorq_lib \<Rightarrow> u8 \<Rightarrow> datagrams list \<Rightarrow> (nat \<times> 'pkt) list list" where
  "window_receptions lib c dss = map (\<lambda>ds. map (window_index lib c \<circ> the \<circ> lib_deserialize lib) (datagram_list ds)) dss"

lemma seq_window:
  assumes "j < 127"
  shows "seq_packets (map (window_index lib c) ps) j = block_packets lib ps (c + of_nat j)"
proof -
  have "unat (k - c) = j \<longleftrightarrow> k = c + of_nat j" for k :: u8
  proof
    assume "unat (k - c) = j"
    then have "k - c = of_nat j" by auto
    then show "k = c + of_nat j" by (simp add: algebra_simps)
  qed (use assms in \<open>simp add: unat_of_nat_small\<close>)
  then show ?thesis by (simp add: seq_packets_def block_packets_def window_index_def filter_map comp_def)
qed

lemma window_in_reach:
  "0 < m \<Longrightarrow> \<forall>x \<in> set (aps @ concat rs). fst x < 127 \<Longrightarrow> in_reach m aps rs"
proof (induction rs arbitrary: aps)
  case Nil
  then show ?case by simp
next
  case (Cons r rs)
  have "stream_head m aps \<le> 127"
  proof (rule ccontr)
    assume "\<not> stream_head m aps \<le> 127"
    then have "127 < length (takeWhile (\<lambda>j. m \<le> length (seq_packets aps j)) [0..<length aps])"
      by (simp add: stream_head_def)
    then have "m \<le> length (seq_packets aps 127)"
      using nth_mem set_takeWhileD takeWhile_nth [of 127 _ "[0..<length aps]"]
      by (metis (no_types, lifting) add_0 length_takeWhile_le less_le_trans length_upt minus_nat.diff_0 nth_upt)
    moreover have "\<forall>x \<in> set aps. fst x < 127" using Cons.prems(2) by simp
    then have "seq_packets aps 127 = []" by (intro seq_packets_empty) fastforce
    ultimately show False using Cons.prems(1) by simp
  qed
  then have "list_all (\<lambda>(j, p). stream_head m aps \<le> j + 129 \<and> j < stream_head m aps + 127) r"
    unfolding list_all_iff
  proof (intro ballI)
    fix x
    assume "x \<in> set r"
    then have "fst x < 127" using Cons.prems(2) by simp
    then show "case x of (j, p) \<Rightarrow> stream_head m aps \<le> j + 129 \<and> j < stream_head m aps + 127"
      using \<open>stream_head m aps \<le> 127\<close> by (cases x) simp
  qed
  moreover have "in_reach m (aps @ r) rs" using Cons.prems by (intro Cons.IH) auto
  ultimately show ?case by simp
qed

lemma window_run:
  assumes "0 < m" and "dss \<noteq> []" and "datagram_list (hd dss) \<noteq> []"
    and pk: "map (lib_deserialize lib) (concat (map datagram_list dss)) = map Some ps"
    and c: "c = lib_source_block_number lib (hd ps)"
    and win: "\<forall>p \<in> set ps. unat (lib_source_block_number lib p - c) < 127"
  shows "\<exists>st out. reblock_run lib m (map Recv_Datagrams dss) reblock_init = Some (Ok (st, Set_Block_To_Dispatch c # out)) \<and>
    list_all2 (block_part lib m ps c) [0..<complete_blocks lib m ps c] out"
proof -
  let ?rs = "window_receptions lib c dss"
  have some: "\<forall>d \<in> set (concat (map datagram_list dss)). \<exists>p. lib_deserialize lib d = Some p"
  proof
    fix d
    assume "d \<in> set (concat (map datagram_list dss))"
    then have "lib_deserialize lib d \<in> set (map Some ps)" unfolding pk [symmetric] by simp
    then show "\<exists>p. lib_deserialize lib d = Some p" by auto
  qed
  have ps: "ps = map (the \<circ> lib_deserialize lib) (concat (map datagram_list dss))"
    using arg_cong [OF pk, of "map the"] by (simp add: comp_def)
  have cat: "concat ?rs = map (window_index lib c) ps"
    unfolding window_receptions_def ps by (simp add: map_concat comp_def)
  have rec: "list_all2 (reception lib) dss ?rs"
    using some by (force simp: window_receptions_def reception_def window_index_def list_all2_map2 list_all2_same)
  have ne: "?rs \<noteq> []" "hd ?rs \<noteq> []"
    using assms(2,3) by (cases dss; simp add: window_receptions_def)+
  have "fst (hd (hd ?rs)) = fst (hd (concat ?rs))" using ne by (cases ?rs; cases "hd ?rs") auto
  moreover have "ps \<noteq> []" using cat ne by (cases ?rs) auto
  ultimately have zero: "fst (hd (hd ?rs)) = 0" unfolding cat by (simp add: hd_map window_index_def c)
  have num: "numbered lib c (concat ?rs)" unfolding cat by (simp add: numbered_def window_index_def list_all_iff)
  have idx: "\<forall>x \<in> set (concat ?rs). fst x < 127" using win unfolding cat by (auto simp: window_index_def)
  have reach: "in_reach m [] ?rs" by (rule window_in_reach [OF assms(1)]) (use idx in simp)
  from stream_run [OF rb_inv_init reblock_init_reset assms(1) ne zero rec num reach] obtain st out where
    run: "reblock_run lib m (map Recv_Datagrams dss) reblock_init = Some (Ok (st, Set_Block_To_Dispatch c # out))"
    and parts: "list_all2 (seq_part m (concat ?rs) c) [0..<stream_head m (concat ?rs)] out"
    and g: "gathered lib m c (concat ?rs) (stream_head m (concat ?rs)) st"
    and stuck: "length (seq_packets (concat ?rs) (stream_head m (concat ?rs))) < m" by blast
  let ?n = "stream_head m (concat ?rs)"
  have blk: "\<forall>j < 127. seq_packets (concat ?rs) j = block_packets lib ps (c + of_nat j)"
    unfolding cat using seq_window by blast
  have "\<forall>j < ?n. seq_packets (concat ?rs) j \<noteq> []" using g assms(1) by (fastforce simp: gathered_def)
  moreover have "seq_packets (concat ?rs) 127 = []" using idx by (intro seq_packets_empty) fastforce
  ultimately have n: "?n \<le> 127" by (meson not_less)
  have "?n = 127 \<or> \<not> m \<le> length (block_packets lib ps (c + of_nat ?n))"
    using n blk stuck by (metis le_neq_implies_less linorder_not_le)
  moreover have "\<forall>j < ?n. m \<le> length (block_packets lib ps (c + of_nat j))" using g n blk by (auto simp: gathered_def)
  ultimately have "complete_blocks lib m ps c = ?n"
    unfolding complete_blocks_def using n by (intro takeWhile_upt_eq) blast+
  moreover have "list_all2 (block_part lib m ps c) [0..<?n] out"
    using parts n blk by (auto simp: list_all2_conv_all_nth seq_part_def block_part_def)
  ultimately show ?thesis using run by metis
qed

section \<open>Properties\<close>

text \<open>A link that delivers one packet of each block, in order.\<close>

definition plain_stream :: "nat \<Rightarrow> (nat \<times> u8 \<times> byte list) list list" where
  "plain_stream n = map (\<lambda>j. [(j, of_nat j, [1])]) [0..<n]"

lemma plain_head: "stream_head 1 (map (\<lambda>j. (j, f j)) [0..<n]) = n"
proof (rule stream_head_eq)
  have "seq_packets (map (\<lambda>j. (j, f j)) [0..<n]) j = (if j < n then [f j] else [])" for j
    by (induction n) (auto simp: less_Suc_eq)
  then show "\<forall>j < n. 1 \<le> length (seq_packets (map (\<lambda>j. (j, f j)) [0..<n]) j)"
    "length (seq_packets (map (\<lambda>j. (j, f j)) [0..<n]) n) < 1" by simp_all
qed simp

lemma plain_in_reach: "in_reach 1 (map (\<lambda>j. (j, f j)) [0..<k]) (map (\<lambda>j. [(j, f j)]) [k..<k + n])"
proof (induction n arbitrary: k)
  case 0
  then show ?case by simp
next
  case (Suc n)
  have "map (\<lambda>j. (j, f j)) [0..<k] @ [(k, f k)] = map (\<lambda>j. (j, f j)) [0..<Suc k]" by simp
  moreover have "[k..<k + Suc n] = k # [Suc k..<Suc k + n]" by (simp add: upt_rec)
  moreover have "in_reach 1 (map (\<lambda>j. (j, f j)) [0..<Suc k]) (map (\<lambda>j. [(j, f j)]) [Suc k..<Suc k + n])"
    by (rule Suc)
  ultimately show ?case using plain_head [of f k] by (simp only: list.map in_reach.simps list.pred_inject prod.case) simp
qed

text \<open>
  C8. For a stream of any length: whatever the order in which packets arrive, however they are grouped
  into receptions, and whatever is lost or late, as long as the link stays within the window (less
  than 127 blocks ahead of the first incomplete block, at most 129 behind), the worker sends on exactly
  the complete blocks at the head of the stream, in order, each under its number modulo 256 and with
  enough packets of that very block, the first ones to arrive; it sets the dispatch counter once, to the
  first block's number. Eight bits are enough.
\<close>

theorem reblock_orders_stream:
  assumes "0 < m" and "rs \<noteq> []" and "hd rs \<noteq> []" and "fst (hd (hd rs)) = 0"
    and "list_all2 (reception lib) dss rs" and "numbered lib c (concat rs)" and "in_reach m [] rs"
  shows "\<exists>st out. reblock_run lib m (map Recv_Datagrams dss) reblock_init =
      Some (Ok (st, Set_Block_To_Dispatch c # out)) \<and>
    list_all2 (seq_part m (concat rs) c) [0..<stream_head m (concat rs)] out"
  using stream_run [OF rb_inv_init reblock_init_reset assms] by blast

lemma reblock_orders_stream_witness:
  "\<exists>st out. reblock_run repetition_lib 1 (map (\<lambda>j. Recv_Datagrams (Single [of_nat j, 1])) [0..<1000]) reblock_init =
      Some (Ok (st, Set_Block_To_Dispatch 0 # out)) \<and> length out = 1000"
proof -
  let ?rs = "plain_stream 1000" and ?dss = "map (\<lambda>j. Single [of_nat j, 1]) [0..<1000]"
  have cat: "concat ?rs = map (\<lambda>j. (j, of_nat j, [1])) [0..<1000]"
    by (simp add: plain_stream_def concat_map_singleton)
  have ne: "?rs \<noteq> []" "hd ?rs \<noteq> []" "fst (hd (hd ?rs)) = 0" by (simp_all add: plain_stream_def hd_map)
  have rec: "list_all2 (reception repetition_lib) ?dss ?rs"
    by (simp add: plain_stream_def list_all2_map1 list_all2_map2 list_all2_same reception_def repetition_lib_def)
  have num: "numbered repetition_lib 0 (concat ?rs)"
    unfolding cat by (simp add: numbered_def list_all_iff repetition_lib_def)
  have reach: "in_reach 1 [] ?rs"
    using plain_in_reach [of "\<lambda>j. (of_nat j, [1])" 0 1000] by (simp add: plain_stream_def)
  from reblock_orders_stream [OF _ ne rec num reach] show ?thesis
    unfolding cat plain_head by (auto simp: comp_def dest: list_all2_lengthD)
qed

text \<open>Within one window the full numbers are not needed to say it.\<close>

theorem reblock_orders_blocks:
  assumes "0 < m" and "dss \<noteq> []" and "datagram_list (hd dss) \<noteq> []"
    and "map (lib_deserialize lib) (concat (map datagram_list dss)) = map Some ps"
    and "\<forall>p \<in> set ps. unat (lib_source_block_number lib p - lib_source_block_number lib (hd ps)) < 127"
  shows "\<exists>st out. reblock_run lib m (map Recv_Datagrams dss) reblock_init =
      Some (Ok (st, Set_Block_To_Dispatch (lib_source_block_number lib (hd ps)) # out)) \<and>
    list_all2 (block_part lib m ps (lib_source_block_number lib (hd ps)))
      [0..<complete_blocks lib m ps (lib_source_block_number lib (hd ps))] out"
  by (rule window_run [OF assms(1-4) refl assms(5)])

text \<open>Sample receptions for the witnesses: a datagram is the number and one byte.\<close>

definition sample_receptions :: "datagrams list" where
  "sample_receptions = [Multiple [[255, 1], [0, 3]], Single [255, 2], Single [1, 9], Single [0, 4]]"

definition sample_packets :: "(u8 \<times> byte list) list" where
  "sample_packets = [(255, [1]), (0, [3]), (255, [2]), (1, [9]), (0, [4])]"

lemma sample_simps:
  "sample_receptions \<noteq> []" "datagram_list (hd sample_receptions) \<noteq> []"
  "map (lib_deserialize repetition_lib) (concat (map datagram_list sample_receptions)) = map Some sample_packets"
  "lib_source_block_number repetition_lib (hd sample_packets) = 255"
  "\<forall>p \<in> set sample_packets. unat (lib_source_block_number repetition_lib p -
      lib_source_block_number repetition_lib (hd sample_packets)) < 127"
  "complete_blocks repetition_lib 2 sample_packets 255 = 2"
  by code_simp+

lemma sample_run:
  "\<exists>st out. reblock_run repetition_lib 2 (map Recv_Datagrams sample_receptions) reblock_init = Some (Ok (st, out))"
  using window_run [OF _ sample_simps(1-3) refl sample_simps(5), of 2] by fastforce

text \<open>
  C19. The worker never reports a loss: whatever it receives, no message to the decoders is
  \<open>Reassembled::Error\<close>. Both tests that would send one look for packets under a closed number, and
  there are none.
\<close>

theorem reblock_never_reports_loss:
  assumes "reblock_run lib m inps reblock_init = Some (Ok (st, out))"
  shows "\<not> list_ex reports_loss out"
  using reblock_run_keeps [OF rb_inv_init assms] by blast

lemma reblock_never_reports_loss_witness:
  "\<exists>st out. reblock_run repetition_lib 2 (map Recv_Datagrams sample_receptions) reblock_init =
     Some (Ok (st, out)) \<and> \<not> list_ex reports_loss out"
  using sample_run reblock_never_reports_loss by blast

text \<open>
  C20. A timeout drops the incomplete blocks without a message: what the worker does with the
  receptions after it is what it does with them from the start.
\<close>

theorem timeout_forgets:
  assumes "reblock_run lib m inps reblock_init = Some (Ok (st, out))"
  shows "reblock_run lib m (inps @ Recv_Timeout # Recv_Datagrams ds # rest) reblock_init =
    map_option (\<lambda>r. obind r (\<lambda>(st', out'). Ok (st', out @ out')))
      (reblock_run lib m (Recv_Datagrams ds # rest) reblock_init)"
proof -
  have inv: "rb_inv lib st" using reblock_run_keeps [OF rb_inv_init assms] by blast
  have "reblock_recv lib m Recv_Timeout st = Some (Ok (st\<lparr>reset := True\<rparr>, []))"
    using not_damaged [OF inv] by (simp add: reblock_recv_def reblock_timeout_def)
  moreover have "reblock_recv lib m (Recv_Datagrams ds) (st\<lparr>reset := True\<rparr>) =
      reblock_recv lib m (Recv_Datagrams ds) reblock_init"
    by (rule reset_forgets [OF rb_inv_timeout [OF inv]]) simp
  ultimately have "reblock_run lib m (Recv_Timeout # Recv_Datagrams ds # rest) st =
      reblock_run lib m (Recv_Datagrams ds # rest) reblock_init"
    by (auto simp: option.map_comp comp_def split: option.splits outcome.splits
        intro!: option.map_ident_strong) (metis (no_types, lifting) case_prod_conv obind.simps outcome.exhaust surj_pair)
  then show ?thesis using reblock_run_append [OF assms] by simp
qed

lemma timeout_forgets_witness:
  "\<exists>st out. reblock_run repetition_lib 2 (map Recv_Datagrams sample_receptions) reblock_init = Some (Ok (st, out)) \<and>
    reblock_run repetition_lib 2 (map Recv_Datagrams sample_receptions @ Recv_Timeout # Recv_Datagrams (Single [1, 5]) # [])
      reblock_init =
    map_option (\<lambda>r. obind r (\<lambda>(st', out'). Ok (st', out @ out')))
      (reblock_run repetition_lib 2 [Recv_Datagrams (Single [1, 5])] reblock_init)"
  using sample_run timeout_forgets by blast

end
