(* ===== verification/Decode.thy ===== *)
theory Decode
  imports Reblock Turnstile
begin

text \<open>
  The decoding workers of the receiver (\<open>src/receive/decode.rs\<close>): \<open>nb_decode_threads\<close> threads take
  reassembled blocks from one unbounded channel, decode them in parallel, and send them on in the
  order of their numbers, each waiting until the shared counter \<open>block_to_dispatch\<close> shows the number
  it holds. The reblock worker sets the counter at a reset.
\<close>

section \<open>State\<close>

text \<open>
  \<open>disp_q\<close> lists everything sent to the dispatch worker so far. \<open>decoded\<close> is a history: the blocks
  decoded so far, in the order in which they were taken from the queue.
\<close>

record 'pkt decode_pipe =
  dec_q :: "'pkt reassembled list"
  decs :: "byte list worker list"
  block_to_dispatch :: u8
  disp_q :: "Block option list"
  decoded :: "byte list list"

record ('plan, 'config, 'pkt) decode_env =
  de_lib :: "('plan, 'config, 'pkt) raptorq_lib"
  de_rq :: "('plan, 'config) RaptorQ"
  de_threads :: u8

definition decode_init :: "('plan, 'config, 'pkt) decode_env \<Rightarrow> u8 \<Rightarrow> 'pkt decode_pipe" where
  "decode_init E c = \<lparr>dec_q = [], decs = replicate (unat (de_threads E)) Waiting,
     block_to_dispatch = c, disp_q = [], decoded = []\<rparr>"

section \<open>Steps\<close>

text \<open>What the reblock worker does to this state.\<close>

fun reblock_effect :: "'pkt reblock_output \<Rightarrow> 'pkt decode_pipe \<Rightarrow> 'pkt decode_pipe" where
  "reblock_effect (To_Decode m) s = s\<lparr>dec_q := dec_q s @ [m]\<rparr>"
| "reblock_effect (Set_Block_To_Dispatch c) s = s\<lparr>block_to_dispatch := c\<rparr>"

text \<open>
  \<open>decode::start\<close>, thread \<open>i\<close>: it receives and decodes, or, holding a decoded block, sends it when the
  counter shows its number. A block that does not decode is reported by \<open>None\<close> at once; the counter
  is left as it is.
\<close>

definition decode_step :: "('plan, 'config, 'pkt) decode_env \<Rightarrow> nat \<Rightarrow> 'pkt decode_pipe \<Rightarrow>
    'pkt decode_pipe option" where
  "decode_step E i s =
     (if i < length (decs s) then
        (case decs s ! i of
           Waiting \<Rightarrow>
             (case dec_q s of
                [] \<Rightarrow> None
              | Reassembled_Block k packets # q \<Rightarrow>
                  (case RaptorQ_decode (de_lib E) (de_rq E) k packets of
                     None \<Rightarrow> Some (s\<lparr>dec_q := q, disp_q := disp_q s @ [None]\<rparr>)
                   | Some block \<Rightarrow> Some (s\<lparr>dec_q := q, decs := (decs s)[i := Holding k block],
                                          decoded := decoded s @ [block]\<rparr>))
              | Reassembled_Error # q \<Rightarrow> Some (s\<lparr>dec_q := q, disp_q := disp_q s @ [None]\<rparr>))
         | Holding k block \<Rightarrow>
             if block_to_dispatch s = k
             then Some (s\<lparr>disp_q := disp_q s @ [Some (Block_deserialize block)],
                          block_to_dispatch := block_to_dispatch s + 1,
                          decs := (decs s)[i := Waiting]\<rparr>)
             else None
         | Stopped \<Rightarrow> None)
      else None)"

inductive decode_internal :: "('plan, 'config, 'pkt) decode_env \<Rightarrow> 'pkt decode_pipe \<Rightarrow> 'pkt decode_pipe \<Rightarrow> bool"
  for E where
  worker: "decode_step E i s = Some t \<Longrightarrow> decode_internal E s t"

text \<open>
  Runs in which the reblock worker sends blocks that decode, with consecutive numbers from \<open>c\<close>.
\<close>

definition decodes_to :: "('plan, 'config, 'pkt) decode_env \<Rightarrow> 'pkt reassembled \<Rightarrow> u8 \<Rightarrow> byte list \<Rightarrow> bool" where
  "decodes_to E m k block \<longleftrightarrow>
     (case m of Reassembled_Error \<Rightarrow> False
      | Reassembled_Block k' packets \<Rightarrow> k' = k \<and> RaptorQ_decode (de_lib E) (de_rq E) k packets = Some block)"

definition next_number :: "u8 \<Rightarrow> 'pkt decode_pipe \<Rightarrow> u8" where
  "next_number c s = c + of_nat (length (decoded s) + length (dec_q s))"

inductive decode_trans :: "('plan, 'config, 'pkt) decode_env \<Rightarrow> u8 \<Rightarrow> 'pkt decode_pipe \<Rightarrow> 'pkt decode_pipe \<Rightarrow> bool"
  for E c where
  push: "decodes_to E m (next_number c s) block \<Longrightarrow> decode_trans E c s (reblock_effect (To_Decode m) s)"
| worker: "decode_internal E s t \<Longrightarrow> decode_trans E c s t"

inductive_cases decode_internalE: "decode_internal E s t"
inductive_cases decode_transE: "decode_trans E c s t"

section \<open>The invariant\<close>

text \<open>All blocks of a run, taken or not.\<close>

definition payload_of :: "('plan, 'config, 'pkt) decode_env \<Rightarrow> 'pkt reassembled \<Rightarrow> byte list" where
  "payload_of E m = (case m of Reassembled_Error \<Rightarrow> []
     | Reassembled_Block k packets \<Rightarrow> the (RaptorQ_decode (de_lib E) (de_rq E) k packets))"

definition all_blocks :: "('plan, 'config, 'pkt) decode_env \<Rightarrow> 'pkt decode_pipe \<Rightarrow> byte list list" where
  "all_blocks E s = decoded s @ map (payload_of E) (dec_q s)"

definition released :: "'pkt decode_pipe \<Rightarrow> nat" where
  "released s = length (somes (disp_q s))"

definition dp_view :: "('plan, 'config, 'pkt) decode_env \<Rightarrow> 'pkt decode_pipe \<Rightarrow> byte list hview" where
  "dp_view E s = \<lparr>hv_workers = decs s, hv_jobs = all_blocks E s, hv_taken = length (decoded s),
     hv_released = released s, hv_turn = block_to_dispatch s\<rparr>"

lemma dp_view_simps [simp]:
  "hv_workers (dp_view E s) = decs s" "hv_jobs (dp_view E s) = all_blocks E s"
  "hv_taken (dp_view E s) = length (decoded s)" "hv_released (dp_view E s) = released s"
  "hv_turn (dp_view E s) = block_to_dispatch s"
  by (simp_all add: dp_view_def)

text \<open>The queue holds the next numbers.\<close>

definition queue_ok :: "('plan, 'config, 'pkt) decode_env \<Rightarrow> u8 \<Rightarrow> 'pkt decode_pipe \<Rightarrow> bool" where
  "queue_ok E c s \<longleftrightarrow>
     (\<forall>j < length (dec_q s). \<exists>b. decodes_to E (dec_q s ! j) (c + of_nat (length (decoded s) + j)) b) \<and>
     length (decs s) = unat (de_threads E) \<and> Stopped \<notin> set (decs s)"

definition dp_aux :: "('plan, 'config, 'pkt) decode_env \<Rightarrow> u8 \<Rightarrow> 'pkt decode_pipe \<Rightarrow> bool" where
  "dp_aux E c s \<longleftrightarrow> queue_ok E c s \<and>
     disp_q s = map (Some \<circ> Block_deserialize) (take (released s) (all_blocks E s))"

lemma released_update [simp]:
  "released (s\<lparr>dec_q := a\<rparr>) = released s" "released (s\<lparr>decs := b\<rparr>) = released s"
  "released (s\<lparr>block_to_dispatch := c\<rparr>) = released s" "released (s\<lparr>decoded := d\<rparr>) = released s"
  by (simp_all add: released_def)

lemma all_blocks_update [simp]:
  "all_blocks E (s\<lparr>decs := b\<rparr>) = all_blocks E s" "all_blocks E (s\<lparr>block_to_dispatch := c\<rparr>) = all_blocks E s"
  "all_blocks E (s\<lparr>disp_q := d\<rparr>) = all_blocks E s"
  by (simp_all add: all_blocks_def)

lemma decode_step_cases:
  assumes "decode_step E i s = Some t" and "queue_ok E c s"
  obtains
    (take) packets q block where "i < length (decs s)" "decs s ! i = Waiting"
      "dec_q s = Reassembled_Block (c + of_nat (length (decoded s))) packets # q"
      "RaptorQ_decode (de_lib E) (de_rq E) (c + of_nat (length (decoded s))) packets = Some block"
      "t = s\<lparr>dec_q := q, decs := (decs s)[i := Holding (c + of_nat (length (decoded s))) block],
             decoded := decoded s @ [block]\<rparr>"
  | (release) block where "i < length (decs s)" "decs s ! i = Holding (block_to_dispatch s) block"
      "t = s\<lparr>disp_q := disp_q s @ [Some (Block_deserialize block)],
             block_to_dispatch := block_to_dispatch s + 1, decs := (decs s)[i := Waiting]\<rparr>"
proof -
  from assms(1) have i: "i < length (decs s)" by (simp add: decode_step_def split: if_splits)
  show thesis
  proof (cases "decs s ! i")
    case Waiting
    with assms(1) i obtain m q where q: "dec_q s = m # q" by (cases "dec_q s") (auto simp: decode_step_def)
    with assms(2) have "\<exists>b. decodes_to E m (c + of_nat (length (decoded s))) b"
      by (fastforce simp: queue_ok_def dest: spec [of _ 0])
    then obtain packets b where m: "m = Reassembled_Block (c + of_nat (length (decoded s))) packets"
      "RaptorQ_decode (de_lib E) (de_rq E) (c + of_nat (length (decoded s))) packets = Some b"
      by (cases m) (auto simp: decodes_to_def)
    with assms(1) i Waiting q take show thesis by (simp add: decode_step_def)
  next
    case (Holding k b)
    with assms(1) i release show thesis by (auto simp: decode_step_def split: if_splits)
  next
    case Stopped
    with assms(1) i show thesis by (simp add: decode_step_def)
  qed
qed

lemma Stopped_update: "w \<noteq> Stopped \<Longrightarrow> Stopped \<notin> set ws \<Longrightarrow> Stopped \<notin> set (ws[i := w])"
  using set_update_subset_insert [of ws i w] by auto

lemma queue_ok_step:
  assumes "decode_trans E c s t" and "queue_ok E c s"
  shows "queue_ok E c t"
  using assms(1)
proof cases
  case (push m block)
  then show ?thesis using assms(2)
    by (auto simp: queue_ok_def next_number_def nth_append less_Suc_eq)
next
  case worker
  then obtain i where "decode_step E i s = Some t" by (auto elim: decode_internalE)
  then show ?thesis
    using assms(2)
  proof (cases rule: decode_step_cases)
    case (take packets q block)
    have "\<exists>b. decodes_to E (q ! j) (c + of_nat (Suc (length (decoded s)) + j)) b" if "j < length q" for j
      using assms(2) that take(3) unfolding queue_ok_def by (metis Suc_less_eq add_Suc add_Suc_right length_Cons nth_Cons_Suc)
    then show ?thesis using assms(2) take by (simp add: queue_ok_def Stopped_update)
  next
    case (release block)
    then show ?thesis using assms(2) by (simp add: queue_ok_def Stopped_update)
  qed
qed

text \<open>Each transition is a step of the hand-over.\<close>

lemma decode_trans_view:
  assumes "decode_trans E c s t" and "queue_ok E c s"
  shows "hstep (unat c) (dp_view E s) (dp_view E t)"
  using assms(1)
proof cases
  case (push m block)
  have "dp_view E t = (dp_view E s)\<lparr>hv_jobs := hv_jobs (dp_view E s) @ [payload_of E m]\<rparr>"
    using push by (simp add: dp_view_def all_blocks_def)
  then show ?thesis using hstep.enqueue by metis
next
  case worker
  then obtain i where "decode_step E i s = Some t" by (auto elim: decode_internalE)
  then show ?thesis
    using assms(2)
  proof (cases rule: decode_step_cases)
    case (take packets q block)
    have p: "payload_of E (Reassembled_Block (c + of_nat (length (decoded s))) packets) = block"
      using take(4) by (simp add: payload_of_def)
    then have "all_blocks E t = all_blocks E s" using take by (simp add: all_blocks_def)
    moreover have "all_blocks E s ! length (decoded s) = block"
      using take(3) p by (simp add: all_blocks_def)
    ultimately have "dp_view E t = (dp_view E s)\<lparr>hv_workers := (hv_workers (dp_view E s))[i :=
          Holding (of_nat (unat c + hv_taken (dp_view E s))) (hv_jobs (dp_view E s) ! hv_taken (dp_view E s))],
        hv_taken := Suc (hv_taken (dp_view E s))\<rparr>"
      using take(5) by (simp add: dp_view_def)
    moreover have "hv_taken (dp_view E s) < length (hv_jobs (dp_view E s))"
      using take(3) by (simp add: all_blocks_def)
    ultimately show ?thesis using hstep.take [of i "dp_view E s" "unat c"] take(1,2) by simp
  next
    case (release block)
    have "dp_view E t = (dp_view E s)\<lparr>hv_workers := (hv_workers (dp_view E s))[i := Waiting],
        hv_released := Suc (hv_released (dp_view E s)), hv_turn := hv_turn (dp_view E s) + 1\<rparr>"
      using release(3) by (simp add: dp_view_def released_def)
    then show ?thesis using hstep.release [of i "dp_view E s" block "unat c"] release(1,2) by simp
  qed
qed

lemma decode_trans_aux:
  assumes "dp_aux E c s" and "hinv (unat c) (dp_view E s)" and "decode_trans E c s t"
  shows "dp_aux E c t"
proof -
  have q: "queue_ok E c s" using assms(1) by (simp add: dp_aux_def)
  have le: "released s \<le> length (all_blocks E s)" using assms(2) by (auto simp: hinv_def holds_def)
  note qt = queue_ok_step [OF assms(3) q]
  from assms(3) show ?thesis
  proof cases
    case (push m block)
    then show ?thesis using assms(1) le qt by (simp add: dp_aux_def all_blocks_def released_def)
  next
    case worker
    then obtain i where "decode_step E i s = Some t" by (auto elim: decode_internalE)
    then show ?thesis
      using q
    proof (cases rule: decode_step_cases)
      case (take packets q block)
      then show ?thesis using assms(1) qt by (simp add: dp_aux_def all_blocks_def payload_of_def)
    next
      case (release block)
      from hinv_release [OF assms(2), of i block] release(1,2)
      have m: "released s < length (all_blocks E s)" "block = all_blocks E s ! released s" by auto
      have "released t = Suc (released s)" using release(3) by (simp add: released_def)
      moreover have "disp_q t = disp_q s @ [Some (Block_deserialize block)]" "all_blocks E t = all_blocks E s"
        using release(3) by simp_all
      ultimately show ?thesis using assms(1) qt m by (simp add: dp_aux_def take_Suc_conv_app_nth)
    qed
  qed
qed

lemma decode_init_inv: "hinv (unat c) (dp_view E (decode_init E c))" "dp_aux E c (decode_init E c)"
  by (simp_all add: hinv_def decode_init_def dp_view_def released_def holds_none all_blocks_def dp_aux_def
      queue_ok_def less_imp_le Suc_leI less_Suc_eq_le [symmetric])

interpretation dp: handover "decode_trans E c" "\<lambda>s. s = decode_init E c" "dp_view E" "dp_aux E c" "unat c" for E c
proof unfold_locales
  fix s t :: "'c decode_pipe"
  assume "dp_aux E c s" "decode_trans E c s t"
  then show "hstep (unat c) (dp_view E s) (dp_view E t)"
    by (intro decode_trans_view) (simp_all add: dp_aux_def)
qed (auto simp: decode_init_inv intro: decode_trans_aux)


abbreviation decode_reachable :: "('plan, 'config, 'pkt) decode_env \<Rightarrow> u8 \<Rightarrow> 'pkt decode_pipe \<Rightarrow> bool" where
  "decode_reachable E c s \<equiv> (decode_trans E c)\<^sup>*\<^sup>* (decode_init E c) s"

lemma decode_reachable_inv: "decode_reachable E c s \<Longrightarrow> dp_aux E c s \<and> hinv (unat c) (dp_view E s)"
  using dp.reachable by blast

section \<open>Progress\<close>

definition decode_pending :: "'pkt decode_pipe \<Rightarrow> nat" where
  "decode_pending s = 2 * length (dec_q s) + card (holders (decs s))"

lemma decode_internal_effect:
  assumes "decode_internal E s t" and "queue_ok E c s"
  shows "decode_pending t < decode_pending s \<and> all_blocks E t = all_blocks E s"
proof -
  from assms(1) obtain i where "decode_step E i s = Some t" by (auto elim: decode_internalE)
  then show ?thesis
    using assms(2)
  proof (cases rule: decode_step_cases)
    case (take packets q block)
    have "i \<notin> holders (decs s)" using take(2) by (simp add: holders_def)
    then show ?thesis using take
      by (simp add: decode_pending_def holders_update_holding all_blocks_def payload_of_def)
  next
    case (release block)
    have "i \<in> holders (decs s)" using release(1,2) by (simp add: holders_def)
    moreover from this have "0 < card (holders (decs s))" by (auto simp: card_gt_0_iff)
    ultimately show ?thesis using release by (simp add: decode_pending_def holders_update_idle)
  qed
qed

text \<open>As long as a block is queued or held, some thread can move.\<close>

lemma decode_progress:
  assumes "decode_reachable E c s" and "0 < unat (de_threads E)" and "decode_pending s \<noteq> 0"
  shows "\<exists>t. decode_internal E s t"
proof (cases "holders (decs s) = {}")
  case False
  from decode_reachable_inv [OF assms(1)] have "hinv (unat c) (dp_view E s)" by blast
  then have "holds (unat c) (decs s) (all_blocks E s) (released s) (length (decoded s))"
    by (simp add: hinv_def)
  from holds_card [OF this] False have "released s < length (decoded s)"
    by (metis card_eq_0_iff finite_holders not_less diff_is_0_eq)
  then obtain i b where "i < length (decs s)" "decs s ! i = Holding (block_to_dispatch s) b"
    using dp.turn_taken [OF refl assms(1)] by auto
  then have "\<exists>t. decode_step E i s = Some t" by (simp add: decode_step_def)
  then show ?thesis using decode_internal.worker by blast
next
  case True
  then have "dec_q s \<noteq> []" using assms(3) by (simp add: decode_pending_def)
  then obtain m q where q: "dec_q s = m # q" by (cases "dec_q s") auto
  have ok: "queue_ok E c s" using decode_reachable_inv [OF assms(1)] by (simp add: dp_aux_def)
  then have i0: "0 < length (decs s)" using assms(2) by (simp add: queue_ok_def)
  then have "decs s ! 0 \<noteq> Stopped" using ok nth_mem [OF i0] by (auto simp: queue_ok_def)
  moreover have "\<not> is_holding (decs s ! 0)" using True i0 by (auto simp: holders_def)
  ultimately have "decs s ! 0 = Waiting" by (cases "decs s ! 0") auto
  then have "\<exists>t. decode_step E 0 s = Some t" using i0 q
    by (simp add: decode_step_def split: reassembled.splits option.splits)
  then show ?thesis using decode_internal.worker by blast
qed

lemma decode_pending_zero:
  assumes "decode_reachable E c s" and "decode_pending s = 0"
  shows "disp_q s = map (Some \<circ> Block_deserialize) (all_blocks E s)"
proof -
  from decode_reachable_inv [OF assms(1)] have aux: "dp_aux E c s"
    and h: "holds (unat c) (decs s) (all_blocks E s) (released s) (length (decoded s))"
    by (auto simp: hinv_def)
  have "dec_q s = []" "card (holders (decs s)) = 0" using assms(2) by (simp_all add: decode_pending_def)
  then have "released s = length (all_blocks E s)"
    using holds_card [OF h] h by (auto simp: holds_def all_blocks_def)
  then show ?thesis using aux by (simp add: dp_aux_def)
qed

lemma decode_internal_run:
  assumes "(decode_internal E ^^ n) s t" and "decode_reachable E c s"
  shows "decode_reachable E c t \<and> n + decode_pending t \<le> decode_pending s \<and> all_blocks E t = all_blocks E s"
  using assms(1)
proof (induction n arbitrary: t)
  case 0
  then show ?case using assms(2) by simp
next
  case (Suc n)
  then obtain u where u: "(decode_internal E ^^ n) s u" "decode_internal E u t" by auto
  from Suc.IH [OF u(1)] have IH: "decode_reachable E c u" "n + decode_pending u \<le> decode_pending s"
    "all_blocks E u = all_blocks E s" by auto
  have "queue_ok E c u" using decode_reachable_inv [OF IH(1)] by (simp add: dp_aux_def)
  from decode_internal_effect [OF u(2) this] IH u(2) show ?case
    by (auto intro: rtranclp.rtrancl_into_rtrancl decode_trans.worker)
qed

lemma decode_quiesces:
  "decode_reachable E c s \<Longrightarrow> \<exists>t. (decode_internal E)\<^sup>*\<^sup>* s t \<and> \<not> (\<exists>u. decode_internal E t u)"
proof (induction s rule: measure_induct_rule [where f = decode_pending])
  case (less s)
  show ?case
  proof (cases "\<exists>v. decode_internal E s v")
    case True
    then obtain v where v: "decode_internal E s v" by blast
    then have "(decode_internal E ^^ 1) s v" by auto
    from decode_internal_run [OF this less.prems]
    have "decode_reachable E c v" "decode_pending v < decode_pending s" by auto
    with less.IH v show ?thesis by (meson converse_rtranclp_into_rtranclp)
  qed blast
qed

text \<open>The start states of the properties: a queue of blocks that decode, with consecutive numbers.\<close>

definition decode_queued :: "('plan, 'config, 'pkt) decode_env \<Rightarrow> u8 \<Rightarrow> 'pkt reassembled list \<Rightarrow> 'pkt decode_pipe" where
  "decode_queued E c ms = (decode_init E c)\<lparr>dec_q := ms\<rparr>"

lemma decode_queued_reachable:
  assumes "\<forall>j < length ms. \<exists>b. decodes_to E (ms ! j) (c + of_nat j) b"
  shows "decode_reachable E c (decode_queued E c ms)"
  using assms
proof (induction ms rule: rev_induct)
  case Nil
  have "decode_queued E c [] = decode_init E c" by (simp add: decode_queued_def decode_init_def)
  then show ?case by simp
next
  case (snoc m ms)
  have "decode_reachable E c (decode_queued E c ms)"
  proof (rule snoc.IH, intro allI impI)
    fix j
    assume "j < length ms"
    then show "\<exists>b. decodes_to E (ms ! j) (c + of_nat j) b"
      using snoc.prems [rule_format, of j] by (simp add: nth_append)
  qed
  moreover have "\<exists>b. decodes_to E m (next_number c (decode_queued E c ms)) b"
    using snoc.prems [rule_format, of "length ms"] by (simp add: next_number_def decode_queued_def decode_init_def)
  then have "decode_trans E c (decode_queued E c ms) (reblock_effect (To_Decode m) (decode_queued E c ms))"
    using decode_trans.push by blast
  moreover have "reblock_effect (To_Decode m) (decode_queued E c ms) = decode_queued E c (ms @ [m])"
    by (simp add: decode_queued_def)
  ultimately show ?case by (metis rtranclp.rtrancl_into_rtrancl)
qed

lemma decode_queued_blocks:
  assumes "length bs = length ms" and "\<forall>j < length ms. decodes_to E (ms ! j) (c + of_nat j) (bs ! j)"
  shows "all_blocks E (decode_queued E c ms) = bs"
proof (rule nth_equalityI)
  fix j
  assume "j < length (all_blocks E (decode_queued E c ms))"
  then have "j < length ms" by (simp add: all_blocks_def decode_queued_def decode_init_def)
  with assms(2) show "all_blocks E (decode_queued E c ms) ! j = bs ! j"
    by (auto simp: all_blocks_def decode_queued_def decode_init_def decodes_to_def payload_of_def
        split: reassembled.splits)
qed (simp add: all_blocks_def decode_queued_def decode_init_def assms(1))

section \<open>A block that does not decode\<close>

text \<open>
  After block \<open>k\<close> failed to decode, the counter still shows \<open>k\<close>. \<open>stalled\<close> describes the states that
  follow while blocks from \<open>k + 1\<close> on keep arriving: every decoded block is held, none is passed on.
\<close>

definition stalled :: "('plan, 'config, 'pkt) decode_env \<Rightarrow> u8 \<Rightarrow> 'pkt decode_pipe \<Rightarrow> bool" where
  "stalled E k s \<longleftrightarrow> queue_ok E (k + 1) s \<and> block_to_dispatch s = k \<and> disp_q s = [None] \<and>
     holds (unat k + 1) (decs s) (all_blocks E s) 0 (length (decoded s))"

lemma stalled_no_turn:
  assumes "stalled E k s" and "i < length (decs s)"
  shows "decs s ! i \<noteq> Holding (block_to_dispatch s) b"
proof
  assume h: "decs s ! i = Holding (block_to_dispatch s) b"
  obtain f where f: "bij_betw f (holders (decs s)) {0..<length (decoded s)}"
    "\<forall>i k' j. i < length (decs s) \<longrightarrow> decs s ! i = Holding k' j \<longrightarrow>
       k' = of_nat (unat k + 1 + f i) \<and> j = all_blocks E s ! f i"
    using assms(1) by (auto simp: stalled_def holds_def)
  have hl: "holds (unat k + 1) (decs s) (all_blocks E s) 0 (length (decoded s))"
    using assms(1) by (simp add: stalled_def)
  have "length (decs s) < 256" using assms(1) by (simp add: stalled_def queue_ok_def)
  moreover have "i \<in> holders (decs s)" using h assms(2) by (simp add: holders_def)
  then have "f i < length (decoded s)" using f(1) by (auto dest!: bij_betwE)
  moreover have "length (decoded s) \<le> length (decs s)" using holds_width [OF hl] by simp
  ultimately have "f i < 255" by linarith
  moreover have "of_nat (unat k + 1 + f i) = (of_nat (unat k) :: u8)"
    using f(2) h assms by (simp add: stalled_def)
  ultimately have "unat k + 1 + f i = unat k"
    by (intro of_nat_word_inj_near) auto
  then show False by simp
qed

lemma stalled_step:
  assumes "stalled E k s" and "decode_trans E (k + 1) s t"
  shows "stalled E k t"
proof -
  have q: "queue_ok E (k + 1) s" using assms(1) by (simp add: stalled_def)
  note qt = queue_ok_step [OF assms(2) q]
  from assms(2) show ?thesis
  proof cases
    case (push m block)
    then show ?thesis using assms(1) qt
      by (simp add: stalled_def all_blocks_def holds_append append_assoc [symmetric] del: append_assoc)
  next
    case worker
    then obtain i where "decode_step E i s = Some t" by (auto elim: decode_internalE)
    then show ?thesis
      using q
    proof (cases rule: decode_step_cases)
      case (take packets q block)
      have p: "payload_of E (Reassembled_Block (k + 1 + of_nat (length (decoded s))) packets) = block"
        using take(4) by (simp add: payload_of_def)
      have ab: "all_blocks E t = all_blocks E s" "all_blocks E s ! length (decoded s) = block"
        "length (decoded s) < length (all_blocks E s)"
        using take p by (simp_all add: all_blocks_def)
      have "holds (unat k + 1) ((decs s)[i := Holding (of_nat (unat k + 1 + length (decoded s))) block])
          (all_blocks E s) 0 (Suc (length (decoded s)))"
        using holds_take [of "unat k + 1" "decs s" "all_blocks E s" 0 "length (decoded s)" i] ab take(1,2) assms(1)
        by (simp add: stalled_def)
      then show ?thesis using assms(1) qt take ab by (simp add: stalled_def algebra_simps)
    next
      case (release block)
      then show ?thesis using stalled_no_turn [OF assms(1)] by blast
    qed
  qed
qed

section \<open>Properties\<close>

definition demo_decode_env :: "u8 \<Rightarrow> (unit, unit, u8 \<times> byte list) decode_env" where
  "demo_decode_env n = \<lparr>de_lib = repetition_lib, de_rq = small_rq, de_threads = n\<rparr>"

lemma demo_decode_simps [simp]:
  "de_lib (demo_decode_env n) = repetition_lib" "de_rq (demo_decode_env n) = small_rq"
  "de_threads (demo_decode_env n) = n"
  by (simp_all add: demo_decode_env_def)

lemma repetition_decode [simp]:
  "RaptorQ_decode repetition_lib rq k [] = None"
  "RaptorQ_decode repetition_lib rq k (p # ps) = Some (snd p)"
  by (simp_all add: RaptorQ_decode_def repetition_lib_def)

text \<open>
  C9. Blocks that decode reach the dispatch worker in the order of their numbers whatever the
  number of decoding threads and however they interleave: at every moment the messages sent are
  the first blocks in order, at most \<open>2 n\<close> steps are possible for \<open>n\<close> blocks, a state where no thread
  can move is reached, and in every such state all the blocks have been sent.
\<close>

theorem blocks_dispatched_in_order:
  assumes "length bs = length ms" and "\<forall>j < length ms. decodes_to E (ms ! j) (c + of_nat j) (bs ! j)"
    and "0 < unat (de_threads E)"
  shows "(\<forall>t. (decode_internal E)\<^sup>*\<^sup>* (decode_queued E c ms) t \<longrightarrow>
      (\<exists>n \<le> length bs. disp_q t = map (Some \<circ> Block_deserialize) (take n bs)) \<and>
      (\<not> (\<exists>u. decode_internal E t u) \<longrightarrow> disp_q t = map (Some \<circ> Block_deserialize) bs)) \<and>
    (\<forall>n t. (decode_internal E ^^ n) (decode_queued E c ms) t \<longrightarrow> n \<le> 2 * length ms) \<and>
    (\<exists>t. (decode_internal E)\<^sup>*\<^sup>* (decode_queued E c ms) t \<and> \<not> (\<exists>u. decode_internal E t u))"
proof (intro conjI allI impI)
  have r: "decode_reachable E c (decode_queued E c ms)"
    using assms(2) by (intro decode_queued_reachable) blast
  have pend: "decode_pending (decode_queued E c ms) = 2 * length ms"
    by (simp add: decode_pending_def decode_queued_def decode_init_def holders_def)
  {
    fix t
    assume "(decode_internal E)\<^sup>*\<^sup>* (decode_queued E c ms) t"
    then obtain n where "(decode_internal E ^^ n) (decode_queued E c ms) t" by (auto simp: rtranclp_power)
    from decode_internal_run [OF this r] decode_queued_blocks [OF assms(1,2)]
    have t: "decode_reachable E c t" "all_blocks E t = bs" by auto
    from decode_reachable_inv [OF t(1)] have aux: "dp_aux E c t" and inv: "hinv (unat c) (dp_view E t)" by auto
    show "\<exists>n \<le> length bs. disp_q t = map (Some \<circ> Block_deserialize) (take n bs)"
      using aux inv t(2) by (intro exI [of _ "released t"]) (auto simp: dp_aux_def hinv_def holds_def)
    show "disp_q t = map (Some \<circ> Block_deserialize) bs" if "\<not> (\<exists>u. decode_internal E t u)"
      using decode_progress [OF t(1) assms(3)] that decode_pending_zero [OF t(1)] t(2) by auto
  next
    fix n t
    assume "(decode_internal E ^^ n) (decode_queued E c ms) t"
    from decode_internal_run [OF this r] pend show "n \<le> 2 * length ms" by simp
  }
  show "\<exists>t. (decode_internal E)\<^sup>*\<^sup>* (decode_queued E c ms) t \<and> \<not> (\<exists>u. decode_internal E t u)"
    by (rule decode_quiesces [OF r])
qed

theorem blocks_dispatched_in_order_witness:
  "\<exists>t. (decode_internal (demo_decode_env 2))\<^sup>*\<^sup>* (decode_queued (demo_decode_env 2) 255
      [Reassembled_Block 255 [(255, [1])], Reassembled_Block 0 [(0, [2])]]) t \<and>
    disp_q t = [Some (Block_deserialize [1]), Some (Block_deserialize [2])]"
proof -
  let ?ms = "[Reassembled_Block 255 [(255, [1])], Reassembled_Block 0 [(0, [2])]] :: (u8 \<times> byte list) reassembled list"
  have "\<forall>j < length ?ms. decodes_to (demo_decode_env 2) (?ms ! j) (255 + of_nat j) ([[1], [2]] ! j)"
    by (simp add: decodes_to_def less_Suc_eq)
  from blocks_dispatched_in_order [OF _ this] show ?thesis by auto
qed

text \<open>
  C15. A block that does not decode stops the receiver: the thread reports it by a \<open>None\<close>, but leaves
  \<open>block_to_dispatch\<close> at its number, so that however long the following blocks, all decodable, keep
  arriving, and whatever the number of threads, none of them is ever passed to the dispatch worker.
\<close>

theorem failed_decode_stalls:
  assumes "RaptorQ_decode (de_lib E) (de_rq E) k packets = None" and "0 < unat (de_threads E)"
  shows "\<exists>s. decode_step E 0 (decode_queued E k [Reassembled_Block k packets]) = Some s \<and>
    (\<forall>t. (decode_trans E (k + 1))\<^sup>*\<^sup>* s t \<longrightarrow> disp_q t = [None])"
proof -
  define s where "s = (decode_init E k)\<lparr>disp_q := [None]\<rparr>"
  have st: "decode_step E 0 (decode_queued E k [Reassembled_Block k packets]) = Some s"
    using assms by (simp add: decode_step_def decode_queued_def decode_init_def s_def)
  have s0: "stalled E k s"
    by (simp add: stalled_def s_def decode_init_def queue_ok_def holds_none all_blocks_def)
  have "disp_q t = [None]" if "(decode_trans E (k + 1))\<^sup>*\<^sup>* s t" for t
  proof -
    from that have "stalled E k t"
      by (induction rule: rtranclp_induct) (auto intro: s0 stalled_step)
    then show ?thesis by (simp add: stalled_def)
  qed
  with st show ?thesis by blast
qed

theorem failed_decode_stalls_witness:
  "\<exists>s. decode_step (demo_decode_env 2) 0 (decode_queued (demo_decode_env 2) 7 [Reassembled_Block 7 []]) = Some s \<and>
    (\<forall>t. (decode_trans (demo_decode_env 2) 8)\<^sup>*\<^sup>* s t \<longrightarrow> disp_q t = [None])"
  using failed_decode_stalls [of "demo_decode_env 2" 7 "[]"] by simp

end
