(* ===== verification/Sock_Utils.thy ===== *)
theory Sock_Utils
  imports Stream_IO
begin

text \<open>
  Socket buffer sizes (\<open>src/sock_utils.rs\<close>) and the signed 32-bit arithmetic the UDP workers compute
  them with. What the two system calls return is an argument: the return code, and for
  \<open>getsockopt\<close> the value it stores.
\<close>

section \<open>Signed arithmetic\<close>

type_synonym i32 = "32 word"

definition i32_try_from_u32 :: "u32 \<Rightarrow> (i32, string) outcome" where
  "i32_try_from_u32 w = (if unat w < 2 ^ 31 then Ok w else Err try_from_int_msg)"

definition smul_ck :: "bool \<Rightarrow> i32 \<Rightarrow> i32 \<Rightarrow> (i32, 'e) outcome" where
  "smul_ck ovf a b =
     (if ovf \<and> \<not> (- (2 ^ 31) \<le> sint a * sint b \<and> sint a * sint b < 2 ^ 31) then Panic Arithmetic_Overflow
      else Ok (a * b))"

lemma sint_of_nat_i32: "n < 2 ^ 31 \<Longrightarrow> sint (of_nat n :: i32) = int n"
  by (simp add: signed_of_nat signed_take_bit_int_eq_self)

lemma smul_ck_of_nat:
  assumes "m < 2 ^ 31" and "n < 2 ^ 31"
  shows "smul_ck ovf (of_nat m) (of_nat n) =
    (if ovf \<and> 2 ^ 31 \<le> m * n then Panic Arithmetic_Overflow else Ok (of_nat (m * n)))"
proof -
  have "sint (of_nat m :: i32) * sint (of_nat n :: i32) = int (m * n)"
    using assms by (simp add: sint_of_nat_i32)
  moreover have "- (2 ^ 31) \<le> int (m * n)" by (rule order_trans [of _ 0]) simp_all
  moreover have "int (m * n) < 2 ^ 31 \<longleftrightarrow> m * n < 2 ^ 31"
    using of_nat_less_iff [of "m * n" "2 ^ 31", where 'a = int] by (simp only: of_nat_power of_nat_numeral)
  ultimately show ?thesis unfolding smul_ck_def by (simp only: of_nat_mult not_less simp_thms)
qed

section \<open>Socket options\<close>

definition setsockopt_buffer_size :: "(i32 \<Rightarrow> int) \<Rightarrow> i32 \<Rightarrow> (unit, io_error) outcome" where
  "setsockopt_buffer_size sys sz = (if sys sz = 0 then Ok () else Err (Other_Io ''libc::setsockopt''))"

definition getsockopt_buffer_size :: "int \<times> i32 \<Rightarrow> (i32, io_error) outcome" where
  "getsockopt_buffer_size res = (if fst res = 0 then Ok (snd res) else Err (Other_Io ''libc::getsockopt''))"

text \<open>
  How both UDP workers set their buffer: set it, read it back, compare. The boolean says that the
  kernel granted less, which is only logged.
\<close>

definition apply_buffer_size :: "(i32 \<Rightarrow> int) \<Rightarrow> int \<times> i32 \<Rightarrow> i32 \<Rightarrow> (bool, io_error) outcome" where
  "apply_buffer_size set_sys get_res sz =
     obind (setsockopt_buffer_size set_sys sz) (\<lambda>_.
     obind (getsockopt_buffer_size get_res) (\<lambda>granted. Ok (sint granted < sint sz)))"

end
