(* ===== verification/Udp_Receive.thy ===== *)
theory Udp_Receive
  imports Reblock Sock_Utils
begin

text \<open>
  Receiving datagrams: \<open>ReceiveMsg\<close>, \<open>ReceiveMmsg\<close> and \<open>Receive\<close> of \<open>src/udp.rs\<close>, and the worker
  \<open>src/receive/udp.rs\<close> around them. The kernel's part of a call is an argument: the value it returns
  and the datagrams it copies, each into its buffer as far as it fits. The buffers are reused from call
  to call, as in the code.
\<close>

section \<open>State\<close>

record receive_msg =
  rm_udp_packet_size :: u16
  rm_buffer :: "byte list"

text \<open>\<open>rmm_lens\<close> are the \<open>msg_len\<close> fields of the message headers.\<close>

record receive_mmsg =
  rmm_udp_packet_size :: u16
  rmm_lens :: "u32 list"
  rmm_buffers :: "byte list list"
  rmm_batch_size :: u32

datatype receive_socket = Recv_Msg receive_msg | Recv_Mmsg receive_mmsg

definition ReceiveMsg_new :: "u16 \<Rightarrow> receive_msg" where
  "ReceiveMsg_new udp_packet_size =
     \<lparr>rm_udp_packet_size = udp_packet_size, rm_buffer = replicate (unat udp_packet_size) 0\<rparr>"

definition ReceiveMmsg_new :: "u16 \<Rightarrow> u32 \<Rightarrow> receive_mmsg" where
  "ReceiveMmsg_new udp_packet_size batch_size =
     \<lparr>rmm_udp_packet_size = udp_packet_size,
      rmm_lens = replicate (unat batch_size) 0,
      rmm_buffers = replicate (unat batch_size) (replicate (unat udp_packet_size) 0),
      rmm_batch_size = batch_size\<rparr>"

definition Receive_new :: "u16 \<Rightarrow> u32 option \<Rightarrow> receive_socket" where
  "Receive_new udp_packet_size batch =
     (case batch of
        None \<Rightarrow> Recv_Msg (ReceiveMsg_new udp_packet_size)
      | Some n \<Rightarrow> if n = 1 then Recv_Msg (ReceiveMsg_new udp_packet_size)
                  else Recv_Mmsg (ReceiveMmsg_new udp_packet_size n))"

section \<open>The system calls\<close>

record sys_recv =
  sr_ret :: int
  sr_datagrams :: "byte list list"

text \<open>The kernel copies what fits over the start of a buffer, and stores the length in the header.\<close>

definition kernel_copy :: "nat \<Rightarrow> byte list \<Rightarrow> byte list \<Rightarrow> byte list" where
  "kernel_copy n d buf = take n d @ drop (min n (length d)) buf"

fun kernel_copies :: "nat \<Rightarrow> byte list list \<Rightarrow> byte list list \<Rightarrow> byte list list" where
  "kernel_copies n (d # ds) (buf # bufs) = kernel_copy n d buf # kernel_copies n ds bufs"
| "kernel_copies n ds bufs = bufs"

fun kernel_lens :: "nat \<Rightarrow> byte list list \<Rightarrow> u32 list \<Rightarrow> u32 list" where
  "kernel_lens n (d # ds) (l # ls) = of_nat (min n (length d)) # kernel_lens n ds ls"
| "kernel_lens n ds ls = ls"

section \<open>The operations\<close>

definition ReceiveMsg_recv :: "sys_recv \<Rightarrow> receive_msg \<Rightarrow> (datagrams, io_error) outcome \<times> receive_msg" where
  "ReceiveMsg_recv sys st =
     (let n = unat (rm_udp_packet_size st);
          st' = (case sr_datagrams sys of
                   [] \<Rightarrow> st
                 | d # _ \<Rightarrow> st\<lparr>rm_buffer := kernel_copy n d (rm_buffer st)\<rparr>) in
      if sr_ret sys < 0 then (Err (Other_Io ''libc::recvmsg''), st')
      else (obind (slice (rm_buffer st') 0 (nat (sr_ret sys))) (\<lambda>b. Ok (Single b)), st'))"

text \<open>The fold of \<open>ReceiveMmsg::recv\<close> over the first \<open>nb_msg\<close> buffers.\<close>

fun take_messages :: "byte list list \<Rightarrow> u32 list \<Rightarrow> (byte list list, io_error) outcome" where
  "take_messages [] ls = Ok []"
| "take_messages (buf # bufs) [] = Panic Index_Out_Of_Bounds"
| "take_messages (buf # bufs) (l # ls) =
     obind (slice buf 0 (unat l)) (\<lambda>b. obind (take_messages bufs ls) (\<lambda>bs. Ok (b # bs)))"

definition ReceiveMmsg_recv :: "sys_recv \<Rightarrow> receive_mmsg \<Rightarrow> (datagrams, io_error) outcome \<times> receive_mmsg" where
  "ReceiveMmsg_recv sys st =
     (let n = unat (rmm_udp_packet_size st);
          st' = st\<lparr>rmm_buffers := kernel_copies n (sr_datagrams sys) (rmm_buffers st),
                   rmm_lens := kernel_lens n (sr_datagrams sys) (rmm_lens st)\<rparr> in
      if sr_ret sys = - 1 then (Err (Other_Io ''libc::recvmmsg''), st')
      else if sr_ret sys < 0 then (Err (Invalid_Data (''nb_msg: '' @ try_from_int_msg)), st')
      else (obind (slice (rmm_buffers st') 0 (nat (sr_ret sys))) (\<lambda>bufs.
              obind (take_messages bufs (rmm_lens st')) (\<lambda>ds. Ok (Multiple ds))), st'))"

fun Receive_recv :: "sys_recv \<Rightarrow> receive_socket \<Rightarrow> (datagrams, io_error) outcome \<times> receive_socket" where
  "Receive_recv sys (Recv_Msg st) = (case ReceiveMsg_recv sys st of (r, st') \<Rightarrow> (r, Recv_Msg st'))"
| "Receive_recv sys (Recv_Mmsg st) = (case ReceiveMmsg_recv sys st of (r, st') \<Rightarrow> (r, Recv_Mmsg st'))"

section \<open>The worker\<close>

definition receive_buffer_size :: "bool \<Rightarrow> ('plan, 'config) RaptorQ \<Rightarrow> u16 \<Rightarrow> (i32, receive_error) outcome" where
  "receive_buffer_size ovf rq mtu =
     obind (omap_err (\<lambda>e. R_Other (''nb_packets: '' @ e)) (i32_try_from_u32 (nb_packets rq))) (\<lambda>n.
     obind (smul_ck ovf (ucast WINDOW_WIDTH) n) (\<lambda>m. smul_ck ovf m (ucast mtu)))"

lemma unat_nb_packets_less: "unat (nb_packets rq) < 131072"
proof -
  have "unat (symbol_count rq) < 65536" "unat (nb_repair_packets rq) < 65536"
    using unsigned_less [of "symbol_count rq"] unsigned_less [of "nb_repair_packets rq"] by simp_all
  then show ?thesis unfolding nb_packets_def by (subst unat_add_fits) (simp_all add: unat_ucast_up)
qed

text \<open>
  The loop: what it sends to the reblock worker (the channel is unbounded and its other end lives as
  long as the receiver), and how it ends; \<open>None\<close> while it waits for the next call to return.
\<close>

fun udp_receive_loop :: "sys_recv list \<Rightarrow> receive_socket \<Rightarrow>
    datagrams list \<times> (unit, receive_error) outcome option" where
  "udp_receive_loop [] udp = ([], None)"
| "udp_receive_loop (sys # syss) udp =
     (case Receive_recv sys udp of
        (Ok ds, udp') \<Rightarrow> (case udp_receive_loop syss udp' of (out, r) \<Rightarrow> (ds # out, r))
      | (Err e, udp') \<Rightarrow> ([], Some (Err (R_Io e)))
      | (Panic p, udp') \<Rightarrow> ([], Some (Panic p)))"

text \<open>\<open>start\<close>: \<open>bind\<close> and \<open>set_nonblocking\<close>, the buffer size, the loop.\<close>

definition udp_receive_start :: "bool \<Rightarrow> ('plan, 'config) RaptorQ \<Rightarrow> receive_config \<Rightarrow> (unit, io_error) outcome \<Rightarrow>
    (i32 \<Rightarrow> int) \<Rightarrow> int \<times> i32 \<Rightarrow> sys_recv list \<Rightarrow> datagrams list \<times> (unit, receive_error) outcome option" where
  "udp_receive_start ovf rq cfg bound set_sys get_res syss =
     (case obind (omap_err R_Io bound) (\<lambda>_.
           obind (receive_buffer_size ovf rq (from_mtu cfg)) (\<lambda>sz.
           omap_err R_Io (apply_buffer_size set_sys get_res sz))) of
        Ok small \<Rightarrow> udp_receive_loop syss (Receive_new (from_mtu cfg) (batch_receive cfg))
      | Err e \<Rightarrow> ([], Some (Err e))
      | Panic p \<Rightarrow> ([], Some (Panic p)))"

section \<open>Invariant\<close>

text \<open>
  The sizes of the buffers and headers, and the documented behaviour of the calls: \<open>recvmsg\<close> returns
  the length of the one datagram it copied, \<open>recvmmsg\<close> the number of datagrams, at most the batch size.
\<close>

fun socket_wf :: "u16 \<Rightarrow> receive_socket \<Rightarrow> bool" where
  "socket_wf mtu (Recv_Msg st) \<longleftrightarrow> rm_udp_packet_size st = mtu \<and> length (rm_buffer st) = unat mtu"
| "socket_wf mtu (Recv_Mmsg st) \<longleftrightarrow> rmm_udp_packet_size st = mtu \<and>
     list_all (\<lambda>b. length b = unat mtu) (rmm_buffers st) \<and>
     length (rmm_buffers st) = unat (rmm_batch_size st) \<and> length (rmm_lens st) = unat (rmm_batch_size st)"

fun socket_capacity :: "receive_socket \<Rightarrow> nat option" where
  "socket_capacity (Recv_Msg st) = None"
| "socket_capacity (Recv_Mmsg st) = Some (unat (rmm_batch_size st))"

definition sys_recv_ok :: "u16 \<Rightarrow> nat option \<Rightarrow> sys_recv \<Rightarrow> bool" where
  "sys_recv_ok mtu cap sys =
     (case cap of
        None \<Rightarrow> (case sr_datagrams sys of [d] \<Rightarrow> sr_ret sys = int (min (unat mtu) (length d)) | _ \<Rightarrow> False)
      | Some b \<Rightarrow> sr_ret sys = int (length (sr_datagrams sys)) \<and> length (sr_datagrams sys) \<le> b)"

lemma Receive_new_wf: "socket_wf mtu (Receive_new mtu batch)"
  by (auto simp: Receive_new_def ReceiveMsg_new_def ReceiveMmsg_new_def list_all_iff split: option.split)

lemma length_kernel_copy [simp]:
  "length buf = n \<Longrightarrow> length (kernel_copy n d buf) = n"
  by (simp add: kernel_copy_def)

lemma kernel_copies_wf:
  "list_all (\<lambda>b. length b = n) bufs \<Longrightarrow>
   list_all (\<lambda>b. length b = n) (kernel_copies n ds bufs) \<and> length (kernel_copies n ds bufs) = length bufs"
  by (induction n ds bufs rule: kernel_copies.induct) auto

lemma length_kernel_lens [simp]: "length (kernel_lens n ds ls) = length ls"
  by (induction n ds ls rule: kernel_lens.induct) auto

lemma Receive_recv_wf:
  assumes "socket_wf mtu udp" and "Receive_recv sys udp = (r, udp')"
  shows "socket_wf mtu udp' \<and> socket_capacity udp' = socket_capacity udp"
proof (cases udp)
  case (Recv_Msg st)
  with assms show ?thesis
    by (auto simp: ReceiveMsg_recv_def Let_def split: list.splits if_splits)
next
  case (Recv_Mmsg st)
  with assms kernel_copies_wf [of "unat mtu" "rmm_buffers st" "sr_datagrams sys"] show ?thesis
    by (auto simp: ReceiveMmsg_recv_def Let_def split: if_splits)
qed

section \<open>What a call returns\<close>

lemma slice_kernel_copy:
  "length buf = n \<Longrightarrow> slice (kernel_copy n d buf) 0 (min n (length d)) = Ok (take n d)"
  by (simp add: slice_def kernel_copy_def min_def)

lemma take_messages_kernel:
  "length ds \<le> length bufs \<Longrightarrow> length ds \<le> length ls \<Longrightarrow> list_all (\<lambda>b. length b = n) bufs \<Longrightarrow> n < 2 ^ 32 \<Longrightarrow>
   take_messages (take (length ds) (kernel_copies n ds bufs)) (kernel_lens n ds ls) = Ok (map (take n) ds)"
proof (induction ds arbitrary: bufs ls)
  case Nil
  then show ?case by simp
next
  case (Cons d ds)
  obtain b bufs' where b: "bufs = b # bufs'" using Cons.prems(1) by (cases bufs) auto
  obtain l ls' where l: "ls = l # ls'" using Cons.prems(2) by (cases ls) auto
  have u: "unat (of_nat (min n (length d)) :: u32) = min n (length d)"
    using Cons.prems(4) by (intro unat_of_nat_small) simp
  show ?case using Cons b l u by (simp add: slice_kernel_copy)
qed

lemma Receive_recv_delivers:
  assumes "socket_wf mtu udp" and "sys_recv_ok mtu (socket_capacity udp) sys"
  obtains ds udp' where "Receive_recv sys udp = (Ok ds, udp')"
    and "datagram_list ds = map (take (unat mtu)) (sr_datagrams sys)"
proof (cases udp)
  case (Recv_Msg st)
  with assms(2) obtain d where d: "sr_datagrams sys = [d]" "sr_ret sys = int (min (unat mtu) (length d))"
    by (auto simp: sys_recv_ok_def split: list.splits)
  have "Receive_recv sys udp = (Ok (Single (take (unat mtu) d)),
      Recv_Msg (st\<lparr>rm_buffer := kernel_copy (unat mtu) d (rm_buffer st)\<rparr>))"
    using assms(1) Recv_Msg d by (simp add: ReceiveMsg_recv_def Let_def slice_kernel_copy)
  then show ?thesis using that d by simp
next
  case (Recv_Mmsg st)
  have ok: "sr_ret sys = int (length (sr_datagrams sys))" "length (sr_datagrams sys) \<le> unat (rmm_batch_size st)"
    using assms(2) Recv_Mmsg by (auto simp: sys_recv_ok_def)
  have wf: "rmm_udp_packet_size st = mtu" "list_all (\<lambda>b. length b = unat mtu) (rmm_buffers st)"
    "length (rmm_buffers st) = unat (rmm_batch_size st)" "length (rmm_lens st) = unat (rmm_batch_size st)"
    using assms(1) Recv_Mmsg by auto
  have "unat mtu < 65536" using unsigned_less [of mtu] by simp
  then have "take_messages (take (length (sr_datagrams sys)) (kernel_copies (unat mtu) (sr_datagrams sys) (rmm_buffers st)))
      (kernel_lens (unat mtu) (sr_datagrams sys) (rmm_lens st)) = Ok (map (take (unat mtu)) (sr_datagrams sys))"
    using take_messages_kernel ok wf by simp
  then show ?thesis using that Recv_Mmsg ok wf kernel_copies_wf [OF wf(2), of "sr_datagrams sys"]
    by (simp add: ReceiveMmsg_recv_def Let_def slice_def)
qed

lemma udp_receive_loop_delivers:
  "socket_wf mtu udp \<Longrightarrow> list_all (sys_recv_ok mtu (socket_capacity udp)) syss \<Longrightarrow>
   snd (udp_receive_loop syss udp) = None \<and>
   map datagram_list (fst (udp_receive_loop syss udp)) = map (map (take (unat mtu)) \<circ> sr_datagrams) syss"
proof (induction syss arbitrary: udp)
  case Nil
  then show ?case by simp
next
  case (Cons sys syss)
  have "sys_recv_ok mtu (socket_capacity udp) sys" using Cons.prems(2) by simp
  with Cons.prems(1) obtain ds udp' where ds: "Receive_recv sys udp = (Ok ds, udp')"
    "datagram_list ds = map (take (unat mtu)) (sr_datagrams sys)" by (rule Receive_recv_delivers)
  have "socket_wf mtu udp'" "socket_capacity udp' = socket_capacity udp"
    using Receive_recv_wf [OF Cons.prems(1) ds(1)] by auto
  with Cons.IH [of udp'] Cons.prems(2) ds show ?case by (simp add: split_beta)
qed

section \<open>Properties\<close>



text \<open>
  C27. As long as the kernel behaves as documented, what the worker passes on is what arrived, in order,
  each datagram cut to the MTU, grouped as the kernel grouped it: reusing the buffers leaks no byte of
  an earlier datagram, and neither the batch mode nor its size changes the sequence of datagrams.
\<close>

theorem received_datagrams_pass:
  assumes "list_all (sys_recv_ok mtu (socket_capacity (Receive_new mtu batch))) syss"
  shows "snd (udp_receive_loop syss (Receive_new mtu batch)) = None \<and>
    map datagram_list (fst (udp_receive_loop syss (Receive_new mtu batch))) =
      map (map (take (unat mtu)) \<circ> sr_datagrams) syss"
  by (rule udp_receive_loop_delivers [OF Receive_new_wf assms])

theorem received_datagrams_pass_witness:
  "map datagram_list (fst (udp_receive_loop
      [\<lparr>sr_ret = 2, sr_datagrams = [[1, 2, 3], [4]]\<rparr>, \<lparr>sr_ret = 1, sr_datagrams = [[5]]\<rparr>] (Receive_new 2 (Some 2)))) =
    [[[1, 2], [4]], [[5]]]"
  using received_datagrams_pass [of 2 "Some 2"
      "[\<lparr>sr_ret = 2, sr_datagrams = [[1, 2, 3], [4]]\<rparr>, \<lparr>sr_ret = 1, sr_datagrams = [[5]]\<rparr>]"]
  by (simp add: Receive_new_def ReceiveMmsg_new_def sys_recv_ok_def)

text \<open>
  C37. With a batch size of 0, which the command line accepts, \<open>recvmmsg\<close> returns at once with no
  datagram; the worker passes the empty batch on, and the reblock worker panics on its first element.
\<close>

theorem batch_zero_panics_reblock:
  assumes "sys_recv_ok mtu (Some 0) sys" and "(min_nb_packets ovf rq :: (u16, receive_error) outcome) = Ok m"
  shows "fst (udp_receive_loop (sys # syss) (Receive_new mtu (Some 0))) =
      Multiple [] # fst (udp_receive_loop syss (Receive_new mtu (Some 0))) \<and>
    reblock_start lib ovf rq (map Recv_Datagrams (fst (udp_receive_loop (sys # syss) (Receive_new mtu (Some 0))))) =
      Some (Panic Index_Out_Of_Bounds)"
proof -
  have "Receive_recv sys (Receive_new mtu (Some 0)) = (Ok (Multiple []), Receive_new mtu (Some 0))"
    using assms(1) by (simp add: sys_recv_ok_def Receive_new_def ReceiveMmsg_new_def ReceiveMmsg_recv_def slice_def)
  then show ?thesis using assms(2)
    by (simp add: split_beta reblock_start_def reblock_recv_def reblock_init_def reblock_reset_def first_datagram_def)
qed

theorem batch_zero_panics_reblock_witness:
  "reblock_start repetition_lib True small_rq
     (map Recv_Datagrams (fst (udp_receive_loop [\<lparr>sr_ret = 0, sr_datagrams = []\<rparr>] (Receive_new 1500 (Some 0))))) =
   Some (Panic Index_Out_Of_Bounds)"
proof -
  have "\<exists>m. (min_nb_packets True small_rq :: (u16, receive_error) outcome) = Ok m"
    by (simp add: min_nb_packets_def small_rq_def add_ck_def)
  then show ?thesis using batch_zero_panics_reblock [of 1500 "\<lparr>sr_ret = 0, sr_datagrams = []\<rparr>" True small_rq _ "[]"]
    by (auto simp: sys_recv_ok_def)
qed

text \<open>
  C39. The socket buffer size, 127 blocks of packets, is computed in 32-bit signed arithmetic without a
  check: it is exact up to \<open>2\<^sup>3\<^sup>1\<close>; above, the dev profile panics and the release profile asks the kernel
  for the wrapped value.
\<close>

theorem receive_buffer_size_bound:
  "receive_buffer_size ovf rq mtu =
    (if ovf \<and> 2 ^ 31 \<le> 127 * unat (nb_packets rq) * unat mtu then Panic Arithmetic_Overflow
     else Ok (of_nat (127 * unat (nb_packets rq) * unat mtu)))"
proof -
  let ?n = "unat (nb_packets rq)"
  have n: "?n < 2 ^ 31" and p: "127 * ?n < 2 ^ 31" using unat_nb_packets_less [of rq] by simp_all
  have "unat mtu < 65536" using unsigned_less [of mtu] by simp
  then have mtu: "unat mtu < 2 ^ 31" by simp
  have w: "ucast mtu = (of_nat (unat mtu) :: i32)" "(ucast WINDOW_WIDTH :: i32) = of_nat 127"
    by (simp_all add: WINDOW_WIDTH_def)
  have t: "i32_try_from_u32 (nb_packets rq) = Ok (of_nat ?n)" using n by (simp add: i32_try_from_u32_def)
  have "smul_ck ovf (of_nat 127) (of_nat ?n) = (Ok (of_nat (127 * ?n)) :: (i32, receive_error) outcome)"
    using smul_ck_of_nat [of 127 ?n ovf] n p by simp
  then show ?thesis
    unfolding receive_buffer_size_def t w omap_err.simps obind.simps
    by (simp only: obind.simps smul_ck_of_nat [OF p mtu])
qed

end
