(* ===== verification/Link.thy ===== *)
theory Link
  imports Reblock_Stream Decode Udp_Receive
begin

text \<open>
  The link between the encoding threads of the sender and the dispatch worker of the receiver: the
  network, the UDP worker (\<open>src/receive/udp.rs\<close>), the reblock worker (\<open>src/receive/reblock.rs\<close>) and the
  decoding threads (\<open>src/receive/decode.rs\<close>), composed, for any number of blocks.
\<close>

section \<open>The codec and the network\<close>

text \<open>
  What the two ends rely on of the raptorq crate: a packet carries its block's number and survives
  serialization, and any \<open>m\<close> different packets of a block of the transfer's length decode to it.
\<close>

definition codec_ok :: "('plan, 'config, 'pkt) raptorq_lib \<Rightarrow> ('plan, 'config) RaptorQ \<Rightarrow> nat \<Rightarrow> bool" where
  "codec_ok lib rq m \<longleftrightarrow>
     (\<forall>k d. length d = unat (transfer_length rq) \<longrightarrow>
       (\<forall>p \<in> set (RaptorQ_encode lib rq k d).
          lib_source_block_number lib p = k \<and> lib_deserialize lib (lib_serialize lib p) = Some p) \<and>
       (\<forall>qs. distinct qs \<longrightarrow> set qs \<subseteq> set (RaptorQ_encode lib rq k d) \<longrightarrow> m \<le> length qs \<longrightarrow>
          RaptorQ_decode lib rq k qs = Some d))"

text \<open>The calls of the sender's UDP worker for the blocks \<open>bs\<close>, numbered from \<open>c\<close>.\<close>

definition block_calls :: "('plan, 'config, 'pkt) raptorq_lib \<Rightarrow> ('plan, 'config) RaptorQ \<Rightarrow> u8 \<Rightarrow> Block list \<Rightarrow>
    'pkt list list" where
  "block_calls lib rq c bs = map (\<lambda>j. RaptorQ_encode lib rq (c + of_nat j) (Block_serialized (bs ! j))) [0..<length bs]"

text \<open>
  \<open>rs\<close> is what the network delivers of these calls, reception by reception, each packet with the index
  of its block: some of the packets, in any order and without repetition, starting with one of block 0,
  enough of each block, and none out of reach of the receiver's window.
\<close>

definition link_stream :: "nat \<Rightarrow> 'pkt list list \<Rightarrow> (nat \<times> 'pkt) list list \<Rightarrow> bool" where
  "link_stream m calls rs \<longleftrightarrow>
     rs \<noteq> [] \<and> hd rs \<noteq> [] \<and> fst (hd (hd rs)) = 0 \<and> distinct (concat rs) \<and> in_reach m [] rs \<and>
     list_all (\<lambda>(j, p). j < length calls \<and> p \<in> set (calls ! j)) (concat rs) \<and>
     (\<forall>j < length calls. m \<le> length (seq_packets (concat rs) j))"

text \<open>The datagrams of one reception.\<close>

definition datagrams_of :: "('plan, 'config, 'pkt) raptorq_lib \<Rightarrow> (nat \<times> 'pkt) list \<Rightarrow> byte list list" where
  "datagrams_of lib r = map (lib_serialize lib \<circ> snd) r"

lemma length_block_calls [simp]: "length (block_calls lib rq c bs) = length bs"
  by (simp add: block_calls_def)

lemma nth_block_calls [simp]:
  "j < length bs \<Longrightarrow> block_calls lib rq c bs ! j = RaptorQ_encode lib rq (c + of_nat j) (Block_serialized (bs ! j))"
  by (simp add: block_calls_def)

text \<open>The blocks of a run of the protocol all have the transfer's length.\<close>

definition full_blocks :: "('plan, 'config) RaptorQ \<Rightarrow> Block list \<Rightarrow> bool" where
  "full_blocks rq bs \<longleftrightarrow> list_all (\<lambda>b. length (block_bytes b) = unat (transfer_length rq)) bs"

lemma full_blocks_nth: "full_blocks rq bs \<Longrightarrow> j < length bs \<Longrightarrow> length (Block_serialized (bs ! j)) = unat (transfer_length rq)"
  by (simp add: full_blocks_def list_all_length Block_serialized_def)

text \<open>What the network delivers of blocks of the right length can be read and shows its number.\<close>

lemma link_stream_packet:
  assumes "codec_ok lib rq m" and "link_stream m (block_calls lib rq c bs) rs" and "full_blocks rq bs"
    and "(j, p) \<in> set (concat rs)"
  shows "j < length bs" "p \<in> set (RaptorQ_encode lib rq (c + of_nat j) (Block_serialized (bs ! j)))"
    "lib_source_block_number lib p = c + of_nat j" "lib_deserialize lib (lib_serialize lib p) = Some p"
proof -
  from assms(2) have "list_all (\<lambda>(j, p). j < length (block_calls lib rq c bs) \<and> p \<in> set (block_calls lib rq c bs ! j)) (concat rs)"
    by (simp add: link_stream_def)
  then show j: "j < length bs" and p: "p \<in> set (RaptorQ_encode lib rq (c + of_nat j) (Block_serialized (bs ! j)))"
    using assms(4) unfolding list_all_iff by fastforce+
  with assms(1) full_blocks_nth [OF assms(3) j]
  show "lib_source_block_number lib p = c + of_nat j" "lib_deserialize lib (lib_serialize lib p) = Some p"
    unfolding codec_ok_def by blast+
qed

lemma link_stream_numbered:
  assumes "codec_ok lib rq m" and "link_stream m (block_calls lib rq c bs) rs" and "full_blocks rq bs"
  shows "numbered lib c (concat rs)"
  using link_stream_packet(3) [OF assms] unfolding numbered_def list_all_iff by blast

lemma link_stream_receptions:
  assumes "codec_ok lib rq m" and "link_stream m (block_calls lib rq c bs) rs" and "full_blocks rq bs"
    and "map datagram_list dss = map (datagrams_of lib) rs"
  shows "list_all2 (reception lib) dss rs"
proof -
  have len: "length dss = length rs" using assms(4) by (metis length_map)
  moreover have "reception lib (dss ! i) (rs ! i)" if i: "i < length rs" for i
  proof -
    have "datagram_list (dss ! i) = datagrams_of lib (rs ! i)" using assms(4) len i by (metis nth_map)
    moreover have "lib_deserialize lib (lib_serialize lib p) = Some p" if "(j, p) \<in> set (rs ! i)" for j p
    proof (rule link_stream_packet(4) [OF assms(1-3)])
      show "(j, p) \<in> set (concat rs)" using that i by (auto intro: nth_mem)
    qed
    ultimately show ?thesis by (auto simp: reception_def datagrams_of_def)
  qed
  ultimately show ?thesis by (simp add: list_all2_conv_all_nth)
qed

lemma link_stream_head:
  assumes "0 < m" and "codec_ok lib rq m" and "link_stream m (block_calls lib rq c bs) rs" and "full_blocks rq bs"
  shows "stream_head m (concat rs) = length bs"
proof (rule stream_head_eq [OF assms(1)])
  show "\<forall>j < length bs. m \<le> length (seq_packets (concat rs) j)"
    using assms(3) by (simp add: link_stream_def)
  have "fst x \<noteq> length bs" if x: "x \<in> set (concat rs)" for x
    using link_stream_packet(1) [OF assms(2-4), of "fst x" "snd x"] x by simp
  then show "length (seq_packets (concat rs) (length bs)) < m"
    using assms(1) seq_packets_empty [of "concat rs" "length bs"] by simp
qed

section \<open>Reblocking and decoding\<close>

text \<open>Enough packets of one block decode to it.\<close>

lemma seq_packets_mem: "p \<in> set (seq_packets aps j) \<Longrightarrow> (j, p) \<in> set aps"
  by (auto simp: seq_packets_def)

lemma distinct_seq_packets: "distinct aps \<Longrightarrow> distinct (seq_packets aps j)"
  by (auto simp: seq_packets_def distinct_map inj_on_def)

lemma seq_part_decodes:
  assumes "codec_ok lib rq m" and "link_stream m (block_calls lib rq c bs) rs" and "full_blocks rq bs"
    and "j < length bs" and "seq_part m (concat rs) c j out" and "de_lib E = lib" and "de_rq E = rq"
  shows "\<exists>msg. out = To_Decode msg \<and> decodes_to E msg (c + of_nat j) (Block_serialized (bs ! j))"
proof -
  from assms(5) obtain qs where qs: "out = To_Decode (Reassembled_Block (c + of_nat j) qs)" "m \<le> length qs"
    "prefix qs (seq_packets (concat rs) j)" by (auto simp: seq_part_def)
  have "distinct (seq_packets (concat rs) j)"
    using assms(2) by (intro distinct_seq_packets) (simp add: link_stream_def)
  then have d: "distinct qs" using qs(3) by (auto elim: prefixE)
  have "set qs \<subseteq> set (RaptorQ_encode lib rq (c + of_nat j) (Block_serialized (bs ! j)))"
  proof
    fix q
    assume "q \<in> set qs"
    then have "q \<in> set (seq_packets (concat rs) j)" using qs(3) by (auto dest!: set_mono_prefix)
    from link_stream_packet(2) [OF assms(1-3) seq_packets_mem [OF this]]
    show "q \<in> set (RaptorQ_encode lib rq (c + of_nat j) (Block_serialized (bs ! j)))" .
  qed
  then have "RaptorQ_decode lib rq (c + of_nat j) qs = Some (Block_serialized (bs ! j))"
    using assms(1) d qs(2) full_blocks_nth [OF assms(3,4)] unfolding codec_ok_def by blast
  then show ?thesis using qs(1) assms(6,7) by (simp add: decodes_to_def)
qed

lemma seq_parts_decode:
  assumes "codec_ok lib rq m" and "link_stream m (block_calls lib rq c bs) rs" and "full_blocks rq bs"
    and "list_all2 (seq_part m (concat rs) c) [0..<length bs] out" and "de_lib E = lib" and "de_rq E = rq"
  shows "\<exists>ms. out = map To_Decode ms \<and> length ms = length bs \<and>
    (\<forall>j < length bs. decodes_to E (ms ! j) (c + of_nat j) (Block_serialized (bs ! j)))"
proof -
  have len: "length out = length bs" and "\<And>j. j < length bs \<Longrightarrow> seq_part m (concat rs) c j (out ! j)"
    using assms(4) by (auto simp: list_all2_conv_all_nth)
  then have "\<forall>j < length bs. \<exists>msg. out ! j = To_Decode msg \<and> decodes_to E msg (c + of_nat j) (Block_serialized (bs ! j))"
    using seq_part_decodes [OF assms(1-3) _ _ assms(5,6)] by blast
  then obtain f where f: "\<forall>j < length bs. out ! j = To_Decode (f j) \<and>
      decodes_to E (f j) (c + of_nat j) (Block_serialized (bs ! j))" by metis
  have "out = map To_Decode (map f [0..<length bs])" using len f by (auto intro!: nth_equalityI)
  then show ?thesis using f by (intro exI [of _ "map f [0..<length bs]"]) simp
qed

lemma stream_reblocked:
  assumes "min_nb_packets ovf rq = (Ok mn :: (u16, receive_error) outcome)" and "0 < unat mn"
    and "codec_ok lib rq (unat mn)" and "link_stream (unat mn) (block_calls lib rq c bs) rs" and "full_blocks rq bs"
    and "map datagram_list dss = map (datagrams_of lib) rs" and "de_lib E = lib" and "de_rq E = rq"
  shows "\<exists>st ms. reblock_start lib ovf rq (map Recv_Datagrams dss) =
      Some (Ok (st, Set_Block_To_Dispatch c # map To_Decode ms)) \<and> length ms = length bs \<and>
    (\<forall>j < length bs. decodes_to E (ms ! j) (c + of_nat j) (Block_serialized (bs ! j)))"
proof -
  let ?m = "unat mn"
  have ne: "rs \<noteq> []" "hd rs \<noteq> []" "fst (hd (hd rs)) = 0" and reach: "in_reach ?m [] rs"
    using assms(4) by (simp_all add: link_stream_def)
  note rec = link_stream_receptions [OF assms(3-6)] and num = link_stream_numbered [OF assms(3-5)]
  from stream_run [OF rb_inv_init reblock_init_reset assms(2) ne rec num reach] obtain st out where
    run: "reblock_run lib ?m (map Recv_Datagrams dss) reblock_init = Some (Ok (st, Set_Block_To_Dispatch c # out))"
    and parts: "list_all2 (seq_part ?m (concat rs) c) [0..<stream_head ?m (concat rs)] out" by blast
  from seq_parts_decode [OF assms(3-5) parts [unfolded link_stream_head [OF assms(2-5)]] assms(7,8)] obtain ms where
    ms: "out = map To_Decode ms" "length ms = length bs"
    "\<forall>j < length bs. decodes_to E (ms ! j) (c + of_nat j) (Block_serialized (bs ! j))" by blast
  have "reblock_start lib ovf rq (map Recv_Datagrams dss) = Some (Ok (st, Set_Block_To_Dispatch c # map To_Decode ms))"
    using run assms(1) by (simp add: reblock_start_def ms(1))
  with ms show ?thesis by blast
qed

text \<open>
  The decoding threads at work while the reblock worker sends: the messages \<open>os\<close> are sent one by one, and
  the threads may move at any time.
\<close>

inductive decode_feed :: "('plan, 'config, 'pkt) decode_env \<Rightarrow> 'pkt reblock_output list \<Rightarrow> 'pkt decode_pipe \<Rightarrow>
    'pkt decode_pipe \<Rightarrow> bool" for E where
  finish: "decode_feed E [] s s"
| push: "decode_feed E os (reblock_effect out s) t \<Longrightarrow> decode_feed E (out # os) s t"
| work: "decode_internal E s u \<Longrightarrow> decode_feed E os u t \<Longrightarrow> decode_feed E os s t"

inductive_simps decode_feed_Nil: "decode_feed E [] s t"
inductive_simps decode_feed_Cons: "decode_feed E (out # os) s t"

lemma feed_internal: "(decode_internal E)\<^sup>*\<^sup>* s t \<Longrightarrow> decode_feed E [] s t"
  by (induction rule: converse_rtranclp_induct) (auto intro: decode_feed.intros)

lemma feed_fold: "decode_feed E [] (fold reblock_effect os s) t \<Longrightarrow> decode_feed E os s t"
  by (induction os arbitrary: s) (auto intro: decode_feed.intros)

lemma feed_reaches:
  assumes "decode_feed E os s t" and "os = map To_Decode ms" and "decode_reachable E c s" and "length bs = length ms"
    and "\<forall>j < length ms. decodes_to E (ms ! j) (next_number c s + of_nat j) (bs ! j)"
  shows "decode_reachable E c t \<and> all_blocks E t = all_blocks E s @ bs"
  using assms
proof (induction arbitrary: ms bs rule: decode_feed.induct)
  case (finish s)
  then show ?case by simp
next
  case (push os out s t)
  obtain m ms' where ms: "ms = m # ms'" "out = To_Decode m" "os = map To_Decode ms'" using push.prems(1) by auto
  obtain b bs' where bs: "bs = b # bs'" "length bs' = length ms'" using push.prems(3) ms(1) by (cases bs) auto
  let ?u = "reblock_effect out s"
  have m: "decodes_to E m (next_number c s) b" using push.prems(4) by (auto simp: ms bs)
  have "decode_trans E c s ?u" unfolding ms(2) by (rule decode_trans.push [OF m])
  then have r: "decode_reachable E c ?u" using push.prems(2) by (rule rtranclp.rtrancl_into_rtrancl [rotated])
  have n: "next_number c ?u = next_number c s + 1" by (simp add: ms(2) next_number_def)
  have d: "\<forall>j < length ms'. decodes_to E (ms' ! j) (next_number c ?u + of_nat j) (bs' ! j)"
  proof (intro allI impI)
    fix j
    assume "j < length ms'"
    then show "decodes_to E (ms' ! j) (next_number c ?u + of_nat j) (bs' ! j)"
      using push.prems(4) [rule_format, of "Suc j"] unfolding n by (simp add: ms(1) bs(1) add.assoc)
  qed
  have "payload_of E m = b" using m by (auto simp: decodes_to_def payload_of_def split: reassembled.splits)
  then have "all_blocks E ?u = all_blocks E s @ [b]" by (simp add: ms(2) all_blocks_def)
  with push.IH [OF ms(3) r bs(2) d] show ?case by (simp add: bs(1))
next
  case (work s u os t)
  have "(decode_internal E ^^ 1) s u" using work.hyps(1) by auto
  from decode_internal_run [OF this work.prems(2)] have r: "decode_reachable E c u" "all_blocks E u = all_blocks E s" by auto
  have nn: "next_number c v = c + of_nat (length (all_blocks E v))" for v
    by (simp add: next_number_def all_blocks_def)
  have "next_number c u = next_number c s" by (simp add: nn r(2))
  with work.IH [OF work.prems(1) r(1) work.prems(3)] work.prems(4) r(2) show ?case by simp
qed

text \<open>Nothing can happen before the counter is set.\<close>

lemma feed_start: "decode_feed E (Set_Block_To_Dispatch c # os) (decode_init E k) t \<Longrightarrow> decode_feed E os (decode_init E c) t"
proof -
  have idle: "\<not> decode_internal E (decode_init E k) u" for u
    by (auto simp: decode_init_def decode_step_def elim!: decode_internalE split: if_splits)
  have set: "reblock_effect (Set_Block_To_Dispatch c) (decode_init E k) = decode_init E c" by (simp add: decode_init_def)
  assume "decode_feed E (Set_Block_To_Dispatch c # os) (decode_init E k) t"
  then show ?thesis
    unfolding decode_feed_Cons [of E "Set_Block_To_Dispatch c" os "decode_init E k" t] set using idle by blast
qed

lemma feed_settles:
  assumes "length bs = length ms" and "\<forall>j < length ms. decodes_to E (ms ! j) (c + of_nat j) (bs ! j)"
    and "0 < unat (de_threads E)"
    and "decode_feed E (Set_Block_To_Dispatch c # map To_Decode ms) (decode_init E k) t"
    and "\<not> (\<exists>u. decode_internal E t u)"
  shows "disp_q t = map (Some \<circ> Block_deserialize) bs"
proof -
  have n: "next_number c (decode_init E c) = c" "all_blocks E (decode_init E c) = []"
    by (simp_all add: next_number_def decode_init_def all_blocks_def)
  have "decode_reachable E c t \<and> all_blocks E t = all_blocks E (decode_init E c) @ bs"
    using feed_reaches [OF feed_start [OF assms(4)] refl _ assms(1), of c] assms(2) by (simp add: n)
  then have t: "decode_reachable E c t" "all_blocks E t = bs" by (simp_all add: n)
  then show ?thesis using decode_progress [OF t(1) assms(3)] assms(5) decode_pending_zero [OF t(1)] by auto
qed

lemma feed_rests:
  assumes "length bs = length ms" and "\<forall>j < length ms. decodes_to E (ms ! j) (c + of_nat j) (bs ! j)"
  shows "\<exists>t. decode_feed E (Set_Block_To_Dispatch c # map To_Decode ms) (decode_init E k) t \<and> \<not> (\<exists>u. decode_internal E t u)"
proof -
  have f: "fold reblock_effect (Set_Block_To_Dispatch c # map To_Decode ms) (decode_init E k) = decode_queued E c ms"
  proof -
    have "fold reblock_effect (map To_Decode ms) s = s\<lparr>dec_q := dec_q s @ ms\<rparr>" for s
      by (induction ms arbitrary: s) simp_all
    then show ?thesis by (simp add: decode_queued_def decode_init_def)
  qed
  have "decode_reachable E c (decode_queued E c ms)" using assms(2) by (intro decode_queued_reachable) blast
  from decode_quiesces [OF this] obtain t where t: "(decode_internal E)\<^sup>*\<^sup>* (decode_queued E c ms) t"
    "\<not> (\<exists>u. decode_internal E t u)" by blast
  then show ?thesis using feed_fold feed_internal f by metis
qed

section \<open>Through the UDP worker\<close>

text \<open>The kernel hands the datagrams of the network to the UDP worker, reception by reception.\<close>

definition network_calls :: "('plan, 'config, 'pkt) raptorq_lib \<Rightarrow> u16 \<Rightarrow> u32 option \<Rightarrow>
    (nat \<times> 'pkt) list list \<Rightarrow> sys_recv list \<Rightarrow> bool" where
  "network_calls lib mtu batch rs syss \<longleftrightarrow>
     list_all (sys_recv_ok mtu (socket_capacity (Receive_new mtu batch))) syss \<and>
     map sr_datagrams syss = map (datagrams_of lib) rs \<and>
     list_all (\<lambda>(j, p). length (lib_serialize lib p) \<le> unat mtu) (concat rs)"

lemma network_receptions:
  assumes "network_calls lib mtu batch rs syss"
  shows "snd (udp_receive_loop syss (Receive_new mtu batch)) = None"
    and "map datagram_list (fst (udp_receive_loop syss (Receive_new mtu batch))) = map (datagrams_of lib) rs"
proof -
  let ?n = "unat mtu" and ?u = "udp_receive_loop syss (Receive_new mtu batch)"
  from assms have u: "snd ?u = None \<and> map datagram_list (fst ?u) = map (map (take ?n) \<circ> sr_datagrams) syss"
    by (intro udp_receive_loop_delivers Receive_new_wf) (simp add: network_calls_def)
  then show "snd ?u = None" ..
  from assms have rs: "map sr_datagrams syss = map (datagrams_of lib) rs" by (simp add: network_calls_def)
  have "map (take ?n) (datagrams_of lib r) = datagrams_of lib r" if "r \<in> set rs" for r
  proof -
    have "length (lib_serialize lib (snd x)) \<le> ?n" if "x \<in> set r" for x
      using assms that \<open>r \<in> set rs\<close> by (fastforce simp: network_calls_def list_all_iff)
    then show ?thesis by (auto simp: datagrams_of_def)
  qed
  then have cut: "map (map (take ?n)) (map (datagrams_of lib) rs) = map (datagrams_of lib) rs" by simp
  have "map datagram_list (fst ?u) = map (map (take ?n)) (map sr_datagrams syss)"
    using u by (simp only: list.map_comp)
  then show "map datagram_list (fst ?u) = map (datagrams_of lib) rs" unfolding rs cut .
qed

lemma stream_dispatched:
  assumes "min_nb_packets ovf rq = (Ok mn :: (u16, receive_error) outcome)" and "0 < unat mn"
    and "codec_ok lib rq (unat mn)" and "link_stream (unat mn) (block_calls lib rq c bs) rs" and "full_blocks rq bs"
    and "network_calls lib mtu batch rs syss" and "de_lib E = lib" and "de_rq E = rq" and "0 < unat (de_threads E)"
  shows "snd (udp_receive_loop syss (Receive_new mtu batch)) = None \<and>
    (\<exists>st out. reblock_start lib ovf rq (map Recv_Datagrams (fst (udp_receive_loop syss (Receive_new mtu batch)))) =
        Some (Ok (st, out)) \<and>
      (\<exists>t. decode_feed E out (decode_init E 0) t \<and> \<not> (\<exists>u. decode_internal E t u)) \<and>
      (\<forall>t. decode_feed E out (decode_init E 0) t \<longrightarrow> \<not> (\<exists>u. decode_internal E t u) \<longrightarrow> disp_q t = map Some bs))"
proof -
  note net = network_receptions [OF assms(6)]
  from stream_reblocked [OF assms(1-5) net(2) assms(7,8)] obtain st ms where
    run: "reblock_start lib ovf rq (map Recv_Datagrams (fst (udp_receive_loop syss (Receive_new mtu batch)))) =
      Some (Ok (st, Set_Block_To_Dispatch c # map To_Decode ms))"
    and ms: "length (map Block_serialized bs) = length ms"
      "\<forall>j < length ms. decodes_to E (ms ! j) (c + of_nat j) (map Block_serialized bs ! j)" by auto
  have "Some \<circ> Block_deserialize \<circ> Block_serialized = Some"
    by (auto simp: Block_serialized_def Block_deserialize_def)
  then have "map (Some \<circ> Block_deserialize) (map Block_serialized bs) = map Some bs" by simp
  then have "\<forall>t. decode_feed E (Set_Block_To_Dispatch c # map To_Decode ms) (decode_init E 0) t \<longrightarrow>
      \<not> (\<exists>u. decode_internal E t u) \<longrightarrow> disp_q t = map Some bs"
    using feed_settles [OF ms assms(9)] by auto
  with run feed_rests [OF ms, of 0] net(1) show ?thesis by blast
qed

section \<open>One window\<close>

text \<open>
  The special case of at most 127 blocks: there the network need not be described by the indices of the
  blocks, since they can be read off the packets. \<open>ps\<close> is what the link delivers of the blocks \<open>bs\<close>,
  numbered from \<open>c\<close>.
\<close>

definition link_delivers :: "('plan, 'config, 'pkt) raptorq_lib \<Rightarrow> ('plan, 'config) RaptorQ \<Rightarrow> nat \<Rightarrow> u8 \<Rightarrow>
    Block list \<Rightarrow> 'pkt list \<Rightarrow> bool" where
  "link_delivers lib rq m c bs ps \<longleftrightarrow>
     distinct ps \<and> ps \<noteq> [] \<and> lib_source_block_number lib (hd ps) = c \<and>
     (\<forall>p \<in> set ps. \<exists>j < length bs. p \<in> set (RaptorQ_encode lib rq (c + of_nat j) (Block_serialized (bs ! j)))) \<and>
     (\<forall>j < length bs. m \<le> length (block_packets lib ps (c + of_nat j)))"

lemma link_packet:
  assumes "codec_ok lib rq m" and "link_delivers lib rq m c bs ps" and "length bs \<le> 127"
    and "full_blocks rq bs" and "p \<in> set ps"
  shows "\<exists>j < length bs. window_index lib c p = (j, p) \<and>
    p \<in> set (RaptorQ_encode lib rq (c + of_nat j) (Block_serialized (bs ! j))) \<and>
    lib_deserialize lib (lib_serialize lib p) = Some p"
proof -
  from assms(2,5) obtain j where j: "j < length bs"
    "p \<in> set (RaptorQ_encode lib rq (c + of_nat j) (Block_serialized (bs ! j)))"
    by (auto simp: link_delivers_def)
  then have "lib_source_block_number lib p = c + of_nat j" "lib_deserialize lib (lib_serialize lib p) = Some p"
    using assms(1) full_blocks_nth [OF assms(4)] unfolding codec_ok_def by blast+
  with j assms(3) show ?thesis by (auto simp: window_index_def unat_of_nat_small)
qed

text \<open>The receptions, with the indices read off the packets.\<close>

definition index_receptions :: "('plan, 'config, 'pkt) raptorq_lib \<Rightarrow> u8 \<Rightarrow> byte list list list \<Rightarrow> (nat \<times> 'pkt) list list" where
  "index_receptions lib c dss = map (map (window_index lib c \<circ> the \<circ> lib_deserialize lib)) dss"

lemma window_stream:
  assumes "codec_ok lib rq m" and "0 < m" and "link_delivers lib rq m c bs ps" and "length bs \<le> 127" and "full_blocks rq bs"
    and "concat dss = map (lib_serialize lib) ps" and "dss \<noteq> []" and "hd dss \<noteq> []"
  shows "link_stream m (block_calls lib rq c bs) (index_receptions lib c dss)"
    and "map (datagrams_of lib) (index_receptions lib c dss) = dss"
    and "concat (index_receptions lib c dss) = map (window_index lib c) ps"
proof -
  let ?rs = "index_receptions lib c dss"
  note pk = link_packet [OF assms(1,3,4,5)]
  have de: "map (the \<circ> lib_deserialize lib) (map (lib_serialize lib) ps) = ps"
    using pk by (fastforce intro: map_idI)
  have "concat ?rs = map (window_index lib c) (map (the \<circ> lib_deserialize lib) (concat dss))"
    by (simp add: index_receptions_def map_concat comp_assoc)
  also have "\<dots> = map (window_index lib c) ps" unfolding assms(6) de ..
  finally show cat: "concat ?rs = map (window_index lib c) ps" .
  have "lib_serialize lib (the (lib_deserialize lib d)) = d" if "ds \<in> set dss" "d \<in> set ds" for ds d
  proof -
    have "d \<in> set (concat dss)" using that by auto
    then obtain p where "p \<in> set ps" "d = lib_serialize lib p" unfolding assms(6) by auto
    then show ?thesis using pk by force
  qed
  then show "map (datagrams_of lib) ?rs = dss"
    by (auto simp: index_receptions_def datagrams_of_def window_index_def intro!: map_idI)
  have ne: "?rs \<noteq> []" "hd ?rs \<noteq> []" using assms(7,8) by (cases dss; simp add: index_receptions_def)+
  then have "hd (hd ?rs) = hd (concat ?rs)" by (cases ?rs; cases "hd ?rs") auto
  also have "\<dots> = window_index lib c (hd ps)" unfolding cat using assms(3) by (simp add: link_delivers_def hd_map)
  finally have "fst (hd (hd ?rs)) = 0" using assms(3) by (simp add: window_index_def link_delivers_def)
  moreover have "distinct (concat ?rs)"
    unfolding cat using assms(3) by (auto simp: link_delivers_def distinct_map inj_on_def window_index_def)
  moreover have idx: "\<forall>x \<in> set (concat ?rs). \<exists>j < length bs. \<exists>p. x = (j, p) \<and> p \<in> set (block_calls lib rq c bs ! j)"
    unfolding cat using pk by fastforce
  then have "in_reach m [] ?rs"
    using assms(4) by (intro window_in_reach [OF assms(2)]) fastforce
  moreover have "list_all (\<lambda>(j, p). j < length (block_calls lib rq c bs) \<and> p \<in> set (block_calls lib rq c bs ! j)) (concat ?rs)"
    unfolding list_all_iff using idx by fastforce
  moreover have "seq_packets (concat ?rs) j = block_packets lib ps (c + of_nat j)" if "j < length bs" for j
    unfolding cat using that assms(4) by (intro seq_window) simp
  then have "\<forall>j < length (block_calls lib rq c bs). m \<le> length (seq_packets (concat ?rs) j)"
    using assms(3) by (simp add: link_delivers_def)
  ultimately show "link_stream m (block_calls lib rq c bs) ?rs" using ne by (simp add: link_stream_def)
qed

theorem blocks_cross_link:
  assumes "min_nb_packets ovf rq = (Ok mn :: (u16, receive_error) outcome)" and "0 < unat mn"
    and "codec_ok lib rq (unat mn)" and "link_delivers lib rq (unat mn) c bs ps"
    and "length bs \<le> 127" and "full_blocks rq bs"
    and "list_all (sys_recv_ok mtu (socket_capacity (Receive_new mtu batch))) syss"
    and "concat (map sr_datagrams syss) = map (lib_serialize lib) ps"
    and "\<forall>p \<in> set ps. length (lib_serialize lib p) \<le> unat mtu"
    and "syss \<noteq> []" and "sr_datagrams (hd syss) \<noteq> []"
    and "de_lib E = lib" and "de_rq E = rq" and "0 < unat (de_threads E)"
  shows "snd (udp_receive_loop syss (Receive_new mtu batch)) = None \<and>
    (\<exists>st out. reblock_start lib ovf rq (map Recv_Datagrams (fst (udp_receive_loop syss (Receive_new mtu batch)))) =
        Some (Ok (st, out)) \<and>
      (\<forall>t. (decode_internal E)\<^sup>*\<^sup>* (fold reblock_effect out (decode_init E 0)) t \<longrightarrow>
         \<not> (\<exists>u. decode_internal E t u) \<longrightarrow> disp_q t = map Some bs))"
proof -
  let ?rs = "index_receptions lib c (map sr_datagrams syss)"
  have ne: "map sr_datagrams syss \<noteq> []" "hd (map sr_datagrams syss) \<noteq> []" using assms(10,11) by (simp_all add: hd_map)
  note w = window_stream [OF assms(3,2,4,5,6,8) ne]
  have "network_calls lib mtu batch ?rs syss"
    unfolding network_calls_def w(2,3) using assms(7,9) by (simp add: list_all_iff window_index_def)
  from stream_dispatched [OF assms(1,2,3) w(1) assms(6) this assms(12-14)] show ?thesis
    using feed_fold feed_internal by blast
qed

section \<open>Properties\<close>

text \<open>The repetition code keeps the promise with one packet, whatever the length of the transfer.\<close>

definition sample_rq :: "u32 \<Rightarrow> (unit, unit) RaptorQ" where
  "sample_rq n = small_rq\<lparr>transfer_length := n\<rparr>"

lemma sample_rq_simps [simp]: "transfer_length (sample_rq n) = n" "nb_repair_packets (sample_rq n) = 0"
  by (simp_all add: sample_rq_def)

lemma repetition_encode [simp]: "RaptorQ_encode repetition_lib (sample_rq n) k d = [(k, d)]"
  by (simp add: RaptorQ_encode_def repetition_lib_def)

lemma repetition_codec: "codec_ok repetition_lib (sample_rq n) 1"
proof -
  have "RaptorQ_decode repetition_lib (sample_rq n) k qs = Some d"
    if "set qs \<subseteq> {(k, d)}" "1 \<le> length qs" for k d and qs :: "(u8 \<times> byte list) list"
    using that by (cases qs) auto
  then show ?thesis by (simp add: codec_ok_def) (simp add: repetition_lib_def)
qed

lemma sample_min_packets: "min_nb_packets True (sample_rq n) = Ok 1"
  by (simp add: min_nb_packets_def sample_rq_def add_ck_def)

text \<open>A network that delivers the one packet of each block, in order, one datagram at a time.\<close>

definition each_once :: "u8 \<Rightarrow> Block list \<Rightarrow> (nat \<times> u8 \<times> byte list) list list" where
  "each_once c bs = map (\<lambda>j. [(j, c + of_nat j, Block_serialized (bs ! j))]) [0..<length bs]"

definition once_calls :: "u8 \<Rightarrow> Block list \<Rightarrow> sys_recv list" where
  "once_calls c bs = map (\<lambda>r. \<lparr>sr_ret = 1, sr_datagrams = datagrams_of repetition_lib r\<rparr>) (each_once c bs)"

lemma concat_each_once:
  "concat (each_once c bs) = map (\<lambda>j. (j, c + of_nat j, Block_serialized (bs ! j))) [0..<length bs]"
  by (simp add: each_once_def concat_map_singleton)

lemma once_link:
  assumes "bs \<noteq> []"
  shows "link_stream 1 (block_calls repetition_lib (sample_rq n) c bs) (each_once c bs)"
proof -
  let ?f = "\<lambda>j. (c + of_nat j, Block_serialized (bs ! j))"
  have s: "seq_packets (map (\<lambda>j. (j, ?f j)) [0..<m]) j = (if j < m then [?f j] else [])" for j m
    by (induction m) (auto simp: less_Suc_eq)
  have "in_reach 1 [] (each_once c bs)"
    using plain_in_reach [of ?f 0 "length bs"] by (simp add: each_once_def)
  moreover have "each_once c bs \<noteq> []" "hd (each_once c bs) \<noteq> []" "fst (hd (hd (each_once c bs))) = 0"
    using assms by (simp_all add: each_once_def hd_map)
  ultimately show ?thesis
    by (simp add: link_stream_def concat_each_once s list_all_iff distinct_map inj_on_def)
qed

lemma once_network:
  assumes "full_blocks (sample_rq n) bs" and "unat n < unat mtu"
  shows "network_calls repetition_lib mtu (Some 4) (each_once c bs) (once_calls c bs)"
proof -
  have "\<forall>j < length bs. length (Block_serialized (bs ! j)) < unat mtu"
    using full_blocks_nth [OF assms(1)] assms(2) by simp
  then show ?thesis
    by (auto simp: network_calls_def once_calls_def each_once_def comp_def list_all_iff datagrams_of_def
        sys_recv_ok_def Receive_new_def ReceiveMmsg_new_def repetition_lib_def)
qed



text \<open>
  C16. What a failed decoding leaves behind can take the place of a later block: when block \<open>k\<close> does not
  decode, block \<open>k + 1\<close> is held by its thread; after the timeout that follows, when the counter reaches
  \<open>k + 1\<close> again (here at once), the held block can be passed to the dispatch worker in the place of the
  new block of that number, which is then held in its turn, so that a block of the old stream is
  dispatched within the new one and a block of the new one is missing from it.
\<close>

theorem stale_block_dispatched:
  assumes "RaptorQ_decode (de_lib E) (de_rq E) k bad = None"
    and "RaptorQ_decode (de_lib E) (de_rq E) (k + 1) old_packets = Some old_block"
    and "RaptorQ_decode (de_lib E) (de_rq E) (k + 1) new_packets = Some new_block"
    and "2 \<le> unat (de_threads E)"
  shows "\<exists>t. decode_feed E [Set_Block_To_Dispatch k, To_Decode (Reassembled_Block k bad),
        To_Decode (Reassembled_Block (k + 1) old_packets), Set_Block_To_Dispatch (k + 1),
        To_Decode (Reassembled_Block (k + 1) new_packets)] (decode_init E 0) t \<and>
    disp_q t = [None, Some (Block_deserialize old_block)] \<and> Holding (k + 1) new_block \<in> set (decs t) \<and>
    \<not> (\<exists>u. decode_internal E t u)"
proof -
  let ?w = "replicate (unat (de_threads E)) Waiting :: byte list worker list"
  define s :: "'c reassembled list \<Rightarrow> byte list worker list \<Rightarrow> u8 \<Rightarrow> Block option list \<Rightarrow> byte list list \<Rightarrow> 'c decode_pipe"
    where "s q ws c d h = \<lparr>dec_q = q, decs = ws, block_to_dispatch = c, disp_q = d, decoded = h\<rparr>" for q ws c d h
  let ?t = "s [] (?w[1 := Holding (k + 1) new_block]) (k + 2) [None, Some (Block_deserialize old_block)] [old_block, new_block]"
  have n: "0 < unat (de_threads E)" "1 < unat (de_threads E)" using assms(4) by simp_all
  have w: "?w[0 := Holding j b, 1 := x, 0 := Waiting] = ?w[1 := x]" for j b x
    using n by (auto intro!: nth_equalityI simp: nth_list_update)
  have "decode_step E 0 (s [Reassembled_Block k bad] ?w k [] []) = Some (s [] ?w k [None] [])"
    using assms(1) n by (simp add: decode_step_def s_def)
  then have 1: "decode_internal E (s [Reassembled_Block k bad] ?w k [] []) (s [] ?w k [None] [])"
    by (rule decode_internal.worker)
  have "decode_step E 0 (s [Reassembled_Block (k + 1) old_packets] ?w k [None] []) =
      Some (s [] (?w[0 := Holding (k + 1) old_block]) k [None] [old_block])"
    using assms(2) n by (simp add: decode_step_def s_def)
  then have 2: "decode_internal E (s [Reassembled_Block (k + 1) old_packets] ?w k [None] [])
      (s [] (?w[0 := Holding (k + 1) old_block]) k [None] [old_block])"
    by (rule decode_internal.worker)
  let ?h = "?w[0 := Holding (k + 1) old_block]"
  have "decode_step E 1 (s [Reassembled_Block (k + 1) new_packets] ?h (k + 1) [None] [old_block]) =
      Some (s [] (?h[1 := Holding (k + 1) new_block]) (k + 1) [None] [old_block, new_block])"
    using assms(3) n by (simp add: decode_step_def s_def)
  then have 3: "decode_internal E (s [Reassembled_Block (k + 1) new_packets] ?h (k + 1) [None] [old_block])
      (s [] (?h[1 := Holding (k + 1) new_block]) (k + 1) [None] [old_block, new_block])"
    by (rule decode_internal.worker)
  have "decode_step E 0 (s [] (?h[1 := Holding (k + 1) new_block]) (k + 1) [None] [old_block, new_block]) = Some ?t"
    using n w by (simp add: decode_step_def s_def)
  then have 4: "decode_internal E (s [] (?h[1 := Holding (k + 1) new_block]) (k + 1) [None] [old_block, new_block]) ?t"
    by (rule decode_internal.worker)
  have ef: "reblock_effect (To_Decode m) (s [] ws c d h) = s [m] ws c d h"
    "reblock_effect (Set_Block_To_Dispatch c') (s [] ws c d h) = s [] ws c' d h" for m ws c c' d h
    by (simp_all add: s_def)
  have "decode_feed E [] ?t ?t" by (rule decode_feed.finish)
  note f = decode_feed.work [OF 3 decode_feed.work [OF 4 this]]
  have "decode_feed E [Set_Block_To_Dispatch (k + 1), To_Decode (Reassembled_Block (k + 1) new_packets)]
      (s [] ?h k [None] [old_block]) ?t"
    by (rule decode_feed.push, unfold ef, rule decode_feed.push, unfold ef, rule f)
  note f = decode_feed.work [OF 2 this]
  have "decode_feed E [To_Decode (Reassembled_Block (k + 1) old_packets), Set_Block_To_Dispatch (k + 1),
      To_Decode (Reassembled_Block (k + 1) new_packets)] (s [] ?w k [None] []) ?t"
    by (rule decode_feed.push, unfold ef, rule f)
  note f = decode_feed.work [OF 1 this]
  have "decode_feed E [Set_Block_To_Dispatch k, To_Decode (Reassembled_Block k bad),
        To_Decode (Reassembled_Block (k + 1) old_packets), Set_Block_To_Dispatch (k + 1),
        To_Decode (Reassembled_Block (k + 1) new_packets)] (s [] ?w 0 [] []) ?t"
    by (rule decode_feed.push, unfold ef, rule decode_feed.push, unfold ef, rule f)
  moreover have "s [] ?w 0 [] [] = decode_init E 0" by (simp add: s_def decode_init_def)
  moreover have "decode_step E i ?t = None" for i
    by (cases "i < unat (de_threads E)"; cases "i = 1") (simp_all add: s_def decode_step_def)
  then have "\<not> decode_internal E ?t u" for u by (auto elim!: decode_internalE)
  moreover have "Holding (k + 1) new_block \<in> set (decs ?t)"
    using n by (auto simp: s_def set_update_memI)
  ultimately show ?thesis by (intro exI [of _ ?t]) (simp add: s_def)
qed

theorem stale_block_dispatched_witness:
  "\<exists>t. decode_feed (demo_decode_env 2) [Set_Block_To_Dispatch 7, To_Decode (Reassembled_Block 7 []),
        To_Decode (Reassembled_Block 8 [(8, [1])]), Set_Block_To_Dispatch 8,
        To_Decode (Reassembled_Block 8 [(8, [2])])] (decode_init (demo_decode_env 2) 0) t \<and>
    disp_q t = [None, Some (Block_deserialize [1])]"
  using stale_block_dispatched [of "demo_decode_env 2" 7 "[]" "[(8, [1])]" "[1]" "[(8, [2])]" "[2]"] by auto

end
