(* ===== verification/Dispatch.thy ===== *)
theory Dispatch
  imports Receive_Config "HOL-Library.AList"
begin

text \<open>
  The dispatch worker of the receiver (\<open>src/receive/dispatch.rs\<close>): it routes the decoded blocks to
  the client workers, one unbounded channel per transfer. The two hash maps from client identifiers
  to channel senders are association lists; a sender is the index of its channel. The order of
  \<open>HashMap\<close> iteration, which matters only for the transfers that have got their \<open>Abort\<close> block when an
  error ends the loop, is the order of the list.
\<close>

section \<open>Channels\<close>

text \<open>
  \<open>ch_queue\<close> holds the blocks in transit, \<open>ch_alive\<close> says that the receiving end exists, and \<open>ch_log\<close>
  is a history: all blocks sent. When the receiving end is dropped the blocks in transit are discarded.
\<close>

record chan =
  ch_queue :: "Block list"
  ch_alive :: bool
  ch_log :: "Block list"

definition new_chan :: chan where
  "new_chan = \<lparr>ch_queue = [], ch_alive = True, ch_log = []\<rparr>"

definition chan_push :: "Block \<Rightarrow> chan \<Rightarrow> chan" where
  "chan_push b ch = ch\<lparr>ch_queue := ch_queue ch @ [b], ch_log := ch_log ch @ [b]\<rparr>"

text \<open>
  The worker's state: the two maps, the channels opened so far, the messages sent to the client
  workers, the time of the last heartbeat and the number of warnings logged for a missing one.
\<close>

record dispatch =
  active_transfers :: "(u32 \<times> nat) list"
  ended_transfers :: "(u32 \<times> nat) list"
  chans :: "chan list"
  to_clients :: "(u32 \<times> nat) list"
  last_heartbeat :: nat
  hb_warnings :: nat

definition dispatch_init :: "nat \<Rightarrow> dispatch" where
  "dispatch_init now = \<lparr>active_transfers = [], ended_transfers = [], chans = [], to_clients = [],
     last_heartbeat = now, hb_warnings = 0\<rparr>"

text \<open>\<open>Sender::send\<close>: \<open>None\<close> if the receiving end is gone.\<close>

definition chan_send :: "nat \<Rightarrow> Block \<Rightarrow> dispatch \<Rightarrow> dispatch option" where
  "chan_send h b s =
     (if ch_alive (chans s ! h) then Some (s\<lparr>chans := (chans s)[h := chan_push b (chans s ! h)]\<rparr>) else None)"

section \<open>The loop body\<close>

text \<open>Synchronization lost: every active transfer gets an \<open>Abort\<close> block and is forgotten.\<close>

fun abort_transfers :: "('plan, 'config) RaptorQ \<Rightarrow> (u32 \<times> nat) list \<Rightarrow> dispatch \<Rightarrow>
    (dispatch, receive_error) outcome" where
  "abort_transfers rq [] s = Ok s"
| "abort_transfers rq ((client_id, h) # rest) s =
     obind (omap_err R_Protocol (Block_new Abort rq client_id None)) (\<lambda>block.
     case chan_send h block s of
       Some s' \<Rightarrow> abort_transfers rq rest s'
     | None \<Rightarrow> abort_transfers rq rest s)"

definition dispatch_lost :: "('plan, 'config) RaptorQ \<Rightarrow> dispatch \<Rightarrow> (dispatch, receive_error) outcome" where
  "dispatch_lost rq s =
     obind (abort_transfers rq (active_transfers s) (s\<lparr>active_transfers := []\<rparr>)) (\<lambda>s'.
     Ok s')"

text \<open>A \<open>Start\<close> block opens a channel, in the place of an active one with the same identifier.\<close>

definition open_transfer :: "u32 \<Rightarrow> dispatch \<Rightarrow> dispatch" where
  "open_transfer client_id s =
     (let h = length (chans s) in
      s\<lparr>chans := chans s @ [new_chan],
        active_transfers := AList.update client_id h (active_transfers s),
        to_clients := to_clients s @ [(client_id, h)]\<rparr>)"

text \<open>The end of a transfer: purge the ended ones whose channel is empty, and keep this one's sender.\<close>

definition end_transfer :: "u32 \<Rightarrow> nat \<Rightarrow> dispatch \<Rightarrow> dispatch" where
  "end_transfer client_id h s =
     s\<lparr>active_transfers := AList.delete client_id (active_transfers s),
       ended_transfers := AList.update client_id h
         (filter (\<lambda>(c, g). ch_queue (chans s ! g) \<noteq> []) (ended_transfers s))\<rparr>"

text \<open>The second half of the loop body: send the block to the client, if its transfer is active.\<close>

definition forward_block :: "u32 \<Rightarrow> bool \<Rightarrow> Block \<Rightarrow> dispatch \<Rightarrow> dispatch" where
  "forward_block client_id will_end block s =
     (case map_of (active_transfers s) client_id of
        None \<Rightarrow> s
      | Some h \<Rightarrow>
          (case chan_send h block s of
             None \<Rightarrow> s\<lparr>active_transfers := AList.delete client_id (active_transfers s)\<rparr>
           | Some s' \<Rightarrow> if will_end then end_transfer client_id h s' else s'))"

definition dispatch_block :: "nat \<Rightarrow> Block \<Rightarrow> dispatch \<Rightarrow> (dispatch, receive_error) outcome" where
  "dispatch_block now block s =
     (case Block_block_type block of
        Err e \<Rightarrow> Ok s
      | Panic p \<Rightarrow> Panic p
      | Ok block_type \<Rightarrow>
          obind (Block_client_id block) (\<lambda>client_id.
          case block_type of
            Heartbeat \<Rightarrow> Ok (s\<lparr>last_heartbeat := now\<rparr>)
          | Start \<Rightarrow> Ok (forward_block client_id False block (open_transfer client_id s))
          | Data \<Rightarrow> Ok (forward_block client_id False block s)
          | Abort \<Rightarrow> Ok (forward_block client_id True block s)
          | End \<Rightarrow> Ok (forward_block client_id True block s)))"

text \<open>
  One iteration, given what \<open>recv\<close> or \<open>recv_timeout\<close> returned and the time. Without a heartbeat
  interval the worker blocks in \<open>recv\<close>, and a timeout cannot occur: \<open>None\<close>.
\<close>

datatype dispatch_input = Dispatch_Recv "Block option" | Dispatch_Timeout | Dispatch_Disconnected

definition dispatch_step :: "receive_config \<Rightarrow> ('plan, 'config) RaptorQ \<Rightarrow> nat \<Rightarrow> dispatch_input \<Rightarrow>
    dispatch \<Rightarrow> (dispatch, receive_error) outcome option" where
  "dispatch_step cfg rq now inp s =
     (case inp of
        Dispatch_Recv None \<Rightarrow> Some (dispatch_lost rq s)
      | Dispatch_Recv (Some block) \<Rightarrow> Some (dispatch_block now block s)
      | Dispatch_Timeout \<Rightarrow>
          (case heartbeat_interval cfg of
             None \<Rightarrow> None
           | Some hb \<Rightarrow> Some (Ok (if hb < now - last_heartbeat s
               then s\<lparr>hb_warnings := Suc (hb_warnings s)\<rparr> else s)))
      | Dispatch_Disconnected \<Rightarrow>
          Some (Err (case heartbeat_interval cfg of None \<Rightarrow> R_Receive | Some hb \<Rightarrow> R_Receive_Timeout RT_Disconnected)))"

text \<open>What the client workers do to a channel: receive a block, or drop the receiving end.\<close>

definition chan_take :: "nat \<Rightarrow> dispatch \<Rightarrow> (Block \<times> dispatch) option" where
  "chan_take h s =
     (case ch_queue (chans s ! h) of
        [] \<Rightarrow> None
      | b # q \<Rightarrow> Some (b, s\<lparr>chans := (chans s)[h := (chans s ! h)\<lparr>ch_queue := q\<rparr>]\<rparr>))"

definition chan_drop :: "nat \<Rightarrow> dispatch \<Rightarrow> dispatch" where
  "chan_drop h s = s\<lparr>chans := (chans s)[h := (chans s ! h)\<lparr>ch_queue := [], ch_alive := False\<rparr>]\<rparr>"

text \<open>The sending end of a channel exists as long as one of the two maps holds it.\<close>

definition chan_connected :: "nat \<Rightarrow> dispatch \<Rightarrow> bool" where
  "chan_connected h s \<longleftrightarrow> h \<in> set (map snd (active_transfers s)) \<union> set (map snd (ended_transfers s))"

section \<open>The invariant\<close>

text \<open>The transfers of a client, in the order in which they were opened.\<close>

definition transfers_of :: "u32 \<Rightarrow> dispatch \<Rightarrow> nat list" where
  "transfers_of c s = map snd (filter (\<lambda>(k, h). k = c) (to_clients s))"

definition disp_inv :: "dispatch \<Rightarrow> bool" where
  "disp_inv s \<longleftrightarrow>
     distinct (map fst (active_transfers s)) \<and> distinct (map fst (ended_transfers s)) \<and>
     map snd (to_clients s) = [0..<length (chans s)] \<and>
     (\<forall>c h. map_of (active_transfers s) c = Some h \<longrightarrow>
        transfers_of c s \<noteq> [] \<and> last (transfers_of c s) = h)"

lemma disp_inv_init: "disp_inv (dispatch_init now)"
  by (simp add: disp_inv_def dispatch_init_def)

lemma transfers_bound:
  assumes "disp_inv s" and "h \<in> set (transfers_of c s)"
  shows "h < length (chans s)" and "\<And>d. h \<in> set (transfers_of d s) \<Longrightarrow> d = c"
proof -
  have m: "map snd (to_clients s) = [0..<length (chans s)]" using assms(1) by (simp add: disp_inv_def)
  have "h \<in> set (map snd (to_clients s))" using assms(2) by (auto simp: transfers_of_def)
  then show "h < length (chans s)" unfolding m by simp
  have "distinct (map snd (to_clients s))" unfolding m by simp
  then show "d = c" if "h \<in> set (transfers_of d s)" for d
    using that assms(2) by (auto simp: transfers_of_def distinct_map inj_on_def)
qed

lemma transfers_distinct:
  assumes "disp_inv s"
  shows "distinct (transfers_of c s)"
proof -
  have m: "map snd (to_clients s) = [0..<length (chans s)]" using assms(1) by (simp add: disp_inv_def)
  then have "distinct (map snd (to_clients s))" by simp
  then show ?thesis by (simp add: transfers_of_def distinct_map_filter)
qed

lemma active_bound: "disp_inv s \<Longrightarrow> map_of (active_transfers s) c = Some h \<Longrightarrow> h < length (chans s)"
  using transfers_bound(1) [of s h c] by (force simp: disp_inv_def)

section \<open>One client's view\<close>

text \<open>
  What the worker does for one client: the logs of its transfers, and whether the last one is active.
  \<open>client_step\<close> says what a block of the client does to that; \<open>alive\<close> is whether the receiving end of
  the active transfer is still there.
\<close>

type_synonym client_state = "Block list list \<times> bool"

definition append_last :: "'b \<Rightarrow> 'b list list \<Rightarrow> 'b list list" where
  "append_last b logs = butlast logs @ [last logs @ [b]]"

fun client_step :: "bool \<Rightarrow> BlockType \<Rightarrow> Block \<Rightarrow> client_state \<Rightarrow> client_state" where
  "client_step alive Heartbeat b v = v"
| "client_step alive Start b (logs, opened) = (logs @ [[b]], True)"
| "client_step alive Data b (logs, opened) =
     (if opened \<and> alive then (append_last b logs, True) else (logs, False))"
| "client_step alive Abort b (logs, opened) = (if opened \<and> alive then append_last b logs else logs, False)"
| "client_step alive End b (logs, opened) = (if opened \<and> alive then append_last b logs else logs, False)"

definition client_view :: "u32 \<Rightarrow> dispatch \<Rightarrow> client_state" where
  "client_view c s = (map (\<lambda>h. ch_log (chans s ! h)) (transfers_of c s), map_of (active_transfers s) c \<noteq> None)"

definition receiving :: "u32 \<Rightarrow> dispatch \<Rightarrow> bool" where
  "receiving c s = (case map_of (active_transfers s) c of None \<Rightarrow> False | Some h \<Rightarrow> ch_alive (chans s ! h))"

lemma map_of_delete_iff: "map_of (AList.delete c al) d = (if d = c then None else map_of al d)"
  by (simp add: delete_conv)

lemma map_of_update_iff: "map_of (AList.update c h al) d = (if d = c then Some h else map_of al d)"
  by (simp add: update_conv)

lemma distinct_fst_delete: "distinct (map fst al) \<Longrightarrow> distinct (map fst (AList.delete c al))"
  by (rule distinct_delete)

lemma transfers_of_update [simp]:
  "transfers_of c (s\<lparr>active_transfers := a\<rparr>) = transfers_of c s"
  "transfers_of c (s\<lparr>ended_transfers := a\<rparr>) = transfers_of c s"
  "transfers_of c (s\<lparr>chans := cs\<rparr>) = transfers_of c s"
  "transfers_of c (s\<lparr>last_heartbeat := n\<rparr>) = transfers_of c s"
  "transfers_of c (s\<lparr>hb_warnings := n\<rparr>) = transfers_of c s"
  by (simp_all add: transfers_of_def)

lemma map_update_notin: "h \<notin> set hs \<Longrightarrow> map (\<lambda>g. f ((cs[h := x]) ! g)) hs = map (\<lambda>g. f (cs ! g)) hs"
  by (induction hs) auto

lemma map_update_last:
  assumes "distinct hs" and "hs \<noteq> []" and "last hs = h" and "h < length cs"
  shows "map (\<lambda>g. f ((cs[h := x]) ! g)) hs = butlast (map (\<lambda>g. f (cs ! g)) hs) @ [f x]"
proof -
  obtain gs where hs: "hs = gs @ [h]" using assms(2,3) by (metis append_butlast_last_id)
  then have "h \<notin> set gs" using assms(1) by simp
  then have "map (\<lambda>g. f ((cs[h := x]) ! g)) gs = map (\<lambda>g. f (cs ! g)) gs"
    by (rule map_update_notin)
  then show ?thesis using assms(4) by (simp add: hs)
qed

text \<open>Sending to a client's active channel appends to its last log and touches no other client.\<close>

lemma send_view:
  assumes "disp_inv s" and "map_of (active_transfers s) c = Some h" and "chan_send h b s = Some s'"
  shows "disp_inv s'" "active_transfers s' = active_transfers s" "ended_transfers s' = ended_transfers s"
    "map (\<lambda>g. ch_log (chans s' ! g)) (transfers_of d s') =
      (if d = c then append_last b (map (\<lambda>g. ch_log (chans s ! g)) (transfers_of c s))
       else map (\<lambda>g. ch_log (chans s ! g)) (transfers_of d s))"
proof -
  have s': "s' = s\<lparr>chans := (chans s)[h := chan_push b (chans s ! h)]\<rparr>"
    using assms(3) by (simp add: chan_send_def split: if_splits)
  show "disp_inv s'" "active_transfers s' = active_transfers s" "ended_transfers s' = ended_transfers s"
    using assms(1) s' by (simp_all add: disp_inv_def)
  have tr: "transfers_of c s \<noteq> []" "last (transfers_of c s) = h"
    using assms(1,2) by (auto simp: disp_inv_def)
  show "map (\<lambda>g. ch_log (chans s' ! g)) (transfers_of d s') =
      (if d = c then append_last b (map (\<lambda>g. ch_log (chans s ! g)) (transfers_of c s))
       else map (\<lambda>g. ch_log (chans s ! g)) (transfers_of d s))"
  proof (cases "d = c")
    case True
    then show ?thesis
      using map_update_last [OF transfers_distinct [OF assms(1)] tr active_bound [OF assms(1,2)],
          where f = ch_log and x = "chan_push b (chans s ! h)"] tr
      by (simp add: s' append_last_def chan_push_def last_map)
  next
    case False
    have "h \<in> set (transfers_of c s)" using tr by auto
    then have "h \<notin> set (transfers_of d s)" using transfers_bound(2) [OF assms(1)] False by metis
    then show ?thesis using False by (simp add: s' map_update_notin)
  qed
qed

lemma delete_inv:
  "disp_inv s \<Longrightarrow> disp_inv (s\<lparr>active_transfers := AList.delete c (active_transfers s)\<rparr>)"
  by (auto simp: disp_inv_def distinct_fst_delete map_of_delete_iff)

lemma distinct_fst_filter: "distinct (map fst al) \<Longrightarrow> distinct (map fst (filter P al))"
  by (induction al) auto

lemma end_inv:
  assumes "disp_inv s"
  shows "disp_inv (end_transfer c h s)"
  using assms unfolding end_transfer_def
  by (auto simp: disp_inv_def distinct_fst_delete map_of_delete_iff distinct_update distinct_fst_filter)

lemma open_inv:
  assumes "disp_inv s"
  shows "disp_inv (open_transfer c s)"
  using assms
  by (auto simp: disp_inv_def open_transfer_def Let_def distinct_update map_of_update_iff transfers_of_def)

lemma open_view:
  assumes "disp_inv s"
  shows "client_view d (open_transfer c s) =
    (if d = c then (fst (client_view c s) @ [[]], True) else client_view d s)"
proof -
  have "h < length (chans s)" if "h \<in> set (transfers_of d s)" for h
    using transfers_bound(1) [OF assms that] .
  then have "map (\<lambda>h. ch_log ((chans s @ [new_chan]) ! h)) (transfers_of d s) =
      map (\<lambda>h. ch_log (chans s ! h)) (transfers_of d s)"
    by (intro map_cong) (auto simp: nth_append)
  then show ?thesis
    by (auto simp: client_view_def open_transfer_def Let_def transfers_of_def map_of_update_iff new_chan_def)
qed

lemma forward_view:
  assumes "disp_inv s"
  shows "disp_inv (forward_block c will_end b s) \<and>
    client_view d (forward_block c will_end b s) =
      (if d = c then client_step (receiving c s) (if will_end then End else Data) b (client_view c s)
       else client_view d s)"
proof (cases "map_of (active_transfers s) c")
  case None
  then show ?thesis using assms by (cases will_end) (auto simp: forward_block_def client_view_def)
next
  case (Some h)
  show ?thesis
  proof (cases "chan_send h b s")
    case None
    then have "\<not> receiving c s" using Some by (simp add: receiving_def chan_send_def split: if_splits)
    then show ?thesis using Some None assms delete_inv [OF assms, of c]
      by (auto simp: forward_block_def client_view_def map_of_delete_iff)
  next
    case s': (Some s')
    then have r: "receiving c s" using Some by (simp add: receiving_def chan_send_def split: if_splits)
    note v = send_view [OF assms Some s']
    show ?thesis
    proof (cases will_end)
      case True
      have f: "forward_block c will_end b s = end_transfer c h s'" using Some s' True by (simp add: forward_block_def)
      show ?thesis unfolding f using end_inv [OF v(1), of c h] v(2) v(4) [of d] r True Some
        by (auto simp: client_view_def end_transfer_def map_of_delete_iff)
    next
      case False
      have f: "forward_block c will_end b s = s'" using Some s' False by (simp add: forward_block_def)
      show ?thesis unfolding f using v(1,2) v(4) [of d] r False Some by (auto simp: client_view_def)
    qed
  qed
qed

lemma append_last_snoc: "append_last b (logs @ [l]) = logs @ [l @ [b]]"
  by (simp add: append_last_def)

lemma receiving_open: "receiving c (open_transfer c s)"
  by (simp add: receiving_def open_transfer_def Let_def map_of_update_iff new_chan_def)

lemma dispatch_block_view:
  assumes "disp_inv s" and "Block_block_type b = Ok t" and "Block_client_id b = (Ok c :: (u32, receive_error) outcome)"
  shows "\<exists>s'. dispatch_block now b s = Ok s' \<and> disp_inv s' \<and>
    (\<forall>d. client_view d s' = (if d = c then client_step (receiving c s) t b (client_view c s) else client_view d s))"
proof (cases t)
  case Heartbeat
  then show ?thesis using assms by (simp add: dispatch_block_def disp_inv_def client_view_def)
next
  case Start
  have v: "client_view d (forward_block c False b (open_transfer c s)) =
      (if d = c then (fst (client_view c s) @ [[b]], True) else client_view d s)" for d
    using forward_view [OF open_inv [OF assms(1)], where d = d and c = c and will_end = False and b = b]
      open_view [OF assms(1), where c = c] receiving_open [of c s] by (simp add: append_last_snoc)
  have "client_step (receiving c s) Start b (client_view c s) = (fst (client_view c s) @ [[b]], True)"
    by (cases "client_view c s") simp
  with v show ?thesis using Start assms forward_view [OF open_inv [OF assms(1)]]
    by (simp add: dispatch_block_def)
next
  case Data
  then show ?thesis using assms forward_view [OF assms(1), of c False b] by (simp add: dispatch_block_def)
next
  case Abort
  have "client_step (receiving c s) Abort b v = client_step (receiving c s) End b v" for v
    by (cases v) simp
  then show ?thesis using Abort assms forward_view [OF assms(1), of c True b] by (simp add: dispatch_block_def)
next
  case End
  then show ?thesis using assms forward_view [OF assms(1), of c True b] by (simp add: dispatch_block_def)
qed

section \<open>Loss of synchronization\<close>

lemma send_frame:
  "chan_send h b s = Some s' \<Longrightarrow> active_transfers s' = active_transfers s \<and> ended_transfers s' = ended_transfers s \<and>
     to_clients s' = to_clients s \<and> length (chans s') = length (chans s)"
  by (auto simp: chan_send_def split: if_splits)

lemma abort_transfers_effect:
  assumes "\<And>c. Block_new Abort rq c None = Ok (ab c)"
  shows "distinct (map snd al) \<Longrightarrow> \<forall>h \<in> set (map snd al). h < length (chans s) \<Longrightarrow>
    \<exists>s'. abort_transfers rq al s = Ok s' \<and> active_transfers s' = active_transfers s \<and>
      ended_transfers s' = ended_transfers s \<and> to_clients s' = to_clients s \<and>
      length (chans s') = length (chans s) \<and>
      (\<forall>c h. (c, h) \<in> set al \<longrightarrow> chans s' ! h =
         (if ch_alive (chans s ! h) then chan_push (ab c) (chans s ! h) else chans s ! h)) \<and>
      (\<forall>h. h \<notin> set (map snd al) \<longrightarrow> chans s' ! h = chans s ! h)"
proof (induction al arbitrary: s)
  case Nil
  then show ?case by simp
next
  case (Cons a al)
  obtain c h where a: "a = (c, h)" by fastforce
  define s1 where "s1 = (case chan_send h (ab c) s of Some s' \<Rightarrow> s' | None \<Rightarrow> s)"
  have s1: "abort_transfers rq (a # al) s = abort_transfers rq al s1"
    using assms by (simp add: a s1_def split: option.splits)
  have f: "active_transfers s1 = active_transfers s" "ended_transfers s1 = ended_transfers s"
    "to_clients s1 = to_clients s" "length (chans s1) = length (chans s)"
    by (simp_all add: s1_def chan_send_def)
  have hl: "h < length (chans s)" "h \<notin> set (map snd al)" using Cons.prems by (simp_all add: a)
  have c1: "chans s1 ! g = (if g = h \<and> ch_alive (chans s ! h) then chan_push (ab c) (chans s ! h) else chans s ! g)" for g
    using hl(1) by (auto simp: s1_def chan_send_def)
  have p: "distinct (map snd al)" "\<forall>h \<in> set (map snd al). h < length (chans s1)"
    using Cons.prems f(4) by simp_all
  from Cons.IH [OF p] obtain s' where s': "abort_transfers rq al s1 = Ok s'"
    "active_transfers s' = active_transfers s1" "ended_transfers s' = ended_transfers s1"
    "to_clients s' = to_clients s1" "length (chans s') = length (chans s1)"
    "\<forall>c h. (c, h) \<in> set al \<longrightarrow> chans s' ! h =
       (if ch_alive (chans s1 ! h) then chan_push (ab c) (chans s1 ! h) else chans s1 ! h)"
    "\<forall>h. h \<notin> set (map snd al) \<longrightarrow> chans s' ! h = chans s1 ! h" by blast
  have "chans s' ! g = (if ch_alive (chans s ! g) then chan_push (ab d) (chans s ! g) else chans s ! g)"
    if "(d, g) \<in> set (a # al)" for d g
  proof (cases "g = h")
    case True
    then have "d = c" using that hl(2) by (force simp: a)
    then show ?thesis using True s'(7) hl(2) c1 by simp
  next
    case False
    then show ?thesis using that s'(6) c1 by (auto simp: a)
  qed
  moreover have "chans s' ! g = chans s ! g" if "g \<notin> set (map snd (a # al))" for g
    using that s'(7) c1 by (auto simp: a)
  ultimately show ?case using s1 s'(1-5) f by metis
qed

lemma active_distinct:
  assumes "disp_inv s"
  shows "distinct (map snd (active_transfers s))" "\<forall>h \<in> set (map snd (active_transfers s)). h < length (chans s)"
proof -
  have d: "distinct (map fst (active_transfers s))" using assms by (simp add: disp_inv_def)
  have tr: "h \<in> set (transfers_of c s)" if "(c, h) \<in> set (active_transfers s)" for c h
  proof -
    have "map_of (active_transfers s) c = Some h" using d that by simp
    then show ?thesis using assms unfolding disp_inv_def by (metis last_in_set)
  qed
  show "\<forall>h \<in> set (map snd (active_transfers s)). h < length (chans s)"
    using tr transfers_bound(1) [OF assms] by fastforce
  have "c = c'" if "(c, h) \<in> set (active_transfers s)" "(c', h) \<in> set (active_transfers s)" for c c' h
    using tr that transfers_bound(2) [OF assms] by blast
  then have "inj_on snd (set (active_transfers s))" by (auto simp: inj_on_def)
  moreover have "distinct (active_transfers s)" using d by (simp add: distinct_map)
  ultimately show "distinct (map snd (active_transfers s))" by (simp add: distinct_map)
qed

lemma dispatch_lost_view:
  assumes "disp_inv s" and "\<And>c. Block_new Abort rq c None = Ok (ab c)"
  shows "\<exists>s'. dispatch_lost rq s = Ok s' \<and> disp_inv s' \<and> active_transfers s' = [] \<and>
    (\<forall>c. client_view c s' = client_step (receiving c s) Abort (ab c) (client_view c s))"
proof -
  let ?s0 = "s\<lparr>active_transfers := []\<rparr>"
  note ad = active_distinct [OF assms(1)]
  have ad': "\<forall>h \<in> set (map snd (active_transfers s)). h < length (chans ?s0)" using ad(2) by simp
  obtain s' where s': "abort_transfers rq (active_transfers s) ?s0 = Ok s'"
    "active_transfers s' = []" "ended_transfers s' = ended_transfers s" "to_clients s' = to_clients s"
    "length (chans s') = length (chans s)"
    and hit: "\<And>c h. (c, h) \<in> set (active_transfers s) \<Longrightarrow> chans s' ! h =
       (if ch_alive (chans s ! h) then chan_push (ab c) (chans s ! h) else chans s ! h)"
    and miss: "\<And>h. h \<notin> set (map snd (active_transfers s)) \<Longrightarrow> chans s' ! h = chans s ! h"
    using abort_transfers_effect [OF assms(2) ad(1) ad'] by (elim exE conjE) simp
  have tr: "transfers_of c s' = transfers_of c s" for c using s'(4) by (simp add: transfers_of_def)
  have inv: "disp_inv s'" using assms(1) s' by (simp add: disp_inv_def)
  have d: "distinct (map fst (active_transfers s))" using assms(1) by (simp add: disp_inv_def)
  have "client_view c s' = client_step (receiving c s) Abort (ab c) (client_view c s)" for c
  proof (cases "map_of (active_transfers s) c")
    case None
    have "h \<notin> set (map snd (active_transfers s))" if "h \<in> set (transfers_of c s)" for h
    proof
      assume "h \<in> set (map snd (active_transfers s))"
      then obtain e where e: "(e, h) \<in> set (active_transfers s)" by auto
      then have "map_of (active_transfers s) e = Some h" using d by simp
      then have "h \<in> set (transfers_of e s)" using assms(1) unfolding disp_inv_def by (metis last_in_set)
      then have "e = c" using transfers_bound(2) [OF assms(1) that] by blast
      then show False using None \<open>map_of (active_transfers s) e = Some h\<close> by simp
    qed
    then show ?thesis using None s'(2) miss by (auto simp: client_view_def tr intro!: map_cong)
  next
    case (Some h)
    have mem: "(c, h) \<in> set (active_transfers s)" using Some by (rule map_of_SomeD)
    have lt: "transfers_of c s \<noteq> []" "last (transfers_of c s) = h" using Some assms(1) by (auto simp: disp_inv_def)
    then obtain gs where gs: "transfers_of c s = gs @ [h]" by (metis append_butlast_last_id)
    have "g \<notin> set (map snd (active_transfers s))" if "g \<in> set gs" for g
    proof
      assume "g \<in> set (map snd (active_transfers s))"
      then obtain e where e: "(e, g) \<in> set (active_transfers s)" by auto
      then have m: "map_of (active_transfers s) e = Some g" using d by simp
      then have "g \<in> set (transfers_of e s)" using assms(1) unfolding disp_inv_def by (metis last_in_set)
      moreover have "g \<in> set (transfers_of c s)" using that gs by simp
      ultimately have "e = c" using transfers_bound(2) [OF assms(1)] by blast
      then have "g = h" using m Some by simp
      then show False using that transfers_distinct [OF assms(1), of c] gs by simp
    qed
    then have "map (\<lambda>g. ch_log (chans s' ! g)) gs = map (\<lambda>g. ch_log (chans s ! g)) gs"
      using miss by (intro map_cong) auto
    then show ?thesis using Some s'(2) hit [OF mem] gs
      by (auto simp: client_view_def tr receiving_def append_last_snoc chan_push_def)
  qed
  with s' inv show ?thesis by (simp add: dispatch_lost_def)
qed

section \<open>Runs\<close>

text \<open>
  The worker's iterations (with the time) interleaved with what the client workers do to the channels.
  \<open>None\<close>: an event that cannot happen there.
\<close>

datatype dispatch_event = Disp_In nat dispatch_input | Client_Take nat | Client_Drop nat

definition event_step :: "receive_config \<Rightarrow> ('plan, 'config) RaptorQ \<Rightarrow> dispatch_event \<Rightarrow> dispatch \<Rightarrow>
    (dispatch, receive_error) outcome option" where
  "event_step cfg rq ev s =
     (case ev of
        Disp_In now inp \<Rightarrow> dispatch_step cfg rq now inp s
      | Client_Take h \<Rightarrow> if h < length (chans s) then map_option (\<lambda>(b, s'). Ok s') (chan_take h s) else None
      | Client_Drop h \<Rightarrow> if h < length (chans s) then Some (Ok (chan_drop h s)) else None)"

fun event_run :: "receive_config \<Rightarrow> ('plan, 'config) RaptorQ \<Rightarrow> dispatch_event list \<Rightarrow> dispatch \<Rightarrow>
    (dispatch, receive_error) outcome option" where
  "event_run cfg rq [] s = Some (Ok s)"
| "event_run cfg rq (ev # evs) s =
     (case event_step cfg rq ev s of
        Some (Ok s') \<Rightarrow> event_run cfg rq evs s'
      | r \<Rightarrow> r)"

text \<open>
  The blocks of a run that concern client \<open>c\<close>, with their types; a loss counts as an \<open>Abort\<close>. A heartbeat
  concerns no client, although it carries the identifier 0, which is also that of the first client.
\<close>

fun own_blocks :: "('plan, 'config) RaptorQ \<Rightarrow> u32 \<Rightarrow> dispatch_event \<Rightarrow> (BlockType \<times> Block) list" where
  "own_blocks rq c (Disp_In now (Dispatch_Recv (Some b))) =
     (case Block_block_type b of
        Ok t \<Rightarrow> if t \<noteq> Heartbeat \<and> Block_client_id b = (Ok c :: (u32, receive_error) outcome) then [(t, b)] else []
      | _ \<Rightarrow> [])"
| "own_blocks rq c (Disp_In now (Dispatch_Recv None)) =
     [(Abort, block_layout (unat (transfer_length rq)) Abort c [])]"
| "own_blocks rq c _ = []"

text \<open>The receiving ends of the client's transfers all exist.\<close>

definition all_alive :: "u32 \<Rightarrow> dispatch \<Rightarrow> bool" where
  "all_alive c s \<longleftrightarrow> (\<forall>h \<in> set (transfers_of c s). ch_alive (chans s ! h))"

definition run_client :: "(BlockType \<times> Block) list \<Rightarrow> client_state \<Rightarrow> client_state" where
  "run_client own v = fold (\<lambda>(t, b). client_step True t b) own v"

lemma client_step_closed: "client_step alive t b (logs, False) = client_step True t b (logs, False)"
  by (cases t) simp_all

lemma client_step_receiving:
  assumes "disp_inv s" and "all_alive c s"
  shows "client_step (receiving c s) t b (client_view c s) = client_step True t b (client_view c s)"
proof (cases "map_of (active_transfers s) c")
  case None
  then show ?thesis unfolding client_view_def by simp (rule client_step_closed)
next
  case (Some h)
  then have "h \<in> set (transfers_of c s)" using assms(1) unfolding disp_inv_def by (metis last_in_set)
  then have "receiving c s" using Some assms(2) by (simp add: receiving_def all_alive_def)
  then show ?thesis by simp
qed

text \<open>What an event leaves of the liveness of the channels.\<close>

definition chans_extend :: "dispatch \<Rightarrow> dispatch \<Rightarrow> bool" where
  "chans_extend s t \<longleftrightarrow> (\<exists>new. to_clients t = to_clients s @ new) \<and> length (chans s) \<le> length (chans t) \<and>
     (\<forall>h < length (chans s). ch_alive (chans t ! h) = ch_alive (chans s ! h)) \<and>
     (\<forall>h < length (chans t). length (chans s) \<le> h \<longrightarrow> ch_alive (chans t ! h))"

lemma chans_extend_refl [simp]: "chans_extend s s"
  by (simp add: chans_extend_def)

lemma chans_extend_trans: "chans_extend s t \<Longrightarrow> chans_extend t u \<Longrightarrow> chans_extend s u"
  unfolding chans_extend_def by (auto simp: not_less)

lemma chans_extend_frame:
  assumes "chans_extend s t" and "to_clients u = to_clients t" and "chans u = chans t"
  shows "chans_extend s u"
  using assms by (simp add: chans_extend_def)

lemma alive_update:
  assumes "ch_alive x = ch_alive (cs ! h)"
  shows "ch_alive ((cs[h := x]) ! g) = ch_alive (cs ! g)"
  using assms by (cases "h < length cs"; cases "g = h") (auto simp: list_update_beyond)

lemma chan_send_extend: "chan_send h b s = Some t \<Longrightarrow> chans_extend s t"
  by (auto simp: chan_send_def chans_extend_def chan_push_def alive_update split: if_splits)

lemma open_extend: "chans_extend s (open_transfer c s)"
  by (auto simp: open_transfer_def Let_def chans_extend_def nth_append new_chan_def less_Suc_eq)

lemma forward_extend: "chans_extend s (forward_block c e b s)"
  by (auto simp: forward_block_def end_transfer_def split: option.splits
      intro: chan_send_extend chans_extend_frame [OF chan_send_extend] chans_extend_frame [OF chans_extend_refl])

lemma abort_extend: "abort_transfers rq al s = Ok t \<Longrightarrow> chans_extend s t"
proof (induction al arbitrary: s)
  case Nil
  then show ?case by simp
next
  case (Cons a al)
  obtain c h where "a = (c, h)" by fastforce
  with Cons.prems obtain b where b: "(case chan_send h b s of Some s' \<Rightarrow> abort_transfers rq al s'
      | None \<Rightarrow> abort_transfers rq al s) = Ok t" by (auto simp: obind_eq_Ok)
  then show ?case
    using Cons.IH chan_send_extend chans_extend_trans by (fastforce split: option.splits)
qed

lemma dispatch_step_extend:
  assumes "dispatch_step cfg rq now inp s = Some (Ok t)"
  shows "chans_extend s t"
proof (cases inp)
  case (Dispatch_Recv m)
  show ?thesis
  proof (cases m)
    case None
    then have "abort_transfers rq (active_transfers s) (s\<lparr>active_transfers := []\<rparr>) = Ok t"
      using assms Dispatch_Recv by (auto simp: dispatch_step_def dispatch_lost_def obind_eq_Ok)
    from abort_extend [OF this] show ?thesis by (simp add: chans_extend_def)
  next
    case (Some b)
    with assms Dispatch_Recv have st: "dispatch_block now b s = Ok t" by (simp add: dispatch_step_def)
    then consider "t = s" | "t = s\<lparr>last_heartbeat := now\<rparr>"
      | c where "t = forward_block c False b (open_transfer c s)" | c e where "t = forward_block c e b s"
      by (auto simp: dispatch_block_def obind_eq_Ok split: outcome.splits BlockType.splits)
        (use BlockType.exhaust in blast)
    then show ?thesis
      by cases (auto intro: forward_extend chans_extend_trans [OF open_extend forward_extend]
          chans_extend_frame [OF chans_extend_refl])
  qed
next
  case Dispatch_Timeout
  then show ?thesis using assms
    by (auto simp: dispatch_step_def split: option.splits intro: chans_extend_frame [OF chans_extend_refl])
next
  case Dispatch_Disconnected
  then show ?thesis using assms by (simp add: dispatch_step_def)
qed

lemma dispatch_step_view:
  assumes "disp_inv s" and "dispatch_step cfg rq now inp s = Some (Ok t)" and "all_alive c s"
    and "SERIALIZE_OVERHEAD \<le> unat (transfer_length rq)"
  shows "disp_inv t \<and> client_view c t = run_client (own_blocks rq c (Disp_In now inp)) (client_view c s)"
proof (cases inp)
  case (Dispatch_Recv m)
  show ?thesis
  proof (cases m)
    case None
    with assms(2) Dispatch_Recv have "dispatch_lost rq s = Ok t" by (simp add: dispatch_step_def)
    with dispatch_lost_view [OF assms(1) Block_new_None [OF assms(4)]] None Dispatch_Recv
      client_step_receiving [OF assms(1,3)]
    show ?thesis by (auto simp: run_client_def)
  next
    case (Some b)
    with assms(2) Dispatch_Recv have st: "dispatch_block now b s = Ok t" by (simp add: dispatch_step_def)
    show ?thesis
    proof (cases "Block_block_type b")
      case (Ok ty)
      then obtain d where d: "Block_client_id b = (Ok d :: (u32, receive_error) outcome)"
        using st by (cases "Block_client_id b :: (u32, receive_error) outcome") (auto simp: dispatch_block_def)
      from dispatch_block_view [OF assms(1) Ok d, of now] st client_step_receiving [OF assms(1,3)]
      show ?thesis by (auto simp: Some Dispatch_Recv Ok d run_client_def)
    next
      case (Err e)
      then show ?thesis using st assms(1) by (simp add: dispatch_block_def Some Dispatch_Recv run_client_def)
    next
      case (Panic p)
      then show ?thesis using st by (simp add: dispatch_block_def)
    qed
  qed
next
  case Dispatch_Timeout
  then show ?thesis using assms(1,2)
    by (auto simp: dispatch_step_def disp_inv_def client_view_def run_client_def split: option.splits if_splits)
next
  case Dispatch_Disconnected
  then show ?thesis using assms(2) by (simp add: dispatch_step_def)
qed

lemma all_alive_extend:
  assumes "chans_extend s t" and "disp_inv s" and "disp_inv t" and "all_alive c s"
  shows "all_alive c t"
  unfolding all_alive_def
proof
  fix h
  assume h: "h \<in> set (transfers_of c t)"
  have ht: "h < length (chans t)" by (rule transfers_bound(1) [OF assms(3) h])
  show "ch_alive (chans t ! h)"
  proof (cases "h < length (chans s)")
    case True
    obtain new where new: "to_clients t = to_clients s @ new" using assms(1) by (auto simp: chans_extend_def)
    have "h \<in> set (map snd (to_clients s))" using True assms(2) by (simp add: disp_inv_def)
    then obtain d where "(d, h) \<in> set (to_clients s)" by auto
    then have hs: "h \<in> set (transfers_of d s)" by (force simp: transfers_of_def)
    then have "h \<in> set (transfers_of d t)" by (simp add: transfers_of_def new)
    then have "d = c" using transfers_bound(2) [OF assms(3) h] by blast
    then show ?thesis using hs assms(1,4) True by (simp add: all_alive_def chans_extend_def)
  next
    case False
    then show ?thesis using assms(1) ht by (simp add: chans_extend_def)
  qed
qed

text \<open>What the client workers do to the channels changes no client's view.\<close>

lemma chan_event_view:
  assumes "disp_inv s" and "event_step cfg rq ev s = Some (Ok t)" and "ev = Client_Take h \<or> ev = Client_Drop h"
  shows "disp_inv t" "transfers_of c t = transfers_of c s" "client_view c t = client_view c s"
    "\<And>g. ev \<noteq> Client_Drop g \<Longrightarrow> ch_alive (chans t ! g) = ch_alive (chans s ! g)"
proof -
  obtain x where t: "t = s\<lparr>chans := (chans s)[h := x]\<rparr>" and x: "ch_log x = ch_log (chans s ! h)"
    "ev = Client_Take h \<longrightarrow> ch_alive x = ch_alive (chans s ! h)"
    using assms(2,3) by (auto simp: event_step_def chan_take_def chan_drop_def split: if_splits list.splits)
  show "disp_inv t" using assms(1) by (simp add: t disp_inv_def)
  show tr: "transfers_of c t = transfers_of c s" by (simp add: t)
  have l: "ch_log (chans t ! g) = ch_log (chans s ! g)" for g
    using x(1) by (cases "h < length (chans s)"; cases "g = h"; simp add: t list_update_beyond)
  then show "client_view c t = client_view c s" unfolding client_view_def l tr by (simp add: t)
  show "ch_alive (chans t ! g) = ch_alive (chans s ! g)" if "ev \<noteq> Client_Drop g" for g
    using that assms(3) x(2)
    by (cases "h < length (chans s)"; cases "g = h"; simp add: t list_update_beyond)
qed

lemma event_step_view:
  assumes "disp_inv s" and "event_step cfg rq ev s = Some (Ok t)" and "all_alive c s"
    and "SERIALIZE_OVERHEAD \<le> unat (transfer_length rq)"
    and "\<forall>h \<in> set (transfers_of c t). ev \<noteq> Client_Drop h"
  shows "disp_inv t \<and> all_alive c t \<and> client_view c t = run_client (own_blocks rq c ev) (client_view c s)"
proof (cases "\<exists>h. ev = Client_Take h \<or> ev = Client_Drop h")
  case True
  then obtain h where "ev = Client_Take h \<or> ev = Client_Drop h" by blast
  note v = chan_event_view [OF assms(1,2) this]
  have "own_blocks rq c ev = []" using True by auto
  then show ?thesis using v assms(3,5) by (simp add: all_alive_def run_client_def)
next
  case False
  then obtain now inp where ev: "ev = Disp_In now inp" by (cases ev) auto
  then have st: "dispatch_step cfg rq now inp s = Some (Ok t)" using assms(2) by (simp add: event_step_def)
  from dispatch_step_view [OF assms(1) st assms(3,4)] dispatch_step_extend [OF st] show ?thesis
    using all_alive_extend [OF _ assms(1) _ assms(3)] ev by blast
qed

text \<open>An event that does not concern a client changes nothing for it, whether its channel is read or not.\<close>

lemma event_step_quiet:
  assumes "disp_inv s" and "event_step cfg rq ev s = Some (Ok t)" and "own_blocks rq c ev = []"
  shows "disp_inv t \<and> client_view c t = client_view c s"
proof (cases "\<exists>h. ev = Client_Take h \<or> ev = Client_Drop h")
  case True
  then show ?thesis using chan_event_view [OF assms(1,2)] by blast
next
  case False
  then obtain now inp where ev: "ev = Disp_In now inp" by (cases ev) auto
  then have st: "dispatch_step cfg rq now inp s = Some (Ok t)" using assms(2) by (simp add: event_step_def)
  show ?thesis
  proof (cases "\<exists>b. inp = Dispatch_Recv (Some b)")
    case False
    then show ?thesis using st assms(1,3) ev
      by (cases inp) (auto simp: dispatch_step_def disp_inv_def client_view_def split: option.splits if_splits)
  next
    case True
    then obtain b where b: "inp = Dispatch_Recv (Some b)" by blast
    with st have st: "dispatch_block now b s = Ok t" by (simp add: dispatch_step_def)
    show ?thesis
    proof (cases "Block_block_type b")
      case (Ok ty)
      then obtain d where d: "Block_client_id b = (Ok d :: (u32, receive_error) outcome)"
        using st by (cases "Block_client_id b :: (u32, receive_error) outcome") (auto simp: dispatch_block_def)
      then have "ty = Heartbeat \<or> c \<noteq> d" using assms(3) by (auto simp: ev b Ok split: if_splits)
      with dispatch_block_view [OF assms(1) Ok d, of now] st show ?thesis by auto
    next
      case (Err e)
      then show ?thesis using st assms(1) by (simp add: dispatch_block_def)
    next
      case (Panic p)
      then show ?thesis using st by (simp add: dispatch_block_def)
    qed
  qed
qed

lemma event_run_quiet:
  "disp_inv s \<Longrightarrow> event_run cfg rq evs s = Some (Ok t) \<Longrightarrow> list_all (\<lambda>ev. own_blocks rq c ev = []) evs \<Longrightarrow>
   disp_inv t \<and> client_view c t = client_view c s"
proof (induction evs arbitrary: s)
  case Nil
  then show ?case by simp
next
  case (Cons ev evs)
  then obtain u where u: "event_step cfg rq ev s = Some (Ok u)" "event_run cfg rq evs u = Some (Ok t)"
    by (auto split: option.splits outcome.splits)
  with event_step_quiet [OF Cons.prems(1) u(1), of c] Cons show ?case by auto
qed

lemma event_step_grows:
  assumes "event_step cfg rq ev s = Some (Ok t)"
  shows "set (transfers_of c s) \<subseteq> set (transfers_of c t)"
proof (cases ev)
  case (Disp_In now inp)
  then have "dispatch_step cfg rq now inp s = Some (Ok t)" using assms by (simp add: event_step_def)
  from dispatch_step_extend [OF this] show ?thesis by (auto simp: transfers_of_def chans_extend_def)
next
  case (Client_Take h)
  then show ?thesis using assms
    by (auto simp: event_step_def chan_take_def transfers_of_def split: if_splits list.splits)
next
  case (Client_Drop h)
  then show ?thesis using assms by (auto simp: event_step_def chan_drop_def transfers_of_def split: if_splits)
qed

lemma event_run_grows:
  "event_run cfg rq evs s = Some (Ok t) \<Longrightarrow> set (transfers_of c s) \<subseteq> set (transfers_of c t)"
  by (induction evs arbitrary: s) (auto split: option.splits outcome.splits dest: event_step_grows [where c = c])

text \<open>The receiving ends of a client are dropped only after its last block, as its workers do.\<close>

fun drops_late :: "('plan, 'config) RaptorQ \<Rightarrow> u32 \<Rightarrow> nat list \<Rightarrow> dispatch_event list \<Rightarrow> bool" where
  "drops_late rq c hs [] \<longleftrightarrow> True"
| "drops_late rq c hs (ev # evs) \<longleftrightarrow>
     (ev \<in> set (map Client_Drop hs) \<longrightarrow> list_all (\<lambda>ev. own_blocks rq c ev = []) evs) \<and> drops_late rq c hs evs"

lemma drops_late_none: "\<forall>h \<in> set hs. Client_Drop h \<notin> set evs \<Longrightarrow> drops_late rq c hs evs"
  by (induction evs) auto

lemma event_run_view:
  "disp_inv s \<Longrightarrow> event_run cfg rq evs s = Some (Ok t) \<Longrightarrow> all_alive c s \<Longrightarrow>
   SERIALIZE_OVERHEAD \<le> unat (transfer_length rq) \<Longrightarrow> drops_late rq c (transfers_of c t) evs \<Longrightarrow>
     disp_inv t \<and> client_view c t = run_client (concat (map (own_blocks rq c) evs)) (client_view c s)"
proof (induction evs arbitrary: s)
  case Nil
  then show ?case by (simp add: run_client_def)
next
  case (Cons ev evs)
  then obtain u where u: "event_step cfg rq ev s = Some (Ok u)" "event_run cfg rq evs u = Some (Ok t)"
    by (auto split: option.splits outcome.splits)
  show ?case
  proof (cases "ev \<in> set (map Client_Drop (transfers_of c t))")
    case True
    then have q: "list_all (\<lambda>ev. own_blocks rq c ev = []) (ev # evs)" using Cons.prems(5) by auto
    then have "concat (map (own_blocks rq c) (ev # evs)) = []" by (simp add: list_all_iff)
    then show ?thesis using event_run_quiet [OF Cons.prems(1,2) q] by (simp only: run_client_def fold.simps id_apply)
  next
    case False
    then have "\<forall>h \<in> set (transfers_of c u). ev \<noteq> Client_Drop h" using event_run_grows [OF u(2), of c] by auto
    note v = event_step_view [OF Cons.prems(1) u(1) Cons.prems(3,4) this]
    from Cons.IH [OF _ u(2) _ Cons.prems(4)] v Cons.prems(5) show ?thesis by (simp add: run_client_def)
  qed
qed

text \<open>The worker fails on no block that has a header, and the messages it takes determine what concerns a client.\<close>

definition dispatched :: "dispatch_event list \<Rightarrow> Block option list" where
  "dispatched evs = concat (map (\<lambda>ev. case ev of Disp_In now (Dispatch_Recv m) \<Rightarrow> [m] | _ \<Rightarrow> []) evs)"

lemma own_dispatched:
  "concat (map (own_blocks rq c) evs) = concat (map (\<lambda>m. own_blocks rq c (Disp_In 0 (Dispatch_Recv m))) (dispatched evs))"
proof (induction evs)
  case Nil
  then show ?case by (simp add: dispatched_def)
next
  case (Cons ev evs)
  then show ?case
    by (cases "(rq, c, ev)" rule: own_blocks.cases) (auto simp: dispatched_def)
qed

lemma Block_block_type_no_panic: "Block_block_type b \<noteq> Panic p"
  by (simp add: Block_block_type_def Let_def)

lemma dispatch_block_total:
  assumes "4 \<le> length (block_bytes b)"
  shows "\<exists>t. dispatch_block now b s = Ok t"
proof -
  obtain c where "Block_client_id b = (Ok c :: (u32, receive_error) outcome)"
    using Block_client_id_Ok [OF assms] by blast
  then show ?thesis
    by (cases "Block_block_type b") (auto simp: dispatch_block_def Block_block_type_no_panic split: BlockType.splits)
qed

lemma recv_run_total:
  "list_all (\<lambda>b. 4 \<le> length (block_bytes b)) bs \<Longrightarrow>
   \<exists>t. event_run cfg rq (map (\<lambda>b. Disp_In now (Dispatch_Recv (Some b))) bs) s = Some (Ok t)"
proof (induction bs arbitrary: s)
  case Nil
  then show ?case by simp
next
  case (Cons b bs)
  obtain u where "dispatch_block now b s = Ok u" using dispatch_block_total [of b] Cons.prems by auto
  then show ?case using Cons by (simp add: event_step_def dispatch_step_def)
qed

lemma run_client_data:
  "run_client (map (Pair Data) ds @ rest) (logs @ [l], True) = run_client rest (logs @ [l @ ds], True)"
  by (induction ds arbitrary: l) (simp_all add: run_client_def append_last_snoc)

lemma whole_transfer_view:
  assumes "event_run cfg rq evs (dispatch_init now) = Some (Ok s)"
    and "concat (map (own_blocks rq c) evs) = (Start, st) # map (Pair Data) ds @ [(t, en)]"
    and "t = End \<or> t = Abort"
    and "SERIALIZE_OVERHEAD \<le> unat (transfer_length rq)"
    and "drops_late rq c (transfers_of c s) evs"
  shows "client_view c s = ([st # ds @ [en]], False)"
proof -
  have v0: "client_view c (dispatch_init now) = ([], False)" and a0: "all_alive c (dispatch_init now)"
    by (simp_all add: client_view_def dispatch_init_def transfers_of_def all_alive_def)
  have "client_view c s = run_client ((Start, st) # map (Pair Data) ds @ [(t, en)]) ([], False)"
    using event_run_view [OF disp_inv_init assms(1) a0 assms(4,5)] assms(2) v0 by simp
  also have "\<dots> = run_client (map (Pair Data) ds @ [(t, en)]) ([] @ [[st]], True)"
    by (simp add: run_client_def)
  also have "\<dots> = ([st # ds @ [en]], False)"
    using assms(3) by (subst run_client_data) (auto simp: run_client_def append_last_def)
  finally show ?thesis .
qed

section \<open>Properties\<close>

definition demo_msg :: "BlockType \<Rightarrow> u32 \<Rightarrow> byte list \<Rightarrow> Block" where
  "demo_msg t c d = block_layout 17 t c d"

lemma demo_msg_simps [simp]:
  "Block_block_type (demo_msg t c d) = Ok t" "Block_client_id (demo_msg t c d) = Ok c"
  by (simp_all add: demo_msg_def)

lemma small_rq_overhead [simp]: "SERIALIZE_OVERHEAD \<le> unat (transfer_length small_rq)"
  by (simp add: SERIALIZE_OVERHEAD_def)

text \<open>
  C10. Each block changes what one client sees and nothing else: in a state that satisfies the
  invariant, a well-formed block of client \<open>c\<close> does to the transfers of \<open>c\<close> what the state machine
  \<open>client_step\<close> says (open on \<open>Start\<close>, append while open, close on \<open>End\<close> or \<open>Abort\<close>, ignore otherwise,
  forget when the receiving end is gone) and leaves every other client's view unchanged; a loss does
  to every client what an \<open>Abort\<close> block would do. The invariant is kept.
\<close>

theorem dispatch_isolates_clients:
  assumes "disp_inv s" and "SERIALIZE_OVERHEAD \<le> unat (transfer_length rq)"
  shows "(\<forall>b t c. Block_block_type b = Ok t \<longrightarrow> Block_client_id b = (Ok c :: (u32, receive_error) outcome) \<longrightarrow>
      (\<exists>s'. dispatch_step cfg rq now (Dispatch_Recv (Some b)) s = Some (Ok s') \<and> disp_inv s' \<and>
        (\<forall>d. client_view d s' =
          (if d = c then client_step (receiving c s) t b (client_view c s) else client_view d s)))) \<and>
    (\<exists>s'. dispatch_step cfg rq now (Dispatch_Recv None) s = Some (Ok s') \<and> disp_inv s' \<and>
        active_transfers s' = [] \<and>
        (\<forall>d. client_view d s' = client_step (receiving d s) Abort
          (block_layout (unat (transfer_length rq)) Abort d []) (client_view d s)))"
  using dispatch_block_view [OF assms(1)] dispatch_lost_view [OF assms(1) Block_new_None [OF assms(2)]]
  by (simp add: dispatch_step_def)

theorem dispatch_isolates_clients_witness:
  "\<exists>s'. dispatch_step small_receive_config small_rq 5 (Dispatch_Recv (Some (demo_msg Start 7 []))) (dispatch_init 0) =
     Some (Ok s') \<and> client_view 7 s' = ([[demo_msg Start 7 []]], True) \<and> client_view 8 s' = ([], False)"
proof -
  have v: "client_view d (dispatch_init 0) = ([], False)" for d
    by (simp add: client_view_def dispatch_init_def transfers_of_def)
  have "\<exists>s'. dispatch_step small_receive_config small_rq 5 (Dispatch_Recv (Some (demo_msg Start 7 []))) (dispatch_init 0) =
      Some (Ok s') \<and> disp_inv s' \<and> (\<forall>d. client_view d s' =
        (if d = 7 then client_step (receiving 7 (dispatch_init 0)) Start (demo_msg Start 7 [])
           (client_view 7 (dispatch_init 0)) else client_view d (dispatch_init 0)))"
    using dispatch_isolates_clients [OF disp_inv_init small_rq_overhead, of small_receive_config 5 0]
      demo_msg_simps [of Start 7 "[]"] by blast
  then show ?thesis by (auto simp: v)
qed

text \<open>
  C11. A whole transfer is delivered: whatever blocks of other clients, heartbeats, timeouts and
  channel operations of the client workers it is interleaved with, if the blocks that concern client
  \<open>c\<close> are a \<open>Start\<close>, any number of \<open>Data\<close> and an \<open>End\<close> or \<open>Abort\<close>, then exactly one channel has been opened for
  \<open>c\<close>, exactly these blocks were sent into it, in order, and the transfer is no longer active, unless
  the client worker drops the channel before the last of them.
\<close>

theorem transfer_is_delivered:
  assumes "event_run cfg rq evs (dispatch_init now) = Some (Ok s)"
    and "concat (map (own_blocks rq c) evs) = (Start, st) # map (Pair Data) ds @ [(t, en)]"
    and "t = End \<or> t = Abort"
    and "SERIALIZE_OVERHEAD \<le> unat (transfer_length rq)"
    and "drops_late rq c (transfers_of c s) evs"
  shows "\<exists>h. transfers_of c s = [h] \<and> ch_log (chans s ! h) = st # ds @ [en] \<and>
    map_of (active_transfers s) c = None"
  using whole_transfer_view [OF assms] by (auto simp: client_view_def)

theorem transfer_is_delivered_witness:
  "\<exists>s h. event_run small_receive_config small_rq
      (map (\<lambda>b. Disp_In 0 (Dispatch_Recv (Some b)))
        [demo_msg Start 7 [], demo_msg Start 8 [], demo_msg Data 7 [1], demo_msg End 8 [], demo_msg End 7 [2]])
      (dispatch_init 0) = Some (Ok s) \<and>
    transfers_of 7 s = [h] \<and> ch_log (chans s ! h) = [demo_msg Start 7 [], demo_msg Data 7 [1], demo_msg End 7 [2]]"
proof -
  let ?evs = "map (\<lambda>b. Disp_In 0 (Dispatch_Recv (Some b)))
        [demo_msg Start 7 [], demo_msg Start 8 [], demo_msg Data 7 [1], demo_msg End 8 [], demo_msg End 7 [2]]"
  obtain s where s: "event_run small_receive_config small_rq ?evs (dispatch_init 0) = Some (Ok s)"
    by (simp add: event_step_def dispatch_step_def dispatch_block_def)
  have own: "concat (map (own_blocks small_rq 7) ?evs) =
      (Start, demo_msg Start 7 []) # map (Pair Data) [demo_msg Data 7 [1]] @ [(End, demo_msg End 7 [2])]"
    by simp
  have "drops_late small_rq 7 (transfers_of 7 s) ?evs" by (rule drops_late_none) simp
  from transfer_is_delivered [OF s own _ small_rq_overhead this] s show ?thesis by auto
qed

end
