(* ===== verification/Receive_Client.thy ===== *)
theory Receive_Client
  imports Receive_Config Turnstile
begin

text \<open>
  The client workers of the receiver: \<open>src/receive/client.rs\<close> writes the blocks of one transfer to the
  peer through a \<open>BufWriter\<close>, and \<open>src/receive/clients.rs\<close> runs it under the multiplex semaphore. What
  \<open>recvq\<close> returns is a list of receptions; a result \<open>None\<close> means that the worker waits for more.
\<close>

section \<open>One transfer\<close>

datatype reception = Got Block | Got_Timeout | Got_Disconnected

record recv_state =
  rs_client :: buf_writer
  rs_transmitted :: nat
  rs_hasher :: "byte list option"   \<comment> \<open>the bytes the hasher has seen\<close>

text \<open>
  How the worker ends: its result, what the peer has received in the end, the flag of the call of
  \<open>client_end\<close> if there was one, and the figures logged for a finished transfer.
\<close>

record client_result =
  cr_result :: "(unit, receive_error) outcome"
  cr_sink :: sink
  cr_end :: "bool option"
  cr_log :: "(nat \<times> byte list option) option"

text \<open>An error returned by \<open>?\<close>: the writer is dropped, which flushes it.\<close>

definition fail_with :: "receive_error \<Rightarrow> recv_state \<Rightarrow> client_result" where
  "fail_with e st = \<lparr>cr_result = Err e, cr_sink = bw_drop (rs_client st), cr_end = None, cr_log = None\<rparr>"

definition panic_with :: "panic \<Rightarrow> recv_state \<Rightarrow> client_result" where
  "panic_with p st = \<lparr>cr_result = Panic p, cr_sink = bw_inner (rs_client st), cr_end = None, cr_log = None\<rparr>"

text \<open>\<open>client_end(client.into_inner()?, ok)\<close> and \<open>return Ok(())\<close>.\<close>

definition end_client :: "bool \<Rightarrow> (nat \<times> byte list option) option \<Rightarrow> recv_state \<Rightarrow> client_result" where
  "end_client ok lg st =
     (case bw_into_inner (rs_client st) of
        (Ok u, w) \<Rightarrow> \<lparr>cr_result = Ok (), cr_sink = bw_inner w, cr_end = Some ok, cr_log = lg\<rparr>
      | (Err e, w) \<Rightarrow> fail_with (R_Other ''failed to retrieve client inner'') (st\<lparr>rs_client := w\<rparr>)\<lparr>cr_log := lg\<rparr>
      | (Panic p, w) \<Rightarrow> panic_with p (st\<lparr>rs_client := w\<rparr>))"

text \<open>The payload of a block: hashed, counted, written and, if configured, flushed.\<close>

definition write_payload :: "receive_config \<Rightarrow> byte list \<Rightarrow> recv_state \<Rightarrow>
    (unit, io_error) outcome \<times> recv_state" where
  "write_payload cfg payload st =
     (if payload = [] then (Ok (), st)
      else
        let st1 = st\<lparr>rs_hasher := map_option (\<lambda>h. h @ payload) (rs_hasher st),
                     rs_transmitted := rs_transmitted st + length payload\<rparr> in
        case bw_write_all payload (rs_client st1) of
          (Ok u, w) \<Rightarrow>
            if r_flush cfg
            then (case bw_flush w of (r, w') \<Rightarrow> (r, st1\<lparr>rs_client := w'\<rparr>))
            else (Ok (), st1\<lparr>rs_client := w\<rparr>)
        | (Err e, w) \<Rightarrow> (Err e, st1\<lparr>rs_client := w\<rparr>)
        | (Panic p, w) \<Rightarrow> (Panic p, st1\<lparr>rs_client := w\<rparr>))"

text \<open>One block: either the worker ends, or it goes on with a new state.\<close>

definition handle_block :: "receive_config \<Rightarrow> Block \<Rightarrow> recv_state \<Rightarrow> client_result + recv_state" where
  "handle_block cfg block st =
     (case Block_block_type block of
        Err e \<Rightarrow> Inl (fail_with (R_Protocol e) st)
      | Panic p \<Rightarrow> Inl (panic_with p st)
      | Ok block_type \<Rightarrow>
          (case (Block_payload block :: (byte list, receive_error) outcome) of
             Err e \<Rightarrow> Inl (fail_with e st)
           | Panic p \<Rightarrow> Inl (panic_with p st)
           | Ok payload \<Rightarrow>
               (case write_payload cfg payload st of
                  (Err e, st1) \<Rightarrow> Inl (fail_with (R_Io e) st1)
                | (Panic p, st1) \<Rightarrow> Inl (panic_with p st1)
                | (Ok u, st1) \<Rightarrow>
                    (case block_type of
                       Abort \<Rightarrow> Inl (end_client False None st1)
                     | End \<Rightarrow>
                         let lg = Some (rs_transmitted st1, rs_hasher st1) in
                         (case bw_flush (rs_client st1) of
                            (Ok u, w) \<Rightarrow> Inl (end_client True lg (st1\<lparr>rs_client := w\<rparr>))
                          | (Err e, w) \<Rightarrow> Inl (fail_with (R_Io e) (st1\<lparr>rs_client := w\<rparr>)\<lparr>cr_log := lg\<rparr>)
                          | (Panic p, w) \<Rightarrow> Inl (panic_with p (st1\<lparr>rs_client := w\<rparr>)))
                     | _ \<Rightarrow> Inr st1))))"

text \<open>Without an abort timeout the worker blocks in \<open>recv\<close>, and a timeout cannot occur.\<close>

fun receive_loop :: "receive_config \<Rightarrow> reception list \<Rightarrow> recv_state \<Rightarrow> client_result option" where
  "receive_loop cfg [] st = None"
| "receive_loop cfg (Got block # rest) st =
     (case handle_block cfg block st of
        Inl r \<Rightarrow> Some r
      | Inr st' \<Rightarrow> receive_loop cfg rest st')"
| "receive_loop cfg (Got_Timeout # rest) st =
     (case abort_timeout cfg of
        None \<Rightarrow> receive_loop cfg rest st
      | Some t \<Rightarrow> Some (fail_with (R_Receive_Timeout RT_Timeout) st))"
| "receive_loop cfg (Got_Disconnected # rest) st =
     Some (fail_with (case abort_timeout cfg of None \<Rightarrow> R_Receive
        | Some t \<Rightarrow> R_Receive_Timeout RT_Disconnected) st)"

text \<open>
  \<open>client::start\<close>: \<open>client_new\<close> gives the peer's socket (here as a sink), or an error; the buffer has
  the size of a block's payload.
\<close>

definition receive_start :: "bool \<Rightarrow> receive_config \<Rightarrow> ('plan, 'config) RaptorQ \<Rightarrow>
    (sink, receive_error) outcome \<Rightarrow> reception list \<Rightarrow> client_result option" where
  "receive_start ovf cfg rq client_new recs =
     (case client_new of
        Err e \<Rightarrow> Some \<lparr>cr_result = Err e, cr_sink = \<lparr>sink_out = [], sink_limit = None\<rparr>, cr_end = None, cr_log = None\<rparr>
      | Panic p \<Rightarrow> Some \<lparr>cr_result = Panic p, cr_sink = \<lparr>sink_out = [], sink_limit = None\<rparr>, cr_end = None, cr_log = None\<rparr>
      | Ok client \<Rightarrow>
          (case (max_data_len ovf rq :: (nat, receive_error) outcome) of
             Err e \<Rightarrow> Some \<lparr>cr_result = Err e, cr_sink = client, cr_end = None, cr_log = None\<rparr>
           | Panic p \<Rightarrow> Some \<lparr>cr_result = Panic p, cr_sink = client, cr_end = None, cr_log = None\<rparr>
           | Ok n \<Rightarrow>
               if n < 2 ^ 63
               then receive_loop cfg recs \<lparr>rs_client = bw_new n client, rs_transmitted = 0,
                      rs_hasher = (if r_hash cfg then Some [] else None)\<rparr>
               else Some \<lparr>cr_result = Panic Capacity_Overflow, cr_sink = client, cr_end = None, cr_log = None\<rparr>))"

section \<open>Writing the stream\<close>

text \<open>The state after the payloads \<open>d\<close> have been written to a peer that takes everything.\<close>

definition has_written :: "receive_config \<Rightarrow> byte list \<Rightarrow> sink \<Rightarrow> recv_state \<Rightarrow> bool" where
  "has_written cfg d client st \<longleftrightarrow>
     bw_good (rs_client st) \<and> bw_view (rs_client st) = sink_out client @ d \<and>
     rs_transmitted st = length d \<and> rs_hasher st = (if r_hash cfg then Some d else None)"

lemma write_payload_ok:
  assumes "has_written cfg d client st"
  shows "\<exists>st'. write_payload cfg p st = (Ok (), st') \<and> has_written cfg (d @ p) client st'"
proof (cases "p = []")
  case True
  then show ?thesis using assms by (simp add: write_payload_def)
next
  case False
  have g: "bw_good (rs_client st)" using assms by (simp add: has_written_def)
  from bw_write_all_good [OF g, of p] obtain w where w: "bw_write_all p (rs_client st) = (Ok (), w)"
    "bw_good w" "bw_view w = bw_view (rs_client st) @ p" by blast
  from bw_flush_buf_good [OF w(2)] obtain w' where w': "bw_flush w = (Ok (), w')" "bw_good w'" "bw_view w' = bw_view w"
    by (auto simp: bw_flush_def)
  show ?thesis
    using assms False w w' by (cases "r_flush cfg") (auto simp: write_payload_def has_written_def)
qed

definition carries :: "Block \<Rightarrow> BlockType \<Rightarrow> byte list \<Rightarrow> bool" where
  "carries b t d \<longleftrightarrow> Block_block_type b = Ok t \<and> Block_payload b = (Ok d :: (byte list, receive_error) outcome)"

lemma handle_block_goes_on:
  assumes "has_written cfg d client st" and "carries b t p" and "t \<noteq> Abort" and "t \<noteq> End"
  shows "\<exists>st'. handle_block cfg b st = Inr st' \<and> has_written cfg (d @ p) client st'"
  using write_payload_ok [OF assms(1), of p] assms(2-4)
  by (cases t) (auto simp: handle_block_def carries_def)

definition ends_with :: "bool \<Rightarrow> byte list \<Rightarrow> sink \<Rightarrow> client_result \<Rightarrow> bool" where
  "ends_with ok d client r \<longleftrightarrow> cr_result r = Ok () \<and> sink_out (cr_sink r) = sink_out client @ d \<and> cr_end r = Some ok"

lemma end_client_ok:
  assumes "has_written cfg d client st"
  shows "ends_with ok d client (end_client ok lg st) \<and> cr_log (end_client ok lg st) = lg"
proof -
  have g: "bw_good (rs_client st)" using assms by (simp add: has_written_def)
  from bw_flush_buf_good [OF g] show ?thesis
    using assms by (auto simp: end_client_def bw_into_inner_def has_written_def ends_with_def)
qed

lemma handle_block_ends:
  assumes "has_written cfg d client st" and "carries b t p" and "t = End \<or> t = Abort"
  shows "\<exists>r. handle_block cfg b st = Inl r \<and> ends_with (t = End) (d @ p) client r \<and>
    (t = End \<longrightarrow> cr_log r = Some (length (d @ p), if r_hash cfg then Some (d @ p) else None))"
proof -
  from write_payload_ok [OF assms(1), of p] obtain st1 where
    st1: "write_payload cfg p st = (Ok (), st1)" "has_written cfg (d @ p) client st1" by blast
  show ?thesis
  proof (cases "t = End")
    case False
    then have "handle_block cfg b st = Inl (end_client False None st1)"
      using st1(1) assms(2,3) by (auto simp: handle_block_def carries_def)
    then show ?thesis using False end_client_ok [OF st1(2)] by simp
  next
    case True
    have g: "bw_good (rs_client st1)" using st1(2) by (simp add: has_written_def)
    from bw_flush_buf_good [OF g] obtain w where w: "bw_flush (rs_client st1) = (Ok (), w)" "bw_good w"
      "bw_view w = bw_view (rs_client st1)" by (auto simp: bw_flush_def)
    have "has_written cfg (d @ p) client (st1\<lparr>rs_client := w\<rparr>)"
      using st1(2) w by (simp add: has_written_def)
    from end_client_ok [OF this, of True "Some (rs_transmitted st1, rs_hasher st1)"]
    show ?thesis using True assms(2) st1 w(1)
      by (simp add: handle_block_def carries_def Let_def has_written_def)
  qed
qed

text \<open>The blocks \<open>bs\<close> carry the payloads \<open>ds\<close> and none of them ends the transfer.\<close>

definition stream_of :: "Block list \<Rightarrow> byte list list \<Rightarrow> bool" where
  "stream_of bs ds \<longleftrightarrow> list_all2 (\<lambda>b d. \<exists>t. carries b t d \<and> t \<noteq> Abort \<and> t \<noteq> End) bs ds"

lemma receive_loop_stream:
  "stream_of bs ds \<Longrightarrow> has_written cfg d client st \<Longrightarrow>
   \<exists>st'. receive_loop cfg (map Got bs @ rest) st = receive_loop cfg rest st' \<and>
     has_written cfg (d @ concat ds) client st'"
proof (induction bs ds arbitrary: d st rule: list_induct2')
  case (4 b bs p ds)
  then obtain t where "carries b t p" "t \<noteq> Abort" "t \<noteq> End" and s: "stream_of bs ds" by (auto simp: stream_of_def)
  then obtain st1 where st1: "handle_block cfg b st = Inr st1" "has_written cfg (d @ p) client st1"
    using handle_block_goes_on [OF 4(3)] by blast
  from "4.IH" [OF s st1(2)] st1(1) show ?case by simp
qed (auto simp: stream_of_def)

lemma receive_start_stream:
  assumes "stream_of bs ds" and "unlimited client" and "SERIALIZE_OVERHEAD \<le> unat (transfer_length rq)"
  shows "\<exists>st. receive_start ovf cfg rq (Ok client) (map Got bs @ rest) = receive_loop cfg rest st \<and>
    has_written cfg (concat ds) client st"
proof -
  have "unat (transfer_length rq) < 2 ^ 32" using unsigned_less [of "transfer_length rq"] by simp
  then have n: "max_data_len ovf rq = (Ok (unat (transfer_length rq) - SERIALIZE_OVERHEAD) :: (nat, receive_error) outcome)"
    "unat (transfer_length rq) - SERIALIZE_OVERHEAD < 2 ^ 63"
    using max_data_len_fits [OF assms(3)] by auto
  let ?st = "\<lparr>rs_client = bw_new (unat (transfer_length rq) - SERIALIZE_OVERHEAD) client, rs_transmitted = 0,
    rs_hasher = (if r_hash cfg then Some [] else None)\<rparr>"
  have "has_written cfg [] client ?st" using assms(2) by (simp add: has_written_def)
  from receive_loop_stream [OF assms(1) this] n show ?thesis by (simp add: receive_start_def)
qed

section \<open>The multiplex semaphore\<close>

text \<open>
  \<open>clients::start\<close>: \<open>max_clients\<close> workers take transfers from one queue; each waits for a permit of the
  semaphore, runs the transfer and gives the permit back. A panic ends the thread with its permit.
\<close>

datatype 'j client_worker = Idle | Acquiring 'j | Serving 'j | Dead

record 'j multiplex =
  mx_queue :: "'j list"
  mx_workers :: "'j client_worker list"
  mx_permits :: nat

definition multiplex_init :: "nat \<Rightarrow> 'j multiplex" where
  "multiplex_init n = \<lparr>mx_queue = [], mx_workers = replicate n Idle, mx_permits = n\<rparr>"

datatype served = Served_Returned | Served_Panicked

text \<open>One step of worker \<open>i\<close>; \<open>how\<close> says how \<open>client::start\<close> ends when it does. \<open>None\<close>: blocked.\<close>

definition clients_step :: "nat \<Rightarrow> served \<Rightarrow> 'j multiplex \<Rightarrow> 'j multiplex option" where
  "clients_step i how s =
     (if i < length (mx_workers s) then
        (case mx_workers s ! i of
           Idle \<Rightarrow> (case mx_queue s of [] \<Rightarrow> None
             | j # q \<Rightarrow> Some (s\<lparr>mx_queue := q, mx_workers := (mx_workers s)[i := Acquiring j]\<rparr>))
         | Acquiring j \<Rightarrow>
             if 0 < mx_permits s
             then Some (s\<lparr>mx_permits := mx_permits s - 1, mx_workers := (mx_workers s)[i := Serving j]\<rparr>)
             else None
         | Serving j \<Rightarrow>
             (case how of
                Served_Returned \<Rightarrow> Some (s\<lparr>mx_permits := mx_permits s + 1, mx_workers := (mx_workers s)[i := Idle]\<rparr>)
              | Served_Panicked \<Rightarrow> Some (s\<lparr>mx_workers := (mx_workers s)[i := Dead]\<rparr>))
         | Dead \<Rightarrow> None)
      else None)"

inductive mx_trans :: "'j multiplex \<Rightarrow> 'j multiplex \<Rightarrow> bool" where
  arrive: "mx_trans s (s\<lparr>mx_queue := mx_queue s @ [j]\<rparr>)"
| worker: "clients_step i how s = Some t \<Longrightarrow> mx_trans s t"

fun holds_permit :: "'j client_worker \<Rightarrow> bool" where
  "holds_permit (Serving j) = True"
| "holds_permit Dead = True"
| "holds_permit _ = False"

definition permits_held :: "'j multiplex \<Rightarrow> nat" where
  "permits_held s = length (filter holds_permit (mx_workers s))"

lemma mx_invariant:
  assumes "mx_trans\<^sup>*\<^sup>* (multiplex_init n) s"
  shows "length (mx_workers s) = n \<and> mx_permits s + permits_held s = n"
  using assms
proof (induction rule: rtranclp_induct)
  case base
  have "filter holds_permit (replicate n Idle) = []" by (induction n) auto
  then show ?case by (simp add: multiplex_init_def permits_held_def)
next
  case (step s t)
  from step(2) show ?case
  proof cases
    case (arrive j)
    then show ?thesis using step(3) by (simp add: permits_held_def)
  next
    case (worker i how)
    then have i: "i < length (mx_workers s)" by (simp add: clients_step_def split: if_splits)
    show ?thesis
      using worker step(3) i length_filter_pos [OF i, of holds_permit]
      by (auto simp: clients_step_def permits_held_def length_filter_replace
          split: client_worker.splits list.splits if_splits served.splits)
  qed
qed

section \<open>Properties\<close>

definition demo_payload :: "BlockType \<Rightarrow> byte list \<Rightarrow> Block" where
  "demo_payload t d = block_layout 17 t 7 d"

lemma demo_carries: "length d < 2 ^ 32 \<Longrightarrow> carries (demo_payload t d) t d"
  by (simp add: carries_def demo_payload_def)

lemma small_overhead: "SERIALIZE_OVERHEAD \<le> unat (transfer_length small_rq)"
  by (simp add: SERIALIZE_OVERHEAD_def)

definition open_sink :: sink where
  "open_sink = \<lparr>sink_out = [], sink_limit = None\<rparr>"

lemma open_sink_simps [simp]: "sink_out open_sink = []" "unlimited open_sink"
  by (simp_all add: open_sink_def unlimited_def)

lemma demo_stream: "stream_of [demo_payload Start [1], demo_payload Data [2, 3]] [[1], [2, 3]]"
  using demo_carries [of "[1]" Start] demo_carries [of "[2, 3]" Data] by (auto simp: stream_of_def)

text \<open>
  C12. The client worker writes exactly the stream: for every configuration (flush, hash, timeout),
  when the blocks of a transfer carry the payloads \<open>ds\<close> and the last one, an \<open>End\<close> or an \<open>Abort\<close>,
  carries \<open>d\<close>, and the peer takes all bytes, the peer receives the concatenation of the payloads
  and nothing else, \<open>client_end\<close> is called once, with \<open>true\<close> for an \<open>End\<close> and \<open>false\<close> for an \<open>Abort\<close>,
  and later blocks are not read.
\<close>

theorem client_writes_stream:
  assumes "stream_of bs ds" and "carries b t d" and "t = End \<or> t = Abort" and "unlimited client"
    and "SERIALIZE_OVERHEAD \<le> unat (transfer_length rq)"
  shows "\<exists>r. receive_start ovf cfg rq (Ok client) (map Got bs @ Got b # rest) = Some r \<and>
    cr_result r = Ok () \<and> sink_out (cr_sink r) = sink_out client @ concat ds @ d \<and> cr_end r = Some (t = End)"
proof -
  from receive_start_stream [OF assms(1,4,5)] obtain st where
    "receive_start ovf cfg rq (Ok client) (map Got bs @ Got b # rest) = receive_loop cfg (Got b # rest) st"
    "has_written cfg (concat ds) client st" by blast
  with handle_block_ends [OF _ assms(2,3), of cfg "concat ds" client st] show ?thesis
    by (auto simp: ends_with_def)
qed

theorem client_writes_stream_witness:
  "\<exists>r. receive_start True small_receive_config small_rq (Ok open_sink)
      (map Got [demo_payload Start [1], demo_payload Data [2, 3]] @ Got (demo_payload End [4]) # []) = Some r \<and>
    cr_result r = Ok () \<and> sink_out (cr_sink r) = [1, 2, 3, 4] \<and> cr_end r = Some True"
  using client_writes_stream [OF demo_stream demo_carries, of "[4]" End open_sink small_rq True small_receive_config "[]"]
    small_overhead by simp

text \<open>
  C21. A transfer that stops without an \<open>End\<close> or \<open>Abort\<close> block (the abort timeout expires, or the
  dispatch worker drops the channel) ends with an error, \<open>client_end\<close> is not called, and yet
  everything received so far, buffered bytes included, has been written to the peer.
\<close>

theorem interrupted_transfer:
  assumes "stream_of bs ds" and "unlimited client" and "SERIALIZE_OVERHEAD \<le> unat (transfer_length rq)"
    and "ev = Got_Disconnected \<or> (ev = Got_Timeout \<and> abort_timeout cfg \<noteq> None)"
  shows "\<exists>r e. receive_start ovf cfg rq (Ok client) (map Got bs @ ev # rest) = Some r \<and>
    cr_result r = Err e \<and> sink_out (cr_sink r) = sink_out client @ concat ds \<and> cr_end r = None"
proof -
  from receive_start_stream [OF assms(1-3)] obtain st where st:
    "receive_start ovf cfg rq (Ok client) (map Got bs @ ev # rest) = receive_loop cfg (ev # rest) st"
    "has_written cfg (concat ds) client st" by blast
  have "sink_out (bw_drop (rs_client st)) = sink_out client @ concat ds"
    using st(2) bw_drop_good by (simp add: has_written_def)
  then show ?thesis using st(1) assms(4) by (auto simp: fail_with_def)
qed

theorem interrupted_transfer_witness:
  "\<exists>r e. receive_start True small_receive_config small_rq (Ok open_sink)
      (map Got [demo_payload Start [1], demo_payload Data [2, 3]] @ Got_Disconnected # []) = Some r \<and>
    cr_result r = Err e \<and> sink_out (cr_sink r) = [1, 2, 3] \<and> cr_end r = None"
  using interrupted_transfer [OF demo_stream, of open_sink small_rq Got_Disconnected small_receive_config True "[]"]
    small_overhead by simp

text \<open>
  C22. The semaphore never makes a client worker wait: with \<open>n\<close> permits and \<open>n\<close> workers, in every
  reachable state at most \<open>n\<close> transfers are served and a worker that has taken a transfer finds a
  permit, even after some threads have died with theirs.
\<close>

theorem multiplex_never_blocks:
  assumes "mx_trans\<^sup>*\<^sup>* (multiplex_init n) s"
  shows "length (filter holds_permit (mx_workers s)) \<le> n \<and>
    (\<forall>i j. i < length (mx_workers s) \<and> mx_workers s ! i = Acquiring j \<longrightarrow> (\<exists>t. clients_step i how s = Some t))"
proof -
  have inv: "length (mx_workers s) = n" "mx_permits s + permits_held s = n" using mx_invariant [OF assms] by auto
  have "0 < mx_permits s" if "i < length (mx_workers s)" "mx_workers s ! i = Acquiring j" for i j
  proof -
    have "mx_workers s ! i \<in> set (mx_workers s)" using that(1) by simp
    then have "permits_held s < length (mx_workers s)"
      unfolding permits_held_def by (rule length_filter_less) (simp add: that(2))
    then show ?thesis using inv by simp
  qed
  then show ?thesis using inv by (auto simp: clients_step_def permits_held_def)
qed

theorem multiplex_never_blocks_witness:
  "\<exists>s :: nat multiplex. mx_trans\<^sup>*\<^sup>* (multiplex_init 1) s \<and> mx_workers s ! 0 = Acquiring 3 \<and>
    (\<exists>t. clients_step 0 Served_Returned s = Some t)"
proof -
  define s1 :: "nat multiplex" where "s1 = (multiplex_init 1)\<lparr>mx_queue := mx_queue (multiplex_init 1) @ [3]\<rparr>"
  have a: "mx_trans (multiplex_init 1) s1" unfolding s1_def by (rule mx_trans.arrive)
  obtain s where s: "clients_step 0 Served_Returned s1 = Some s" "length (mx_workers s) = 1" "mx_workers s ! 0 = Acquiring 3"
    by (simp add: s1_def multiplex_init_def clients_step_def)
  have r: "mx_trans\<^sup>*\<^sup>* (multiplex_init 1) s" using a mx_trans.worker [OF s(1)] by (meson r_into_rtranclp rtranclp.rtrancl_into_rtrancl)
  from multiplex_never_blocks [OF r, of Served_Returned] s(2,3) r show ?thesis by auto
qed

end
