(* ===== verification/Aux_File.thy ===== *)
theory Aux_File
  imports Stream_IO
begin

text \<open>
  File transfer over the diode (\<open>src/aux/file\<close>): the header and footer (\<open>protocol.rs\<close>), the sender
  (\<open>send.rs\<close>) and the receiver (\<open>receive.rs\<close>). Strings and paths are byte lists; a Rust \<open>String\<close> is one
  that is valid UTF-8. The hash function is a parameter: it gets the list of the writes to the hasher.
\<close>

section \<open>Header and footer\<close>

datatype file_protocol_error =
    FP_Io io_error
  | FP_String_Format
  | FP_Invalid_File_Size nat nat
  | FP_Invalid_Hash u128 u128

datatype file_error = F_Io io_error | F_Diode file_protocol_error | F_Other string

record file_header =
  fh_name :: "byte list"
  fh_mode :: u32
  fh_length :: u64

text \<open>The \<open>write_all\<close> calls of \<open>Header::serialize_to\<close> and \<open>Footer::serialize_to\<close>.\<close>

definition header_writes :: "file_header \<Rightarrow> byte list list" where
  "header_writes h = [to_le_bytes (of_nat (length (fh_name h)) :: u64), fh_name h,
     to_le_bytes (fh_mode h), to_le_bytes (fh_length h)]"

definition footer_writes :: "u128 \<Rightarrow> byte list list" where
  "footer_writes hash = [to_le_bytes hash]"

text \<open>\<open>String::from_utf8\<close>: the well-formed byte sequences of the Unicode standard.\<close>

definition utf8_tail :: "byte \<Rightarrow> bool" where
  "utf8_tail b \<longleftrightarrow> 128 \<le> unat b \<and> unat b < 192"

definition utf8_second :: "byte \<Rightarrow> byte \<Rightarrow> bool" where
  "utf8_second a b \<longleftrightarrow> utf8_tail b \<and>
     (unat a = 224 \<longrightarrow> 160 \<le> unat b) \<and> (unat a = 237 \<longrightarrow> unat b < 160) \<and>
     (unat a = 240 \<longrightarrow> 144 \<le> unat b) \<and> (unat a = 244 \<longrightarrow> unat b < 144)"

fun utf8_ok :: "byte list \<Rightarrow> bool" where
  "utf8_ok [] = True"
| "utf8_ok (a # bs) =
     (if unat a < 128 then utf8_ok bs
      else case bs of [] \<Rightarrow> False | b # bs1 \<Rightarrow>
        if 194 \<le> unat a \<and> unat a < 224 then utf8_tail b \<and> utf8_ok bs1
        else case bs1 of [] \<Rightarrow> False | c # bs2 \<Rightarrow>
          if 224 \<le> unat a \<and> unat a < 240 then utf8_second a b \<and> utf8_tail c \<and> utf8_ok bs2
          else case bs2 of [] \<Rightarrow> False | d # bs3 \<Rightarrow>
            240 \<le> unat a \<and> unat a < 245 \<and> utf8_second a b \<and> utf8_tail c \<and> utf8_tail d \<and> utf8_ok bs3)"

definition Header_deserialize_from :: "script \<Rightarrow> (file_header, file_protocol_error) outcome \<times> script" where
  "Header_deserialize_from =
     sbind (smap_err FP_Io (read_exact 8)) (\<lambda>b.
     let file_name_len = unat (from_le_bytes b :: u64) in
     sbind (slift (vec_zeroed file_name_len)) (\<lambda>_.
     sbind (smap_err FP_Io (read_exact file_name_len)) (\<lambda>file_name.
     if \<not> utf8_ok file_name then slift (Err FP_String_Format)
     else
       sbind (smap_err FP_Io (read_exact 4)) (\<lambda>mode.
       sbind (smap_err FP_Io (read_exact 8)) (\<lambda>file_length.
       slift (Ok \<lparr>fh_name = file_name, fh_mode = from_le_bytes mode, fh_length = from_le_bytes file_length\<rparr>))))))"

definition Footer_deserialize_from :: "script \<Rightarrow> (u128, file_protocol_error) outcome \<times> script" where
  "Footer_deserialize_from = sbind (smap_err FP_Io (read_exact 16)) (\<lambda>b. slift (Ok (from_le_bytes b)))"

lemma header_roundtrip:
  assumes "clean s" and "script_bytes s = concat (header_writes h) @ bs"
    and "utf8_ok (fh_name h)" and "length (fh_name h) < 2 ^ 63"
  shows "\<exists>s'. Header_deserialize_from s = (Ok h, s') \<and> clean s' \<and> script_bytes s' = bs"
proof -
  let ?n = "length (fh_name h)"
  have n: "unat (of_nat ?n :: u64) = ?n" using assms(4) by (simp add: unat_of_nat_small)
  have sb: "script_bytes s = to_le_bytes (of_nat ?n :: u64) @ fh_name h @ to_le_bytes (fh_mode h) @
      to_le_bytes (fh_length h) @ bs" using assms(2) by (simp add: header_writes_def)
  obtain s1 where s1: "read_exact 8 s = (Ok (to_le_bytes (of_nat ?n :: u64)), s1)" "clean s1"
    "script_bytes s1 = fh_name h @ to_le_bytes (fh_mode h) @ to_le_bytes (fh_length h) @ bs"
    using le64.read_field [OF assms(1) sb] by blast
  obtain s2 where s2: "read_exact ?n s1 = (Ok (fh_name h), s2)" "clean s2"
    "script_bytes s2 = to_le_bytes (fh_mode h) @ to_le_bytes (fh_length h) @ bs"
    using read_exact_clean [OF s1(2), of ?n] s1(3) by auto
  obtain s3 where s3: "read_exact 4 s2 = (Ok (to_le_bytes (fh_mode h)), s3)" "clean s3"
    "script_bytes s3 = to_le_bytes (fh_length h) @ bs"
    using le32.read_field [OF s2(2,3)] by blast
  obtain s4 where s4: "read_exact 8 s3 = (Ok (to_le_bytes (fh_length h)), s4)" "clean s4" "script_bytes s4 = bs"
    using le64.read_field [OF s3(2,3)] by blast
  have "Header_deserialize_from s = (Ok h, s4)"
    using assms(3,4) s1(1) s2(1) s3(1) s4(1) n
    by (simp add: Header_deserialize_from_def outcome_simps from_to_le_bytes vec_zeroed_def slift_def Let_def)
  with s4 show ?thesis by blast
qed

lemma footer_roundtrip:
  assumes "clean s" and "script_bytes s = to_le_bytes hash @ bs"
  shows "\<exists>s'. Footer_deserialize_from s = (Ok hash, s') \<and> clean s' \<and> script_bytes s' = bs"
  using le128.read_field [OF assms]
  by (auto simp: Footer_deserialize_from_def outcome_simps slift_def from_to_le_bytes)

section \<open>Paths\<close>

text \<open>\<open>Path::file_name\<close>: the last component, if it is a normal one (not \<open>..\<close>).\<close>

fun split_slash :: "byte list \<Rightarrow> byte list list" where
  "split_slash [] = [[]]"
| "split_slash (b # bs) =
     (if b = 47 then [] # split_slash bs
      else case split_slash bs of [] \<Rightarrow> [[b]] | p # ps \<Rightarrow> (b # p) # ps)"

definition path_file_name :: "byte list \<Rightarrow> byte list option" where
  "path_file_name p =
     (case rev (filter (\<lambda>c. c \<noteq> [] \<and> c \<noteq> [46]) (split_slash p)) of
        [] \<Rightarrow> None
      | c # _ \<Rightarrow> if c = [46, 46] then None else Some c)"

definition plain_name :: "byte list \<Rightarrow> bool" where
  "plain_name n \<longleftrightarrow> n \<noteq> [] \<and> n \<noteq> [46] \<and> n \<noteq> [46, 46] \<and> 47 \<notin> set n"

lemma split_slash_parts: "p \<in> set (split_slash bs) \<Longrightarrow> 47 \<notin> set p"
  by (induction bs arbitrary: p) (auto split: if_splits list.splits)

lemma split_slash_single: "47 \<notin> set n \<Longrightarrow> split_slash n = [n]"
  by (induction n) auto

lemma path_file_name_plain:
  assumes "path_file_name p = Some n"
  shows "plain_name n"
proof -
  define cs where "cs = filter (\<lambda>c. c \<noteq> [] \<and> c \<noteq> [46]) (split_slash p)"
  obtain c cs' where c: "rev cs = c # cs'" using assms by (cases "rev cs") (auto simp: path_file_name_def cs_def)
  then have n: "n = c" "c \<noteq> [46, 46]"
    using assms by (auto simp: path_file_name_def cs_def split: if_splits)
  have "c \<in> set (rev cs)" unfolding c by simp
  then show ?thesis using n split_slash_parts by (auto simp: cs_def plain_name_def)
qed

lemma path_file_name_of_plain: "plain_name n \<Longrightarrow> path_file_name n = Some n"
  by (simp add: plain_name_def path_file_name_def split_slash_single)

section \<open>The sender\<close>

record file_config =
  fc_buffer_size :: nat
  fc_hash :: bool
  fc_max_files :: nat

type_synonym hash_fun = "byte list list \<Rightarrow> u128"

text \<open>
  A file to send: \<open>is_file\<close>, what \<open>open\<close> and \<open>metadata\<close> return (the mode and the length), and what the
  reads return.
\<close>

record source_file =
  sf_is_file :: bool
  sf_open :: "(unit, io_error) outcome"
  sf_metadata :: "(u32 \<times> u64, io_error) outcome"
  sf_data :: script

text \<open>\<open>Vec::hash\<close> writes the length and then the bytes; \<open>hasher.write\<close> only the bytes.\<close>

definition vec_hash :: "byte list \<Rightarrow> byte list list" where
  "vec_hash v = [to_le_bytes (of_nat (length v) :: u64), v]"

definition hash_write :: "file_config \<Rightarrow> byte list list \<Rightarrow> byte list list \<Rightarrow> byte list list" where
  "hash_write cfg ws hs = (if fc_hash cfg then hs @ ws else hs)"

text \<open>The end of the file: the rest of the buffer, then the footer.\<close>

definition send_rest :: "hash_fun \<Rightarrow> file_config \<Rightarrow> byte list \<Rightarrow> nat \<Rightarrow> byte list list \<Rightarrow> sink \<Rightarrow>
    (nat, file_error) outcome \<times> sink" where
  "send_rest H cfg acc nsent hs =
     sbind (if acc = [] then slift (Ok ()) else smap_err F_Io (sink_write_all acc)) (\<lambda>_.
     let nsent' = nsent + length acc;
         hs' = (if acc = [] then hs else hash_write cfg [acc] hs);
         hash = (if fc_hash cfg then H hs' else 0) in
     sbind (smap_err (\<lambda>e. F_Diode (FP_Io e)) (write_seq sink_write_all (footer_writes hash))) (\<lambda>_.
     slift (Ok nsent')))"

text \<open>The read loop. \<open>acc\<close> is \<open>buffer[..cursor]\<close>, \<open>hs\<close> the writes to the hasher.\<close>

function file_send_loop :: "hash_fun \<Rightarrow> file_config \<Rightarrow> byte list \<Rightarrow> nat \<Rightarrow> byte list list \<Rightarrow> script \<Rightarrow> sink \<Rightarrow>
    (nat, file_error) outcome \<times> sink" where
  "file_send_loop H cfg acc nsent hs file diode =
     (case stream_read (fc_buffer_size cfg - length acc) file of
        (Err e, file') \<Rightarrow> (Err (F_Io e), diode)
      | (Panic p, file') \<Rightarrow> (Panic p, diode)
      | (Ok chunk, file') \<Rightarrow>
          if chunk = [] then send_rest H cfg acc nsent hs diode
          else if length acc + length chunk < fc_buffer_size cfg
          then file_send_loop H cfg (acc @ chunk) nsent hs file' diode
          else
            (case sink_write_all (acc @ chunk) diode of
               (Err e, diode') \<Rightarrow> (Err (F_Io e), diode')
             | (Panic p, diode') \<Rightarrow> (Panic p, diode')
             | (Ok u, diode') \<Rightarrow>
                 file_send_loop H cfg [] (nsent + fc_buffer_size cfg)
                   (hash_write cfg (vec_hash (acc @ chunk)) hs) file' diode'))"
  by pat_completeness auto
termination
  by (relation "measure (\<lambda>(H, cfg, acc, nsent, hs, file, diode). script_size file)")
    (auto dest!: stream_read_shrinks [OF sym])

declare file_send_loop.simps [simp del]

definition send_file_aux :: "hash_fun \<Rightarrow> file_config \<Rightarrow> source_file \<Rightarrow> byte list \<Rightarrow> sink \<Rightarrow>
    (nat, file_error) outcome \<times> sink" where
  "send_file_aux H cfg f file_path =
     (if \<not> sf_is_file f then slift (Err (F_Other ''not a file''))
      else
        sbind (slift (omap_err F_Io (sf_open f))) (\<lambda>_.
        case path_file_name file_path of
          None \<Rightarrow> slift (Err (F_Other ''unwrap of file_name failed''))
        | Some file_name \<Rightarrow>
            if \<not> utf8_ok file_name
            then slift (Err (F_Other ''conversion from OsString to String failed''))
            else
              sbind (slift (omap_err F_Io (sf_metadata f))) (\<lambda>(mode, len).
              sbind (smap_err (\<lambda>e. F_Diode (FP_Io e)) (write_seq sink_write_all
                  (header_writes \<lparr>fh_name = file_name, fh_mode = mode, fh_length = len\<rparr>))) (\<lambda>_.
              sbind (slift (vec_zeroed (fc_buffer_size cfg))) (\<lambda>_.
              file_send_loop H cfg [] 0 [] (sf_data f))))))"

text \<open>\<open>send_file\<close> connects to the diode first: \<open>conn\<close> is what that gives.\<close>

definition send_file :: "hash_fun \<Rightarrow> file_config \<Rightarrow> (sink, io_error) outcome \<Rightarrow> source_file \<Rightarrow> byte list \<Rightarrow>
    (nat, file_error) outcome \<times> byte list" where
  "send_file H cfg conn f file_path =
     (case conn of
        Err e \<Rightarrow> (Err (F_Io e), [])
      | Panic p \<Rightarrow> (Panic p, [])
      | Ok diode \<Rightarrow> (case send_file_aux H cfg f file_path diode of (r, diode') \<Rightarrow> (r, sink_out diode')))"

text \<open>\<open>send_files\<close> stops at the first file that fails. The result pairs it with what each connection carried.\<close>

fun send_files :: "hash_fun \<Rightarrow> file_config \<Rightarrow> ((sink, io_error) outcome \<times> source_file \<times> byte list) list \<Rightarrow>
    (unit, file_error) outcome \<times> byte list list" where
  "send_files H cfg [] = (Ok (), [])"
| "send_files H cfg ((conn, f, file_path) # fs) =
     (case send_file H cfg conn f file_path of
        (Ok nsent, bs) \<Rightarrow> (case send_files H cfg fs of (r, bss) \<Rightarrow> (r, bs # bss))
      | (Err e, bs) \<Rightarrow> (Err e, [bs])
      | (Panic p, bs) \<Rightarrow> (Panic p, [bs]))"

section \<open>The receiver\<close>

record stored_file =
  st_mode :: u32
  st_data :: "byte list"

type_synonym directory = "byte list \<Rightarrow> stored_file option"

text \<open>The file system's part: whether a file can be created, its mode set, and how much it takes.\<close>

record file_system =
  fsys_open :: "byte list \<Rightarrow> io_error option"
  fsys_chmod :: "u32 \<Rightarrow> io_error option"
  fsys_room :: "nat option"

text \<open>
  The end of the reading: the rest of the buffer is written, the footer read, the size and the hash
  checked. The loops return the result and the sink that stands for the file.
\<close>

definition receive_rest :: "hash_fun \<Rightarrow> file_config \<Rightarrow> u64 \<Rightarrow> byte list \<Rightarrow> nat \<Rightarrow> byte list list \<Rightarrow> script \<Rightarrow> sink \<Rightarrow>
    (nat, file_error) outcome \<times> sink" where
  "receive_rest H cfg file_length acc remaining hs diode =
     sbind (if acc = [] then slift (Ok ()) else smap_err F_Io (sink_write_all acc)) (\<lambda>_.
     let hs' = (if acc = [] then hs else hash_write cfg [acc] hs);
         received = unat file_length - remaining in
     case Footer_deserialize_from diode of
       (Err e, _) \<Rightarrow> slift (Err (F_Diode e))
     | (Panic p, _) \<Rightarrow> slift (Panic p)
     | (Ok footer_hash, _) \<Rightarrow>
         if remaining \<noteq> 0 then slift (Err (F_Diode (FP_Invalid_File_Size (unat file_length) received)))
         else if fc_hash cfg \<and> footer_hash \<noteq> H hs'
         then slift (Err (F_Diode (FP_Invalid_Hash (H hs') footer_hash)))
         else slift (Ok received))"

function file_receive_loop :: "hash_fun \<Rightarrow> file_config \<Rightarrow> u64 \<Rightarrow> byte list \<Rightarrow> nat \<Rightarrow> byte list list \<Rightarrow> script \<Rightarrow> sink \<Rightarrow>
    (nat, file_error) outcome \<times> sink" where
  "file_receive_loop H cfg file_length acc remaining hs diode file =
     (let stop = (if fc_buffer_size cfg - length acc \<le> remaining then fc_buffer_size cfg
                  else length acc + remaining) in
      case stream_read (stop - length acc) diode of
        (Err e, diode') \<Rightarrow> (Err (F_Io e), file)
      | (Panic p, diode') \<Rightarrow> (Panic p, file)
      | (Ok chunk, diode') \<Rightarrow>
          if chunk = [] then receive_rest H cfg file_length acc remaining hs diode' file
          else if length acc + length chunk < fc_buffer_size cfg
          then file_receive_loop H cfg file_length (acc @ chunk) (remaining - length chunk) hs diode' file
          else
            (case sink_write_all (acc @ chunk) file of
               (Err e, file') \<Rightarrow> (Err (F_Io e), file')
             | (Panic p, file') \<Rightarrow> (Panic p, file')
             | (Ok u, file') \<Rightarrow>
                 file_receive_loop H cfg file_length [] (remaining - length chunk)
                   (hash_write cfg (vec_hash (acc @ chunk)) hs) diode' file'))"
  by pat_completeness auto
termination
  by (relation "measure (\<lambda>(H, cfg, len, acc, remaining, hs, diode, file). script_size diode)")
    (auto dest!: stream_read_shrinks [OF sym])

declare file_receive_loop.simps [simp del]

text \<open>\<open>receive_file\<close> into the output directory: the result and the directory after it. (The mode of a file
  whose permissions could not be set is that of the process; 0 stands for it.)\<close>

definition receive_file :: "hash_fun \<Rightarrow> file_config \<Rightarrow> file_system \<Rightarrow> script \<Rightarrow> directory \<Rightarrow>
    (nat, file_error) outcome \<times> directory" where
  "receive_file H cfg fsys diode dir =
     (case Header_deserialize_from diode of
        (Err e, diode') \<Rightarrow> (Err (F_Diode e), dir)
      | (Panic p, diode') \<Rightarrow> (Panic p, dir)
      | (Ok header, diode') \<Rightarrow>
          (case path_file_name (fh_name header) of
             None \<Rightarrow> (Err (F_Other ''unwrap of file_name failed''), dir)
           | Some name \<Rightarrow>
               if dir name \<noteq> None then (Err (F_Other ''already exists''), dir)
               else
                 (case fsys_open fsys name of
                    Some e \<Rightarrow> (Err (F_Io e), dir)
                  | None \<Rightarrow>
                      (case fsys_chmod fsys (fh_mode header) of
                         Some e \<Rightarrow> (Err (F_Io e), dir(name \<mapsto> \<lparr>st_mode = 0, st_data = []\<rparr>))
                       | None \<Rightarrow>
                           if 2 ^ 63 \<le> fc_buffer_size cfg
                           then (Panic Capacity_Overflow, dir(name \<mapsto> \<lparr>st_mode = fh_mode header, st_data = []\<rparr>))
                           else
                             (case file_receive_loop H cfg (fh_length header) [] (unat (fh_length header)) [] diode'
                                 \<lparr>sink_out = [], sink_limit = fsys_room fsys\<rparr> of
                                (r, file) \<Rightarrow> (r, dir(name \<mapsto> \<lparr>st_mode = fh_mode header, st_data = sink_out file\<rparr>)))))))"

text \<open>
  \<open>receive_tcp_loop\<close> and \<open>receive_unix_loop\<close>: accept clients until \<open>max_files\<close> have been accepted (never,
  if it is 0). The result lists the clients served; \<open>None\<close> means that the loop waits for the next one.
\<close>

fun accept_loop :: "file_config \<Rightarrow> nat \<Rightarrow> (script, io_error) outcome list \<Rightarrow>
    script list \<times> (unit, file_error) outcome option" where
  "accept_loop cfg count accepts =
     (if fc_max_files cfg \<noteq> 0 \<and> fc_max_files cfg \<le> count then ([], Some (Ok ()))
      else case accepts of
        [] \<Rightarrow> ([], None)
      | Err e # _ \<Rightarrow> ([], Some (Err (F_Io e)))
      | Panic p # _ \<Rightarrow> ([], Some (Panic p))
      | Ok client # rest \<Rightarrow> (case accept_loop cfg (count + 1) rest of (cs, r) \<Rightarrow> (client # cs, r)))"

declare accept_loop.simps [simp del]

text \<open>
  \<open>receive_files\<close>: a listener is bound and its loop runs in a scoped thread; the scope, and with it the
  function, ends only after all its threads. A listener says whether its path exists (Unix sockets),
  what \<open>bind\<close> and the creation of the thread return, and whom it will accept; \<open>panics\<close> tells the clients
  whose thread panics. The result is \<open>None\<close> if the function does not return.
\<close>

record listener =
  li_exists :: bool
  li_bind :: "(unit, io_error) outcome"
  li_spawn :: "(unit, io_error) outcome"
  li_accepts :: "(script, io_error) outcome list"

definition listen :: "file_config \<Rightarrow> listener \<Rightarrow> (unit, file_error) outcome \<times> script list \<times> bool" where
  "listen cfg li =
     (case obind (li_bind li) (\<lambda>_. li_spawn li) of
        Ok u \<Rightarrow> (case accept_loop cfg 0 (li_accepts li) of (cs, r) \<Rightarrow> (Ok (), cs, r \<noteq> None))
      | Err e \<Rightarrow> (Err (F_Io e), [], True)
      | Panic p \<Rightarrow> (Panic p, [], True))"

definition scope_end :: "(script \<Rightarrow> bool) \<Rightarrow> script list \<Rightarrow> bool \<Rightarrow> (unit, file_error) outcome \<Rightarrow>
    (unit, file_error) outcome option" where
  "scope_end panics cs ended r =
     (if \<not> ended then None else if list_ex panics cs then Some (Panic Library_Panic) else Some r)"

definition receive_files :: "file_config \<Rightarrow> (script \<Rightarrow> bool) \<Rightarrow> bool \<Rightarrow> listener option \<Rightarrow> listener option \<Rightarrow>
    (unit, file_error) outcome option \<times> script list" where
  "receive_files cfg panics is_dir from_unix from_tcp =
     (if \<not> is_dir then (Some (Err (F_Other ''output_directory is not a directory'')), [])
      else
        (case (case from_unix of
                 None \<Rightarrow> (Ok (), [], True)
               | Some li \<Rightarrow>
                   if li_exists li then (Err (F_Other ''Unix socket path already exists''), [], True)
                   else listen cfg li) of
           (Ok u, cs, ended) \<Rightarrow>
             (case (case from_tcp of None \<Rightarrow> (Ok (), [], True) | Some li \<Rightarrow> listen cfg li) of
                (r, cs', ended') \<Rightarrow> (scope_end panics (cs @ cs') (ended \<and> ended') r, cs @ cs'))
         | (r, cs, ended) \<Rightarrow> (scope_end panics cs ended r, cs)))"

section \<open>What the loops compute\<close>

text \<open>The writes to the hasher for the content \<open>d\<close>: full buffers with their length, the rest without.\<close>

function hash_chunks :: "nat \<Rightarrow> byte list \<Rightarrow> byte list list" where
  "hash_chunks n d =
     (if 0 < n \<and> n \<le> length d then vec_hash (take n d) @ hash_chunks n (drop n d)
      else if d = [] then [] else [d])"
  by pat_completeness auto
termination by (relation "measure (\<lambda>(n, d). length d)") auto

declare hash_chunks.simps [simp del]

lemma hash_chunks_rest: "length d < n \<Longrightarrow> hash_chunks n d = (if d = [] then [] else [d])"
  by (simp add: hash_chunks.simps)

lemma hash_chunks_full: "0 < n \<Longrightarrow> length c = n \<Longrightarrow> hash_chunks n (c @ d) = vec_hash c @ hash_chunks n d"
  by (subst hash_chunks.simps) simp

definition final_hash :: "hash_fun \<Rightarrow> file_config \<Rightarrow> byte list list \<Rightarrow> u128" where
  "final_hash H cfg hs = (if fc_hash cfg then H hs else 0)"

lemma hash_write_final: "final_hash H cfg (hash_write cfg ws hs @ ws') = final_hash H cfg (hs @ ws @ ws')"
  by (simp add: final_hash_def hash_write_def)

lemma send_rest_ok:
  assumes "unlimited k" and "length acc < fc_buffer_size cfg"
  shows "send_rest H cfg acc n hs k = (Ok (n + length acc), k\<lparr>sink_out := sink_out k @ acc @
    to_le_bytes (final_hash H cfg (hs @ hash_chunks (fc_buffer_size cfg) acc))\<rparr>)"
  using assms
  by (cases "acc = []") (simp_all add: send_rest_def sbind_def slift_def smap_err_def sink_write_unlimited
      footer_writes_def hash_write_def final_hash_def hash_chunks_rest Let_def)

lemma file_send_loop_ok:
  "clean src \<Longrightarrow> length acc < fc_buffer_size cfg \<Longrightarrow> unlimited k \<Longrightarrow>
   file_send_loop H cfg acc n hs src k =
     (Ok (n + length acc + length (script_bytes src)), k\<lparr>sink_out := sink_out k @ acc @ script_bytes src @
        to_le_bytes (final_hash H cfg (hs @ hash_chunks (fc_buffer_size cfg) (acc @ script_bytes src)))\<rparr>)"
proof (induction src arbitrary: acc n hs k rule: measure_induct_rule [where f = script_size])
  case (less src)
  let ?bs = "fc_buffer_size cfg"
  obtain r src' where rd: "stream_read (?bs - length acc) src = (r, src')" by (cases "stream_read (?bs - length acc) src")
  have pos: "0 < ?bs - length acc" using less.prems(2) by simp
  from stream_read_clean [OF less.prems(1) pos rd] obtain c where c: "r = Ok c"
    "script_bytes src = c @ script_bytes src'" "clean src'" "c = [] \<longleftrightarrow> src = []" by blast
  have len: "length acc + length c \<le> ?bs" using stream_read_length [of "?bs - length acc" src c src'] rd c(1) less.prems(2) by simp
  show ?case
  proof (cases "c = []")
    case True
    then show ?thesis using rd c less.prems send_rest_ok [OF less.prems(3,2), of H n hs]
      by (subst file_send_loop.simps) simp
  next
    case ne: False
    have sm: "script_size src' < script_size src" using stream_read_shrinks [OF rd] c(1) ne by blast
    show ?thesis
    proof (cases "length acc + length c < ?bs")
      case True
      from less.IH [OF sm c(3) _ less.prems(3), of "acc @ c" n hs] True
      show ?thesis using rd c(1,2) ne by (subst file_send_loop.simps) (simp add: algebra_simps)
    next
      case False
      then have full: "length (acc @ c) = ?bs" using len by simp
      have "0 < ?bs" using less.prems(2) by simp
      from less.IH [OF sm c(3), of "[]" "k\<lparr>sink_out := sink_out k @ acc @ c\<rparr>" "n + ?bs" "hash_write cfg (vec_hash (acc @ c)) hs"]
        this less.prems(3) hash_chunks_full [OF this full, of "script_bytes src'"] full
      show ?thesis using rd c(1,2) ne False
        by (subst file_send_loop.simps) (simp add: sink_write_unlimited hash_write_final algebra_simps)
    qed
  qed
qed

text \<open>The outcome of a complete reception, given the footer and the writes to the hasher.\<close>

definition hash_verdict :: "hash_fun \<Rightarrow> file_config \<Rightarrow> u64 \<Rightarrow> u128 \<Rightarrow> byte list list \<Rightarrow> (nat, file_error) outcome" where
  "hash_verdict H cfg len fh ws =
     (if fc_hash cfg \<and> fh \<noteq> H ws then Err (F_Diode (FP_Invalid_Hash (H ws) fh)) else Ok (unat len))"

lemma hash_write_verdict:
  "hash_verdict H cfg len fh (hash_write cfg ws hs @ ws') = hash_verdict H cfg len fh (hs @ ws @ ws')"
  by (simp add: hash_verdict_def hash_write_def)

lemma receive_rest_ok:
  assumes "unlimited k" and "length acc < fc_buffer_size cfg" and "clean diode"
    and "script_bytes diode = to_le_bytes fh @ junk"
  shows "receive_rest H cfg len acc 0 hs diode k =
    (hash_verdict H cfg len fh (hs @ hash_chunks (fc_buffer_size cfg) acc), k\<lparr>sink_out := sink_out k @ acc\<rparr>)"
proof -
  obtain s' where "Footer_deserialize_from diode = (Ok fh, s')" using footer_roundtrip [OF assms(3,4)] by blast
  then show ?thesis using assms(1,2)
    by (cases "acc = []") (auto simp: receive_rest_def sbind_def slift_def smap_err_def sink_write_unlimited
        hash_write_def hash_verdict_def hash_chunks_rest Let_def)
qed

lemma file_receive_loop_ok:
  "clean diode \<Longrightarrow> length acc < fc_buffer_size cfg \<Longrightarrow> unlimited k \<Longrightarrow> length d = remaining \<Longrightarrow>
   script_bytes diode = d @ to_le_bytes fh @ junk \<Longrightarrow>
   file_receive_loop H cfg len acc remaining hs diode k =
     (hash_verdict H cfg len fh (hs @ hash_chunks (fc_buffer_size cfg) (acc @ d)), k\<lparr>sink_out := sink_out k @ acc @ d\<rparr>)"
proof (induction diode arbitrary: acc remaining hs k d rule: measure_induct_rule [where f = script_size])
  case (less diode)
  let ?bs = "fc_buffer_size cfg"
  define n where "n = (if ?bs - length acc \<le> remaining then ?bs else length acc + remaining) - length acc"
  have nle: "n \<le> remaining" "n \<le> ?bs - length acc" "n = 0 \<longleftrightarrow> remaining = 0"
    using less.prems(2) by (auto simp: n_def)
  obtain r diode' where rd: "stream_read n diode = (r, diode')" by (cases "stream_read n diode")
  have "length (to_le_bytes fh) = 16" by simp
  then have ne: "diode \<noteq> []" using less.prems(5) by (metis append_is_Nil_conv length_0_conv script_bytes.simps(1) zero_neq_numeral)
  show ?case
  proof (cases "n = 0")
    case True
    then have z: "remaining = 0" "d = []" using nle(3) less.prems(4) by auto
    obtain e ds where "diode = Chunk e # ds" using ne less.prems(1) by (cases diode; cases "hd diode") auto
    then have "stream_read 0 diode = (Ok [], diode)" "e \<noteq> []" using less.prems(1) by auto
    then show ?thesis
      using receive_rest_ok [OF less.prems(3,2,1), of fh junk H len hs] less.prems(5) z True
      by (subst file_receive_loop.simps) (simp only: n_def [symmetric] Let_def, simp)
  next
    case False
    then have pos: "0 < n" by simp
    from stream_read_clean [OF less.prems(1) pos rd] ne obtain c where c: "r = Ok c"
      "script_bytes diode = c @ script_bytes diode'" "clean diode'" "c \<noteq> []" by blast
    have len: "length c \<le> n" using stream_read_length rd c(1) by blast
    have sm: "script_size diode' < script_size diode" using stream_read_shrinks [OF rd] c(1,4) by blast
    have cd: "length c \<le> length d" using len nle(1) less.prems(4) by simp
    have "c = take (length c) d" using c(2) less.prems(5) cd
      by (metis append_eq_conv_conj take_append diff_is_0_eq' take0 append_Nil2)
    then obtain d' where d': "d = c @ d'" by (metis append_take_drop_id)
    then have rest: "script_bytes diode' = d' @ to_le_bytes fh @ junk" "length d' = remaining - length c"
      using c(2) less.prems(4,5) by simp_all
    show ?thesis
    proof (cases "length acc + length c < ?bs")
      case True
      have "length (acc @ c) < ?bs" using True by simp
      from less.IH [OF sm c(3) this less.prems(3) rest(2,1), of hs] rd c(1,4) True
      show ?thesis by (subst file_receive_loop.simps) (simp add: n_def [symmetric] d')
    next
      case False
      then have full: "length (acc @ c) = ?bs" using len nle(2) less.prems(2) by simp
      have b0: "0 < ?bs" using less.prems(2) by simp
      note hf = hash_chunks_full [OF b0 full, of d']
      have "length ([] :: byte list) < ?bs" "unlimited (k\<lparr>sink_out := sink_out k @ acc @ c\<rparr>)"
        using b0 less.prems(3) by simp_all
      from less.IH [OF sm c(3) this rest(2,1), of "hash_write cfg (vec_hash (acc @ c)) hs"] rd c(1,4) False hf
      show ?thesis using less.prems(3)
        by (subst file_receive_loop.simps) (simp add: n_def [symmetric] d' sink_write_unlimited hash_write_verdict)
    qed
  qed
qed

text \<open>The whole reception of a clean stream.\<close>

lemma receive_file_ok:
  assumes "clean diode" and "script_bytes diode = concat (header_writes h) @ d @ to_le_bytes fh @ junk"
    and "utf8_ok (fh_name h)" and "length (fh_name h) < 2 ^ 63" and "path_file_name (fh_name h) = Some n"
    and "length d = unat (fh_length h)" and "0 < fc_buffer_size cfg" and "fc_buffer_size cfg < 2 ^ 63"
    and "dir n = None" and "fsys_open fsys n = None" and "fsys_chmod fsys (fh_mode h) = None"
    and "fsys_room fsys = None"
  shows "receive_file H cfg fsys diode dir =
    (hash_verdict H cfg (fh_length h) fh (hash_chunks (fc_buffer_size cfg) d),
     dir(n \<mapsto> \<lparr>st_mode = fh_mode h, st_data = d\<rparr>))"
proof -
  obtain s where s: "Header_deserialize_from diode = (Ok h, s)" "clean s" "script_bytes s = d @ to_le_bytes fh @ junk"
    using header_roundtrip [OF assms(1,2,3,4)] by blast
  have "length ([] :: byte list) < fc_buffer_size cfg" "unlimited \<lparr>sink_out = [], sink_limit = None\<rparr>"
    using assms(7) by (simp_all add: unlimited_def)
  from file_receive_loop_ok [OF s(2) this assms(6) s(3), of H "fh_length h" "[]"]
  show ?thesis using assms(5,8-) s(1) by (simp add: receive_file_def)
qed

lemma send_file_aux_ok:
  assumes "sf_is_file f" and "sf_open f = Ok ()" and "sf_metadata f = Ok (mode, len)" and "clean (sf_data f)"
    and "path_file_name path = Some n" and "utf8_ok n"
    and "0 < fc_buffer_size cfg" and "fc_buffer_size cfg < 2 ^ 63"
  shows "send_file H cfg (Ok \<lparr>sink_out = [], sink_limit = None\<rparr>) f path =
    (Ok (length (script_bytes (sf_data f))),
     concat (header_writes \<lparr>fh_name = n, fh_mode = mode, fh_length = len\<rparr>) @ script_bytes (sf_data f) @
     to_le_bytes (final_hash H cfg (hash_chunks (fc_buffer_size cfg) (script_bytes (sf_data f)))))"
proof -
  let ?h = "\<lparr>fh_name = n, fh_mode = mode, fh_length = len\<rparr>"
  let ?k = "\<lparr>sink_out = [], sink_limit = None\<rparr>"
  have "unlimited ?k" by (simp add: unlimited_def)
  from sk.write_seq_ok [OF this, of "header_writes ?h"] obtain k1 where
    k1: "write_seq sink_write_all (header_writes ?h) ?k = (Ok (), k1)" "unlimited k1"
      "sink_out k1 = concat (header_writes ?h)" by auto
  have "length ([] :: byte list) < fc_buffer_size cfg" using assms(7) by simp
  from file_send_loop_ok [OF assms(4) this k1(2), of H 0 "[]"]
  show ?thesis using assms k1
    by (simp add: send_file_def send_file_aux_def vec_zeroed_def sbind_def slift_def smap_err_def)
qed

text \<open>A stream that ends before the announced length: the footer is then read at the end of the stream.\<close>

lemma Footer_of_nothing: "Footer_deserialize_from [] = (Err (FP_Io Unexpected_Eof), [])"
  by (simp add: Footer_deserialize_from_def read_exact.simps sbind_def smap_err_def)

lemma file_receive_loop_short:
  "clean diode \<Longrightarrow> length acc < fc_buffer_size cfg \<Longrightarrow> unlimited k \<Longrightarrow> length (script_bytes diode) < remaining \<Longrightarrow>
   file_receive_loop H cfg len acc remaining hs diode k =
     (Err (F_Diode (FP_Io Unexpected_Eof)), k\<lparr>sink_out := sink_out k @ acc @ script_bytes diode\<rparr>)"
proof (induction diode arbitrary: acc remaining hs k rule: measure_induct_rule [where f = script_size])
  case (less diode)
  let ?bs = "fc_buffer_size cfg"
  define n where "n = (if ?bs - length acc \<le> remaining then ?bs else length acc + remaining) - length acc"
  have n: "0 < n" "n \<le> ?bs - length acc" using less.prems(2,4) by (auto simp: n_def)
  obtain r diode' where rd: "stream_read n diode = (r, diode')" by (cases "stream_read n diode")
  from stream_read_clean [OF less.prems(1) n(1) rd] obtain c where c: "r = Ok c"
    "script_bytes diode = c @ script_bytes diode'" "clean diode'" "c = [] \<longleftrightarrow> diode = []" by blast
  show ?case
  proof (cases "c = []")
    case True
    then show ?thesis using rd c less.prems
      by (subst file_receive_loop.simps)
        (simp only: n_def [symmetric] Let_def, simp add: receive_rest_def sbind_def slift_def smap_err_def
          sink_write_unlimited Footer_of_nothing)
  next
    case ne: False
    have sm: "script_size diode' < script_size diode" using stream_read_shrinks [OF rd] c(1) ne by blast
    have len: "length c \<le> n" using stream_read_length rd c(1) by blast
    have rest: "length (script_bytes diode') < remaining - length c" using less.prems(4) c(2) by simp
    show ?thesis
    proof (cases "length acc + length c < ?bs")
      case True
      then have "length (acc @ c) < ?bs" by simp
      from less.IH [OF sm c(3) this less.prems(3) rest, of hs] rd c(1,2) ne True
      show ?thesis by (subst file_receive_loop.simps) (simp add: n_def [symmetric])
    next
      case False
      have "length ([] :: byte list) < ?bs" "unlimited (k\<lparr>sink_out := sink_out k @ acc @ c\<rparr>)"
        using less.prems(2,3) by auto
      from less.IH [OF sm c(3) this rest, of "hash_write cfg (vec_hash (acc @ c)) hs"] rd c(1,2) ne False
      show ?thesis using less.prems(3)
        by (subst file_receive_loop.simps) (simp add: n_def [symmetric] sink_write_unlimited)
    qed
  qed
qed

lemma accept_loop_exact:
  "n \<le> fc_max_files cfg \<Longrightarrow> fc_max_files cfg \<noteq> 0 \<Longrightarrow>
   accept_loop cfg n (map Ok cs) = (take (fc_max_files cfg - n) cs,
     if fc_max_files cfg - n \<le> length cs then Some (Ok ()) else None)"
proof (induction cs arbitrary: n)
  case Nil
  then show ?case by (simp add: accept_loop.simps)
next
  case (Cons c cs)
  show ?case
  proof (cases "fc_max_files cfg \<le> n")
    case True
    then show ?thesis using Cons.prems by (simp add: accept_loop.simps)
  next
    case False
    then have "fc_max_files cfg - n = Suc (fc_max_files cfg - Suc n)" by simp
    then show ?thesis using False Cons.IH [of "Suc n"] Cons.prems by (simp add: accept_loop.simps)
  qed
qed

lemma hash_chunks_differ:
  assumes "n < n'" and "0 < n" and "n \<le> length d"
  shows "hash_chunks n d \<noteq> hash_chunks n' d"
proof
  assume eq: "hash_chunks n d = hash_chunks n' d"
  have l: "hash_chunks n d = vec_hash (take n d) @ hash_chunks n (drop n d)"
    using assms by (subst hash_chunks.simps) simp
  show False
  proof (cases "n' \<le> length d")
    case True
    then have "hash_chunks n' d = vec_hash (take n' d) @ hash_chunks n' (drop n' d)"
      using assms by (subst hash_chunks.simps) simp
    then have "take n d = take n' d" using eq l by (simp add: vec_hash_def)
    then have "length (take n d) = length (take n' d)" by (rule arg_cong)
    then show False using assms True by simp
  next
    case False
    then show False using eq l assms by (simp add: hash_chunks_rest vec_hash_def split: if_splits)
  qed
qed

section \<open>Properties\<close>

text \<open>
  A readable regular file with content \<open>d\<close>, mode and final name; a file system that takes a new file of
  that name; buffer sizes that \<open>vec!\<close> can allocate.
\<close>

definition regular_file :: "source_file \<Rightarrow> byte list \<Rightarrow> byte list \<Rightarrow> u32 \<Rightarrow> byte list \<Rightarrow> bool" where
  "regular_file f path n mode d \<longleftrightarrow>
     sf_is_file f \<and> sf_open f = Ok () \<and> sf_metadata f = Ok (mode, of_nat (length d)) \<and>
     clean (sf_data f) \<and> script_bytes (sf_data f) = d \<and> length d < 2 ^ 64 \<and>
     path_file_name path = Some n \<and> utf8_ok n \<and> length n < 2 ^ 63"

definition takes_file :: "file_system \<Rightarrow> directory \<Rightarrow> byte list \<Rightarrow> u32 \<Rightarrow> bool" where
  "takes_file fsys dir n mode \<longleftrightarrow>
     dir n = None \<and> fsys_open fsys n = None \<and> fsys_chmod fsys mode = None \<and> fsys_room fsys = None"

definition fair_buffer :: "file_config \<Rightarrow> bool" where
  "fair_buffer cfg \<longleftrightarrow> 0 < fc_buffer_size cfg \<and> fc_buffer_size cfg < 2 ^ 63"

lemma send_regular:
  assumes "regular_file f path n mode d" and "fair_buffer cfg"
  shows "send_file H cfg open_conn f path =
    (Ok (length d), concat (header_writes \<lparr>fh_name = n, fh_mode = mode, fh_length = of_nat (length d)\<rparr>) @ d @
       to_le_bytes (final_hash H cfg (hash_chunks (fc_buffer_size cfg) d)))"
  unfolding open_conn_def
  using assms send_file_aux_ok [of f mode "of_nat (length d)" path n cfg H]
  by (simp add: regular_file_def fair_buffer_def)

definition demo_config :: "nat \<Rightarrow> file_config" where
  "demo_config b = \<lparr>fc_buffer_size = b, fc_hash = True, fc_max_files = 2\<rparr>"

definition demo_hash :: "hash_fun" where
  "demo_hash ws = of_nat (length ws)"

definition demo_file :: source_file where
  "demo_file = \<lparr>sf_is_file = True, sf_open = Ok (), sf_metadata = Ok (420, 3), sf_data = [Chunk [7], Chunk [8, 9]]\<rparr>"

definition demo_system :: file_system where
  "demo_system = \<lparr>fsys_open = \<lambda>_. None, fsys_chmod = \<lambda>_. None, fsys_room = None\<rparr>"

definition demo_bytes :: "byte list" where
  "demo_bytes = snd (send_file demo_hash (demo_config 2) open_conn demo_file [47, 97])"

lemma demo_regular: "regular_file demo_file [47, 97] [97] 420 [7, 8, 9]"
proof -
  have "path_file_name [47, 97] = Some [97]" "utf8_ok [97]" by code_simp+
  then show ?thesis by (simp add: regular_file_def demo_file_def)
qed

lemma demo_setting:
  "fair_buffer (demo_config 2)" "fair_buffer (demo_config 3)"
  "takes_file demo_system Map.empty [97] m"
  by (simp_all add: fair_buffer_def demo_config_def takes_file_def demo_system_def)

lemma demo_bytes_delivered: "delivers [Chunk demo_bytes] demo_bytes"
proof -
  have "demo_bytes \<noteq> []"
    unfolding demo_bytes_def send_regular [OF demo_regular demo_setting(1)] by (simp add: header_writes_def)
  then show ?thesis by (simp add: delivers_def)
qed

lemma file_end_to_end:
  assumes "regular_file f path n mode d" and "fair_buffer cfg" and "fair_buffer cfg'"
    and "delivers diode (snd (send_file H cfg open_conn f path))" and "takes_file fsys dir n mode"
  shows "fst (send_file H cfg open_conn f path) = Ok (length d)"
    and "receive_file H cfg' fsys diode dir =
      (hash_verdict H cfg' (of_nat (length d)) (final_hash H cfg (hash_chunks (fc_buffer_size cfg) d))
         (hash_chunks (fc_buffer_size cfg') d),
       dir(n \<mapsto> \<lparr>st_mode = mode, st_data = d\<rparr>))"
proof -
  let ?h = "\<lparr>fh_name = n, fh_mode = mode, fh_length = of_nat (length d)\<rparr>"
  let ?fh = "final_hash H cfg (hash_chunks (fc_buffer_size cfg) d)"
  note rf = assms(1) [unfolded regular_file_def]
  have len: "unat (of_nat (length d) :: u64) = length d" using rf by (simp add: unat_of_nat_small)
  note sent = send_regular [OF assms(1,2), of H]
  show "fst (send_file H cfg open_conn f path) = Ok (length d)" using sent by simp
  have "path_file_name n = Some n" using rf path_file_name_plain path_file_name_of_plain by blast
  moreover have "script_bytes diode = concat (header_writes ?h) @ d @ to_le_bytes ?fh @ []"
    using assms(4) sent by (simp add: delivers_def)
  ultimately show "receive_file H cfg' fsys diode dir =
      (hash_verdict H cfg' (of_nat (length d)) ?fh (hash_chunks (fc_buffer_size cfg') d),
       dir(n \<mapsto> \<lparr>st_mode = mode, st_data = d\<rparr>))"
    using receive_file_ok [of diode ?h d ?fh "[]" n cfg' dir fsys H] rf assms(3-5) len
    by (simp add: delivers_def takes_file_def fair_buffer_def)
qed

lemma file_delivered:
  assumes "regular_file f path n mode d" and "fair_buffer cfg"
    and "fc_buffer_size cfg' = fc_buffer_size cfg" and "fc_hash cfg' = fc_hash cfg"
    and "delivers diode (snd (send_file H cfg open_conn f path))" and "takes_file fsys dir n mode"
  shows "fst (send_file H cfg open_conn f path) = Ok (length d) \<and>
    receive_file H cfg' fsys diode dir = (Ok (length d), dir(n \<mapsto> \<lparr>st_mode = mode, st_data = d\<rparr>))"
proof -
  have "fair_buffer cfg'" using assms(2,3) by (simp add: fair_buffer_def)
  moreover have "unat (of_nat (length d) :: u64) = length d"
    using assms(1) by (simp add: regular_file_def unat_of_nat_small)
  ultimately show ?thesis using file_end_to_end [OF assms(1,2) _ assms(5,6), of cfg'] assms(3,4)
    by (auto simp: hash_verdict_def final_hash_def)
qed

text \<open>
  C25. A file sent by \<open>send_file\<close> and received by \<open>receive_file\<close> with the same buffer size and hash option,
  however its bytes are cut into reads on either side, is stored under its own name with its mode and
  exactly its content, and both sides report its length. The receiver's other files are untouched.
\<close>

theorem file_crosses_diode:
  assumes "regular_file f path n mode d" and "fair_buffer cfg"
    and "fc_buffer_size cfg' = fc_buffer_size cfg" and "fc_hash cfg' = fc_hash cfg"
    and "delivers diode (snd (send_file H cfg open_conn f path))" and "takes_file fsys dir n mode"
  shows "fst (send_file H cfg open_conn f path) = Ok (length d) \<and>
    receive_file H cfg' fsys diode dir = (Ok (length d), dir(n \<mapsto> \<lparr>st_mode = mode, st_data = d\<rparr>))"
  by (rule file_delivered [OF assms])

theorem file_crosses_diode_witness:
  "receive_file demo_hash (demo_config 2) demo_system [Chunk demo_bytes] Map.empty =
    (Ok 3, [[97] \<mapsto> \<lparr>st_mode = 420, st_data = [7, 8, 9]\<rparr>])"
  using file_crosses_diode [OF demo_regular demo_setting(1) refl refl, of "[Chunk demo_bytes]" demo_hash demo_system Map.empty]
    demo_bytes_delivered demo_setting(3) by (simp add: demo_bytes_def)



text \<open>
  C33. A connection that closes before the announced length gives \<open>UnexpectedEof\<close> from the footer, never
  \<open>InvalidFileSize\<close>, and the partial file stays in the output directory under its final name.
\<close>

theorem truncated_file_is_kept:
  assumes "delivers diode (concat (header_writes h) @ d)" and "length d < unat (fh_length h)"
    and "utf8_ok (fh_name h)" and "length (fh_name h) < 2 ^ 63" and "path_file_name (fh_name h) = Some n"
    and "fair_buffer cfg" and "takes_file fsys dir n (fh_mode h)"
  shows "receive_file H cfg fsys diode dir =
    (Err (F_Diode (FP_Io Unexpected_Eof)), dir(n \<mapsto> \<lparr>st_mode = fh_mode h, st_data = d\<rparr>))"
proof -
  obtain s where s: "Header_deserialize_from diode = (Ok h, s)" "clean s" "script_bytes s = d"
    using header_roundtrip [OF _ _ assms(3,4)] assms(1) by (auto simp: delivers_def)
  have "length ([] :: byte list) < fc_buffer_size cfg" "unlimited \<lparr>sink_out = [], sink_limit = None\<rparr>"
    using assms(6) by (simp_all add: unlimited_def fair_buffer_def)
  from file_receive_loop_short [OF s(2) this, of "unat (fh_length h)"]
  show ?thesis using assms(2,5-7) s by (simp add: receive_file_def takes_file_def fair_buffer_def)
qed

theorem truncated_file_is_kept_witness:
  "receive_file demo_hash (demo_config 2) demo_system
     [Chunk (concat (header_writes \<lparr>fh_name = [97], fh_mode = 420, fh_length = 3\<rparr>) @ [7])] Map.empty =
    (Err (F_Diode (FP_Io Unexpected_Eof)), [[97] \<mapsto> \<lparr>st_mode = 420, st_data = [7]\<rparr>])"
proof -
  let ?h = "\<lparr>fh_name = [97], fh_mode = 420, fh_length = 3\<rparr>"
  have "delivers [Chunk (concat (header_writes ?h) @ [7])] (concat (header_writes ?h) @ [7])"
    by (simp add: delivers_def)
  moreover have "path_file_name [97] = Some [97]" "utf8_ok [97]" by code_simp+
  ultimately show ?thesis
    using truncated_file_is_kept [of _ ?h "[7]" "[97]" "demo_config 2" demo_system Map.empty demo_hash] demo_setting by simp
qed


text \<open>
  C35. With \<open>max_files\<close> set, the accept loop ends: from the connections on offer it serves the first
  \<open>max_files\<close> in order, and returns as soon as it has accepted that many.
\<close>

theorem accept_loop_ends:
  assumes "fc_max_files cfg \<noteq> 0"
  shows "accept_loop cfg 0 (map Ok cs) =
    (take (fc_max_files cfg) cs, if fc_max_files cfg \<le> length cs then Some (Ok ()) else None)"
  using accept_loop_exact [of 0 cfg cs] assms by simp

theorem accept_loop_ends_witness:
  "accept_loop (demo_config 1) 0 (map Ok [[Chunk [1]], [], [Chunk [2]]]) = ([[Chunk [1]], []], Some (Ok ()))"
  using accept_loop_ends [of "demo_config 1" "[[Chunk [1]], [], [Chunk [2]]]"] by (simp add: demo_config_def)

text \<open>
  C1. When the Unix listener runs without a limit on files and its clients keep being accepted, an error
  from binding the TCP socket (or starting its thread) is never reported: \<open>receive_files\<close> does not
  return, serving the Unix clients only.
\<close>

theorem bind_error_not_reported:
  assumes "fc_max_files cfg = 0" and "\<not> li_exists lu" and "li_bind lu = Ok ()" and "li_spawn lu = Ok ()"
    and "li_accepts lu = map Ok cs" and "li_bind lt = Err e"
  shows "receive_files cfg panics True (Some lu) (Some lt) = (None, cs)"
proof -
  have "accept_loop cfg n (map Ok cs) = (cs, None)" for n
    using assms(1) by (induction cs arbitrary: n) (simp_all add: accept_loop.simps)
  then show ?thesis using assms by (simp add: receive_files_def listen_def scope_end_def)
qed

theorem bind_error_not_reported_witness:
  "receive_files \<lparr>fc_buffer_size = 1, fc_hash = True, fc_max_files = 0\<rparr> (\<lambda>_. False) True
     (Some \<lparr>li_exists = False, li_bind = Ok (), li_spawn = Ok (), li_accepts = [Ok []]\<rparr>)
     (Some \<lparr>li_exists = False, li_bind = Err (Os_Error 98), li_spawn = Ok (), li_accepts = []\<rparr>) = (None, [[]])"
  by (rule bind_error_not_reported) simp_all

end
