(* ===== verification/Aux_Udp.thy ===== *)
theory Aux_Udp
  imports Stream_IO
begin

text \<open>
  UDP over the diode (\<open>src/aux/udp\<close>): \<open>send.rs\<close> puts each datagram it receives on the stream behind a
  header with its size (\<open>protocol.rs\<close>), \<open>receive.rs\<close> reads the stream and sends the datagrams on. What
  arrives at the UDP socket, and what \<open>bind\<close> and \<open>send_to\<close> return, are arguments.
\<close>

section \<open>The header\<close>

datatype udp_protocol_error = UP_Io io_error

datatype udp_error = U_Io io_error | U_Diode udp_protocol_error | U_Other string

record udp_config =
  uc_buffer_size :: nat

definition udp_header_writes :: "nat \<Rightarrow> byte list list" where
  "udp_header_writes n = [to_le_bytes (of_nat n :: u64)]"

definition udp_header_read :: "script \<Rightarrow> (nat, udp_protocol_error) outcome \<times> script" where
  "udp_header_read = sbind (smap_err UP_Io (read_exact 8)) (\<lambda>b. slift (Ok (unat (from_le_bytes b :: u64))))"

lemma udp_header_roundtrip:
  assumes "clean s" and "script_bytes s = to_le_bytes (of_nat n :: u64) @ bs" and "n < 2 ^ 64"
  shows "\<exists>s'. udp_header_read s = (Ok n, s') \<and> clean s' \<and> script_bytes s' = bs"
  using le64.read_field [OF assms(1,2)] assms(3)
  by (auto simp: udp_header_read_def outcome_simps slift_def from_to_le_bytes unat_of_nat_small)

section \<open>The sender\<close>

text \<open>
  \<open>recv_from\<close> fills the buffer and drops the rest of the datagram. The loop ends only by an error; a
  result of \<open>None\<close> means that it waits for the next datagram.
\<close>

definition recv_from :: "nat \<Rightarrow> byte list \<Rightarrow> byte list" where
  "recv_from n datagram = take n datagram"

fun udp_send_loop :: "udp_config \<Rightarrow> (byte list, io_error) outcome list \<Rightarrow> sink \<Rightarrow>
    (unit, udp_error) outcome option \<times> sink" where
  "udp_send_loop cfg [] diode = (None, diode)"
| "udp_send_loop cfg (Err e # arrivals) diode = (Some (Err (U_Io e)), diode)"
| "udp_send_loop cfg (Panic p # arrivals) diode = (Some (Panic p), diode)"
| "udp_send_loop cfg (Ok datagram # arrivals) diode =
     (let buffer = recv_from (uc_buffer_size cfg) datagram in
      case sbind (smap_err (\<lambda>e. U_Diode (UP_Io e)) (write_seq sink_write_all (udp_header_writes (length buffer))))
             (\<lambda>_. smap_err U_Io (sink_write_all buffer)) diode of
        (Ok u, diode') \<Rightarrow> udp_send_loop cfg arrivals diode'
      | (Err e, diode') \<Rightarrow> (Some (Err e), diode')
      | (Panic p, diode') \<Rightarrow> (Some (Panic p), diode'))"

definition send_udp_aux :: "udp_config \<Rightarrow> (unit, io_error) outcome \<Rightarrow> (byte list, io_error) outcome list \<Rightarrow>
    sink \<Rightarrow> (unit, udp_error) outcome option \<times> sink" where
  "send_udp_aux cfg bind_udp arrivals diode =
     (case obind (vec_zeroed (uc_buffer_size cfg)) (\<lambda>_. omap_err U_Io bind_udp) of
        Ok u \<Rightarrow> udp_send_loop cfg arrivals diode
      | Err e \<Rightarrow> (Some (Err e), diode)
      | Panic p \<Rightarrow> (Some (Panic p), diode))"

text \<open>\<open>send\<close> connects to the diode, over TCP or a Unix socket; \<open>conn\<close> is what that gives.\<close>

definition udp_send :: "udp_config \<Rightarrow> (sink, io_error) outcome \<Rightarrow> (unit, io_error) outcome \<Rightarrow>
    (byte list, io_error) outcome list \<Rightarrow> (unit, udp_error) outcome option \<times> byte list" where
  "udp_send cfg conn bind_udp arrivals =
     (case conn of
        Ok diode \<Rightarrow> (case send_udp_aux cfg bind_udp arrivals diode of (r, diode') \<Rightarrow> (r, sink_out diode'))
      | Err e \<Rightarrow> (Some (Err (U_Io e)), [])
      | Panic p \<Rightarrow> (Some (Panic p), []))"

section \<open>The receiver\<close>

lemma read_exact_script_size:
  "read_exact n s = (Ok bs, s') \<Longrightarrow> script_size s' \<le> script_size s \<and> (0 < n \<longrightarrow> script_size s' < script_size s)"
proof (induction n s arbitrary: bs s' rule: read_exact.induct)
  case (1 n s)
  show ?case
  proof (cases "n = 0")
    case True
    then show ?thesis using 1(3) by (simp add: read_exact.simps)
  next
    case False
    obtain r s1 where rd: "stream_read n s = (r, s1)" by (cases "stream_read n s")
    consider c where "r = Ok c" "c \<noteq> []" | "r = Err Interrupted"
      using 1(3) False rd by (subst (asm) read_exact.simps) (auto split: outcome.splits if_splits)
    then show ?thesis
    proof cases
      case (1 c)
      then obtain d where "read_exact (n - length c) s1 = (Ok d, s')"
        using \<open>read_exact n s = (Ok bs, s')\<close> False rd
        by (subst (asm) read_exact.simps) (auto split: outcome.splits prod.splits)
      then show ?thesis using "1.IH"(1) [OF False rd [symmetric] 1] stream_read_shrinks [OF rd] 1 by fastforce
    next
      case 2
      then have "read_exact n s1 = (Ok bs, s')"
        using \<open>read_exact n s = (Ok bs, s')\<close> False rd by (subst (asm) read_exact.simps) simp
      then show ?thesis using "1.IH"(2) [OF False rd [symmetric] 2] stream_read_shrinks [OF rd] 2 by fastforce
    qed
  qed
qed

lemma udp_header_read_size:
  assumes "udp_header_read s = (Ok n, s')"
  shows "script_size s' < script_size s"
proof -
  obtain r s1 where rd: "read_exact 8 s = (r, s1)" by (cases "read_exact 8 s")
  then obtain b where "r = Ok b" "s' = s1"
    using assms by (cases r) (auto simp: udp_header_read_def sbind_def smap_err_def slift_def)
  with rd have "read_exact 8 s = (Ok b, s')" by simp
  from read_exact_script_size [OF this] show ?thesis by simp
qed

text \<open>
  The loop of \<open>receive_udp\<close>. Slicing the buffer with a size larger than it panics. The result lists the
  datagrams sent; the loop ends by an error or a panic, never normally.
\<close>

function udp_forward_loop :: "udp_config \<Rightarrow> (byte list \<Rightarrow> (unit, io_error) outcome) \<Rightarrow> script \<Rightarrow>
    (nat, udp_error) outcome \<times> byte list list" where
  "udp_forward_loop cfg send_to diode =
     (case udp_header_read diode of
        (Err e, diode1) \<Rightarrow> (Err (U_Diode e), [])
      | (Panic p, diode1) \<Rightarrow> (Panic p, [])
      | (Ok n, diode1) \<Rightarrow>
          if uc_buffer_size cfg < n then (Panic Slice_Out_Of_Range, [])
          else
            (case read_exact n diode1 of
               (Err e, diode2) \<Rightarrow> (Err (U_Io e), [])
             | (Panic p, diode2) \<Rightarrow> (Panic p, [])
             | (Ok datagram, diode2) \<Rightarrow>
                 (case send_to datagram of
                    Err e \<Rightarrow> (Err (U_Io e), [])
                  | Panic p \<Rightarrow> (Panic p, [])
                  | Ok u \<Rightarrow> (case udp_forward_loop cfg send_to diode2 of (r, ds) \<Rightarrow> (r, datagram # ds)))))"
  by pat_completeness auto
termination
proof (relation "measure (\<lambda>(cfg, send_to, diode). script_size diode)", goal_cases)
  case 1
  then show ?case by simp
next
  case 2
  then show ?case
    by (auto dest!: udp_header_read_size [OF sym] read_exact_script_size [OF sym])
qed

declare udp_forward_loop.simps [simp del]

definition receive_udp :: "udp_config \<Rightarrow> (unit, io_error) outcome \<Rightarrow> (byte list \<Rightarrow> (unit, io_error) outcome) \<Rightarrow>
    script \<Rightarrow> (nat, udp_error) outcome \<times> byte list list" where
  "receive_udp cfg bind_udp send_to diode =
     (case obind (omap_err U_Io bind_udp) (\<lambda>_. vec_zeroed (uc_buffer_size cfg)) of
        Ok u \<Rightarrow> udp_forward_loop cfg send_to diode
      | Err e \<Rightarrow> (Err e, [])
      | Panic p \<Rightarrow> (Panic p, []))"

text \<open>
  \<open>receive_unix_loop\<close> and \<open>receive_tcp_loop\<close> serve one client after the other; an error of a client is
  logged, a panic ends the program. \<open>None\<close>: the loop waits for the next client.
\<close>

fun udp_accept_loop :: "udp_config \<Rightarrow> (unit, io_error) outcome \<Rightarrow> (byte list \<Rightarrow> (unit, io_error) outcome) \<Rightarrow>
    (script, io_error) outcome list \<Rightarrow> (unit, udp_error) outcome option \<times> byte list list" where
  "udp_accept_loop cfg bind_udp send_to [] = (None, [])"
| "udp_accept_loop cfg bind_udp send_to (Err e # accepts) = (Some (Err (U_Io e)), [])"
| "udp_accept_loop cfg bind_udp send_to (Panic p # accepts) = (Some (Panic p), [])"
| "udp_accept_loop cfg bind_udp send_to (Ok client # accepts) =
     (case receive_udp cfg bind_udp send_to client of
        (Panic p, ds) \<Rightarrow> (Some (Panic p), ds)
      | (_, ds) \<Rightarrow>
          (case udp_accept_loop cfg bind_udp send_to accepts of (r, ds') \<Rightarrow> (r, ds @ ds')))"

record udp_listener =
  ul_exists :: bool
  ul_bind :: "(unit, io_error) outcome"
  ul_accepts :: "(script, io_error) outcome list"

definition udp_listen :: "udp_config \<Rightarrow> (unit, io_error) outcome \<Rightarrow> (byte list \<Rightarrow> (unit, io_error) outcome) \<Rightarrow>
    udp_listener \<Rightarrow> (unit, udp_error) outcome option \<times> byte list list" where
  "udp_listen cfg bind_udp send_to li =
     (case ul_bind li of
        Ok u \<Rightarrow> udp_accept_loop cfg bind_udp send_to (ul_accepts li)
      | Err e \<Rightarrow> (Some (Err (U_Io e)), [])
      | Panic p \<Rightarrow> (Some (Panic p), []))"

definition udp_receive :: "udp_config \<Rightarrow> (unit, io_error) outcome \<Rightarrow> (byte list \<Rightarrow> (unit, io_error) outcome) \<Rightarrow>
    udp_listener option \<Rightarrow> udp_listener option \<Rightarrow> (unit, udp_error) outcome option \<times> byte list list" where
  "udp_receive cfg bind_udp send_to from_unix from_tcp =
     (case (case from_unix of
              None \<Rightarrow> (Some (Ok ()), [])
            | Some li \<Rightarrow>
                if ul_exists li then (Some (Err (U_Other ''Unix socket path already exists'')), [])
                else udp_listen cfg bind_udp send_to li) of
        (Some (Ok u), ds) \<Rightarrow>
          (case from_tcp of
             None \<Rightarrow> (Some (Ok ()), ds)
           | Some li \<Rightarrow> (case udp_listen cfg bind_udp send_to li of (r, ds') \<Rightarrow> (r, ds @ ds')))
      | (r, ds) \<Rightarrow> (r, ds))"

section \<open>What the loops compute\<close>

text \<open>The stream for a list of datagrams.\<close>

definition udp_frame :: "byte list \<Rightarrow> byte list" where
  "udp_frame d = to_le_bytes (of_nat (length d) :: u64) @ d"

lemma udp_send_loop_ok:
  "unlimited k \<Longrightarrow> udp_send_loop cfg (map Ok ds) k =
    (None, k\<lparr>sink_out := sink_out k @ concat (map (udp_frame \<circ> recv_from (uc_buffer_size cfg)) ds)\<rparr>)"
proof (induction ds arbitrary: k)
  case Nil
  then show ?case by simp
next
  case (Cons d ds)
  show ?case using Cons
    by (simp add: Let_def sbind_def smap_err_def udp_header_writes_def sink_write_unlimited udp_frame_def)
qed

lemma udp_forward_loop_ok:
  "clean s \<Longrightarrow> script_bytes s = concat (map udp_frame ds) @ rest \<Longrightarrow>
   \<forall>d\<in>set ds. length d \<le> uc_buffer_size cfg \<and> length d < 2 ^ 64 \<and> send_to d = Ok () \<Longrightarrow>
   \<exists>s'. clean s' \<and> script_bytes s' = rest \<and>
     udp_forward_loop cfg send_to s =
       (fst (udp_forward_loop cfg send_to s'), ds @ snd (udp_forward_loop cfg send_to s'))"
proof (induction ds arbitrary: s)
  case Nil
  then show ?case by auto
next
  case (Cons d ds)
  have len: "length d \<le> uc_buffer_size cfg" "length d < 2 ^ 64" "send_to d = Ok ()" using Cons.prems(3) by auto
  have sb: "script_bytes s = to_le_bytes (of_nat (length d) :: u64) @ d @ concat (map udp_frame ds) @ rest"
    using Cons.prems(2) by (simp add: udp_frame_def [of d])
  obtain s1 where s1: "udp_header_read s = (Ok (length d), s1)" "clean s1"
    "script_bytes s1 = d @ concat (map udp_frame ds) @ rest"
    using udp_header_roundtrip [OF Cons.prems(1) sb len(2)] by blast
  obtain s2 where s2: "read_exact (length d) s1 = (Ok d, s2)" "clean s2"
    "script_bytes s2 = concat (map udp_frame ds) @ rest"
    using read_exact_clean [OF s1(2), of "length d"] s1(3) by auto
  have step: "udp_forward_loop cfg send_to s =
      (fst (udp_forward_loop cfg send_to s2), d # snd (udp_forward_loop cfg send_to s2))"
    using s1(1) s2(1) len by (subst udp_forward_loop.simps) (simp add: split_beta)
  from Cons.IH [OF s2(2,3)] Cons.prems(3) step show ?case by auto
qed

lemma udp_forward_loop_end:
  assumes "clean s" and "script_bytes s = []"
  shows "udp_forward_loop cfg send_to s = (Err (U_Diode (UP_Io Unexpected_Eof)), [])"
proof -
  have "s = []" using assms script_bytes_Nil by blast
  then show ?thesis
    by (simp add: udp_forward_loop.simps [of _ _ "[]"] udp_header_read_def read_exact.simps sbind_def smap_err_def)
qed

lemma udp_accept_loop_not_ok: "fst (udp_accept_loop cfg bind_udp send_to accepts) \<noteq> Some (Ok u)"
  by (induction cfg bind_udp send_to accepts rule: udp_accept_loop.induct)
    (auto split: outcome.splits prod.splits)

lemma udp_listen_not_ok: "fst (udp_listen cfg bind_udp send_to li) \<noteq> Some (Ok u)"
  using udp_accept_loop_not_ok by (auto simp: udp_listen_def split: outcome.splits)

section \<open>Properties\<close>

text \<open>
  C31. Datagrams that arrive at the sender's UDP socket leave the receiver's UDP socket in the same order
  and with the same boundaries, however the stream between them is cut; each is cut to the sender's
  buffer size. When the stream ends, the receiver reports \<open>UnexpectedEof\<close>.
\<close>

theorem datagrams_cross_diode:
  assumes "uc_buffer_size cfg < 2 ^ 63" and "uc_buffer_size cfg' < 2 ^ 63"
    and "\<forall>d\<in>set ds. min (length d) (uc_buffer_size cfg) \<le> uc_buffer_size cfg'"
    and "delivers diode (snd (udp_send cfg open_conn (Ok ()) (map Ok ds)))"
  shows "receive_udp cfg' (Ok ()) (\<lambda>_. Ok ()) diode =
    (Err (U_Diode (UP_Io Unexpected_Eof)), map (take (uc_buffer_size cfg)) ds)"
proof -
  let ?ds = "map (take (uc_buffer_size cfg)) ds"
  have "unlimited \<lparr>sink_out = [], sink_limit = None\<rparr>" by (simp add: unlimited_def)
  from udp_send_loop_ok [OF this, of cfg ds] assms(1)
  have "snd (udp_send cfg open_conn (Ok ()) (map Ok ds)) = concat (map udp_frame ?ds)"
    by (simp add: udp_send_def open_conn_def send_udp_aux_def vec_zeroed_def recv_from_def comp_def)
  then have s: "clean diode" "script_bytes diode = concat (map udp_frame ?ds) @ []"
    using assms(4) by (simp_all add: delivers_def)
  have "\<forall>d\<in>set ?ds. length d \<le> uc_buffer_size cfg' \<and> length d < 2 ^ 64 \<and> Ok () = (Ok () :: (unit, io_error) outcome)"
    using assms(2,3) by fastforce
  from udp_forward_loop_ok [OF s this] obtain s' where "clean s'" "script_bytes s' = []"
    "udp_forward_loop cfg' (\<lambda>_. Ok ()) diode =
       (fst (udp_forward_loop cfg' (\<lambda>_. Ok ()) s'), ?ds @ snd (udp_forward_loop cfg' (\<lambda>_. Ok ()) s'))" by blast
  then show ?thesis using assms(2) udp_forward_loop_end [of s' cfg']
    by (simp add: receive_udp_def vec_zeroed_def)
qed

theorem datagrams_cross_diode_witness:
  "\<exists>diode. receive_udp \<lparr>uc_buffer_size = 4\<rparr> (Ok ()) (\<lambda>_. Ok ()) diode =
    (Err (U_Diode (UP_Io Unexpected_Eof)), [[1], [], [2, 3]])"
proof -
  let ?cfg = "\<lparr>uc_buffer_size = 2\<rparr>" and ?ds = "[[1], [], [2, 3, 4]] :: byte list list"
  let ?bs = "snd (udp_send ?cfg open_conn (Ok ()) (map Ok ?ds))"
  have "unlimited \<lparr>sink_out = [], sink_limit = None\<rparr>" by (simp add: unlimited_def)
  from udp_send_loop_ok [OF this, of ?cfg ?ds] have "?bs = concat (map (udp_frame \<circ> recv_from 2) ?ds)"
    by (simp add: udp_send_def open_conn_def send_udp_aux_def vec_zeroed_def)
  also have "\<dots> \<noteq> []" by (simp add: udp_frame_def recv_from_def)
  finally have "delivers [Chunk ?bs] ?bs" by (rule delivers_chunk)
  from datagrams_cross_diode [OF _ _ _ this, of "\<lparr>uc_buffer_size = 4\<rparr>"] show ?thesis by auto
qed

text \<open>
  C34. A datagram larger than the receiver's buffer panics the receiver, after the datagrams before it have
  been sent on: nothing compares the announced size with the buffer. In the accept loop the panic ends
  the program, whoever waits to be served.
\<close>

theorem oversized_datagram_panics:
  assumes "delivers diode (concat (map udp_frame ds) @ udp_frame d @ rest)"
    and "\<forall>d\<in>set ds. length d \<le> uc_buffer_size cfg" and "uc_buffer_size cfg < length d"
    and "length d < 2 ^ 64" and "uc_buffer_size cfg < 2 ^ 63"
  shows "receive_udp cfg (Ok ()) (\<lambda>_. Ok ()) diode = (Panic Slice_Out_Of_Range, ds) \<and>
    udp_accept_loop cfg (Ok ()) (\<lambda>_. Ok ()) (Ok diode # accepts) = (Some (Panic Slice_Out_Of_Range), ds)"
proof -
  have "\<forall>d\<in>set ds. length d \<le> uc_buffer_size cfg \<and> length d < 2 ^ 64 \<and> Ok () = (Ok () :: (unit, io_error) outcome)"
    using assms(2,5) by fastforce
  from udp_forward_loop_ok [OF _ _ this, of diode "udp_frame d @ rest"] assms(1) obtain s' where
    s': "clean s'" "script_bytes s' = udp_frame d @ rest" and
    loop: "udp_forward_loop cfg (\<lambda>_. Ok ()) diode =
       (fst (udp_forward_loop cfg (\<lambda>_. Ok ()) s'), ds @ snd (udp_forward_loop cfg (\<lambda>_. Ok ()) s'))"
    by (auto simp: delivers_def)
  obtain s2 where "udp_header_read s' = (Ok (length d), s2)"
    using udp_header_roundtrip [OF s'(1) _ assms(4), of "d @ rest"] s'(2) by (auto simp: udp_frame_def)
  then have "udp_forward_loop cfg (\<lambda>_. Ok ()) s' = (Panic Slice_Out_Of_Range, [])"
    using assms(3) by (subst udp_forward_loop.simps) simp
  then show ?thesis using loop assms(5) by (simp add: receive_udp_def vec_zeroed_def)
qed

theorem oversized_datagram_panics_witness:
  "receive_udp \<lparr>uc_buffer_size = 2\<rparr> (Ok ()) (\<lambda>_. Ok ()) [Chunk (udp_frame [1] @ udp_frame [1, 2, 3])] =
    (Panic Slice_Out_Of_Range, [[1]])"
  using oversized_datagram_panics [of "[Chunk (udp_frame [1] @ udp_frame [1, 2, 3])]" "[[1]]" "[1, 2, 3]" "[]"
      "\<lparr>uc_buffer_size = 2\<rparr>" "[]"]
  by (simp add: delivers_def udp_frame_def)

text \<open>
  With a Unix socket configured the TCP one is never served, nor even bound: \<open>receive\<close> does exactly
  what it does without it, since the loop over the Unix clients never returns normally.
\<close>

theorem unix_hides_tcp:
  "udp_receive cfg bind_udp send_to (Some lu) from_tcp = udp_receive cfg bind_udp send_to (Some lu) None"
  using udp_listen_not_ok [of cfg bind_udp send_to lu]
  by (auto simp: udp_receive_def split: option.splits outcome.splits prod.splits)

end
