(* ===== verification/Udp_Send.thy ===== *)
theory Udp_Send
  imports Send_Client Sock_Utils
begin

text \<open>
  Sending datagrams: \<open>SendM\<close> and \<open>Send\<close> of \<open>src/udp.rs\<close>, and how the worker \<open>src/send/udp.rs\<close> sets
  them up. What the system calls return is an argument that may depend on the number of the call and on
  the datagrams; the state records the calls and what reached the wire.
\<close>

section \<open>The system calls\<close>

record send_sys =
  ss_sendmsg :: "nat \<Rightarrow> byte list \<Rightarrow> int"
  ss_sendmmsg :: "nat \<Rightarrow> byte list list \<Rightarrow> int"
  ss_calls :: "byte list list list"
  ss_wire :: "byte list list"

text \<open>\<open>sendmsg\<close> sends its datagram or fails; \<open>sendmmsg\<close> sends as many as it returns, from the first one.\<close>

definition sys_sendmsg :: "byte list \<Rightarrow> send_sys \<Rightarrow> int \<times> send_sys" where
  "sys_sendmsg d s =
     (let ret = ss_sendmsg s (length (ss_calls s)) d in
      (ret, s\<lparr>ss_calls := ss_calls s @ [[d]], ss_wire := ss_wire s @ (if ret < 0 then [] else [d])\<rparr>))"

definition sys_sendmmsg :: "byte list list \<Rightarrow> send_sys \<Rightarrow> int \<times> send_sys" where
  "sys_sendmmsg ds s =
     (let ret = ss_sendmmsg s (length (ss_calls s)) ds in
      (ret, s\<lparr>ss_calls := ss_calls s @ [ds], ss_wire := ss_wire s @ take (nat ret) ds\<rparr>))"

section \<open>The operations\<close>

datatype send_socket = Send_Msg | Send_Mmsg nat

definition SendM_new :: "u32 option \<Rightarrow> send_socket" where
  "SendM_new batch_send =
     (case batch_send of None \<Rightarrow> Send_Msg | Some n \<Rightarrow> if n = 1 then Send_Msg else Send_Mmsg (unat n))"

fun send_each :: "byte list list \<Rightarrow> send_sys \<Rightarrow> (unit, io_error) outcome \<times> send_sys" where
  "send_each [] s = (Ok (), s)"
| "send_each (d # ds) s =
     (case sys_sendmsg d s of (nb_sent, s') \<Rightarrow>
        if nb_sent = int (length d) then send_each ds s' else (Err (Other_Io ''libc::sendmsg failed''), s'))"

text \<open>\<open>chunks_mut\<close>, for a positive size (with 0 it panics).\<close>

function chunks :: "nat \<Rightarrow> 'b list \<Rightarrow> 'b list list" where
  "chunks n xs = (if n = 0 \<or> xs = [] then [] else take n xs # chunks n (drop n xs))"
  by pat_completeness auto
termination by (relation "measure (\<lambda>(n, xs). length xs)") auto

declare chunks.simps [simp del]

text \<open>The headers of a chunk: each length has to fit 32 bits.\<close>

fun set_headers :: "byte list list \<Rightarrow> (unit, io_error) outcome" where
  "set_headers [] = Ok ()"
| "set_headers (d # ds) =
     obind (omap_err (\<lambda>e. Invalid_Data (''datagram.len(): '' @ e)) (u32_try_from_usize (length d)))
       (\<lambda>_. set_headers ds)"

definition send_chunk :: "byte list list \<Rightarrow> send_sys \<Rightarrow> (unit, io_error) outcome \<times> send_sys" where
  "send_chunk ds s =
     (let to_send = length ds in
      case obind (set_headers ds)
             (\<lambda>_. omap_err (\<lambda>e. Invalid_Data (''to_send: '' @ e)) (u32_try_from_usize to_send)) of
        Ok n \<Rightarrow> (case sys_sendmmsg ds s of (nb_sent, s') \<Rightarrow>
                  (if nb_sent = int to_send then Ok () else Err (Other_Io ''libc::sendmmsg''), s'))
      | Err e \<Rightarrow> (Err e, s)
      | Panic p \<Rightarrow> (Panic p, s))"

fun send_chunks :: "byte list list list \<Rightarrow> send_sys \<Rightarrow> (unit, io_error) outcome \<times> send_sys" where
  "send_chunks [] s = (Ok (), s)"
| "send_chunks (c # cs) s = sbind (send_chunk c) (\<lambda>_. send_chunks cs) s"

definition SendM_send :: "('plan, 'config, 'pkt) raptorq_lib \<Rightarrow> 'pkt list \<Rightarrow> send_socket \<Rightarrow> send_sys \<Rightarrow>
    (unit, io_error) outcome \<times> send_sys" where
  "SendM_send lib packets sock s =
     (let datagrams = map (lib_serialize lib) packets in
      case sock of
        Send_Msg \<Rightarrow> send_each datagrams s
      | Send_Mmsg batch_size \<Rightarrow>
          if batch_size = 0 then (Panic Zero_Chunk_Size, s)
          else send_chunks (chunks batch_size datagrams) s)"

section \<open>The destination\<close>

text \<open>
  \<open>Send::new\<close> builds the \<open>sockaddr\<close> that all message headers point to. \<open>sockaddr_memory\<close> is its image in
  memory on a little-endian host, where \<open>to_be\<close> swaps the bytes.
\<close>

record sockaddr_in =
  sin_family :: u16
  sin_port :: u16
  s_addr :: u32
  sin_zero :: "byte list"

record sockaddr_in6 =
  sin6_family :: u16
  sin6_port :: u16
  sin6_flowinfo :: u32
  s6_addr :: "byte list"
  sin6_scope_id :: u32

datatype sockaddr = Sockaddr_In sockaddr_in | Sockaddr_In6 sockaddr_in6

definition to_be :: "u16 \<Rightarrow> u16" where
  "to_be w = from_le_bytes (rev (to_le_bytes w))"

definition AF_INET :: u16 where "AF_INET = 2"
definition AF_INET6 :: u16 where "AF_INET6 = 10"

definition sockaddr_of :: "SocketAddr \<Rightarrow> sockaddr" where
  "sockaddr_of dest =
     (case dest of
        V4 octets port \<Rightarrow>
          Sockaddr_In \<lparr>sin_family = AF_INET, sin_port = to_be port, s_addr = from_le_bytes octets,
            sin_zero = replicate 8 0\<rparr>
      | V6 octets port flowinfo scope_id \<Rightarrow>
          Sockaddr_In6 \<lparr>sin6_family = AF_INET6, sin6_port = to_be port, sin6_flowinfo = flowinfo,
            s6_addr = octets, sin6_scope_id = scope_id\<rparr>)"

fun sockaddr_memory :: "sockaddr \<Rightarrow> byte list" where
  "sockaddr_memory (Sockaddr_In a) =
     to_le_bytes (sin_family a) @ to_le_bytes (sin_port a) @ to_le_bytes (s_addr a) @ sin_zero a"
| "sockaddr_memory (Sockaddr_In6 a) =
     to_le_bytes (sin6_family a) @ to_le_bytes (sin6_port a) @ to_le_bytes (sin6_flowinfo a) @
     s6_addr a @ to_le_bytes (sin6_scope_id a)"

text \<open>How the kernel reads it: the family decides, the port and the address are in network order.\<close>

definition kernel_address :: "byte list \<Rightarrow> SocketAddr option" where
  "kernel_address m =
     (let family = from_le_bytes (take 2 m) :: u16; port = from_le_bytes (rev (take 2 (drop 2 m))) in
      if family = 2 \<and> length m = 16 then Some (V4 (take 4 (drop 4 m)) port)
      else if family = 10 \<and> length m = 28
      then Some (V6 (take 16 (drop 8 m)) port (from_le_bytes (take 4 (drop 4 m))) (from_le_bytes (drop 24 m)))
      else None)"

record send_state =
  sn_dest :: sockaddr
  sn_dest_len :: nat
  sn_sendm :: send_socket

definition Send_new :: "SocketAddr \<Rightarrow> u32 option \<Rightarrow> (send_state, io_error) outcome" where
  "Send_new dest batch =
     (let addr = sockaddr_of dest; dest_len = (case dest of V4 octets port \<Rightarrow> 16 | V6 octets port f i \<Rightarrow> 28) in
      obind (omap_err (\<lambda>e. Invalid_Data (''dest_len: '' @ e)) (u32_try_from_usize dest_len)) (\<lambda>_.
      Ok \<lparr>sn_dest = addr, sn_dest_len = dest_len, sn_sendm = SendM_new batch\<rparr>))"

definition Send_send :: "('plan, 'config, 'pkt) raptorq_lib \<Rightarrow> 'pkt list \<Rightarrow> send_state \<Rightarrow> send_sys \<Rightarrow>
    (unit, io_error) outcome \<times> send_sys" where
  "Send_send lib datagrams st s = SendM_send lib datagrams (sn_sendm st) s"

section \<open>The worker's set-up\<close>

definition send_buffer_size :: "bool \<Rightarrow> ('plan, 'config) RaptorQ \<Rightarrow> u16 \<Rightarrow> (i32, send_error) outcome" where
  "send_buffer_size ovf rq mtu =
     obind (omap_err (\<lambda>e. SE_Other (''nb_packets: '' @ e)) (i32_try_from_u32 (nb_packets rq)))
       (\<lambda>n. smul_ck ovf n (ucast mtu))"

text \<open>\<open>start\<close> up to its loop: \<open>bind\<close> and \<open>set_nonblocking\<close>, the buffer size, the sending socket.\<close>

definition udp_send_setup :: "bool \<Rightarrow> ('plan, 'config) RaptorQ \<Rightarrow> send_config \<Rightarrow> (unit, io_error) outcome \<Rightarrow>
    (i32 \<Rightarrow> int) \<Rightarrow> int \<times> i32 \<Rightarrow> (send_state, send_error) outcome" where
  "udp_send_setup ovf rq cfg bound set_sys get_res =
     obind (omap_err SE_Io bound) (\<lambda>_.
     obind (send_buffer_size ovf rq (s_to_mtu cfg)) (\<lambda>sz.
     obind (omap_err SE_Io (apply_buffer_size set_sys get_res sz)) (\<lambda>small.
     omap_err SE_Io (Send_new (s_to cfg) (s_batch_send cfg)))))"

section \<open>Chunks\<close>

lemma concat_chunks: "0 < n \<Longrightarrow> concat (chunks n xs) = xs"
proof (induction n xs rule: chunks.induct)
  case (1 n xs)
  then show ?case by (cases "xs = []") (simp_all add: chunks.simps [of n "[]"] chunks.simps [of n xs])
qed

lemma chunks_bounds: "c \<in> set (chunks n xs) \<Longrightarrow> c \<noteq> [] \<and> length c \<le> n \<and> set c \<subseteq> set xs"
proof (induction n xs rule: chunks.induct)
  case (1 n xs)
  then show ?case
    by (subst (asm) (2) chunks.simps) (auto split: if_splits dest: in_set_takeD in_set_dropD)
qed

section \<open>What is sent\<close>

text \<open>A state of the calls that differs from another by what a run has added.\<close>

definition sends_prefix :: "byte list list \<Rightarrow> (unit, io_error) outcome \<times> send_sys \<Rightarrow> send_sys \<Rightarrow> bool" where
  "sends_prefix ds res s \<longleftrightarrow> ss_sendmsg (snd res) = ss_sendmsg s \<and> ss_sendmmsg (snd res) = ss_sendmmsg s \<and>
     (\<exists>k \<le> length ds. ss_wire (snd res) = ss_wire s @ take k ds \<and> (fst res = Ok () \<longrightarrow> k = length ds))"

lemma send_each_prefix: "sends_prefix ds (send_each ds s) s"
proof (induction ds arbitrary: s)
  case Nil
  then show ?case by (simp add: sends_prefix_def)
next
  case (Cons d ds)
  obtain nb_sent s' where sm: "sys_sendmsg d s = (nb_sent, s')" by (cases "sys_sendmsg d s")
  then have s': "ss_sendmsg s' = ss_sendmsg s" "ss_sendmmsg s' = ss_sendmmsg s"
    "ss_wire s' = ss_wire s @ (if nb_sent < 0 then [] else [d])"
    by (auto simp: sys_sendmsg_def Let_def)
  show ?case
  proof (cases "nb_sent = int (length d)")
    case True
    from Cons.IH [of s'] obtain k where "k \<le> length ds"
      "ss_wire (snd (send_each ds s')) = ss_wire s' @ take k ds"
      "fst (send_each ds s') = Ok () \<longrightarrow> k = length ds"
      "ss_sendmsg (snd (send_each ds s')) = ss_sendmsg s'" "ss_sendmmsg (snd (send_each ds s')) = ss_sendmmsg s'"
      by (auto simp: sends_prefix_def)
    then show ?thesis using sm s' True by (auto simp: sends_prefix_def intro!: exI [of _ "Suc k"])
  next
    case False
    then show ?thesis using sm s'
      by (auto simp: sends_prefix_def intro: exI [of _ 0] exI [of _ "Suc 0"])
  qed
qed

lemma send_chunk_prefix: "sends_prefix ds (send_chunk ds s) s"
proof (cases "obind (set_headers ds) (\<lambda>_. omap_err (\<lambda>e. Invalid_Data (''to_send: '' @ e)) (u32_try_from_usize (length ds)))")
  case (Ok n)
  let ?ret = "ss_sendmmsg s (length (ss_calls s)) ds"
  have "take (nat ?ret) ds = take (min (nat ?ret) (length ds)) ds" by (simp add: min_def)
  then show ?thesis using Ok
    by (auto simp: sends_prefix_def send_chunk_def sys_sendmmsg_def Let_def intro!: exI [of _ "min (nat ?ret) (length ds)"])
qed (auto simp: sends_prefix_def send_chunk_def Let_def intro: exI [of _ 0])

lemma send_chunks_prefix: "sends_prefix (concat cs) (send_chunks cs s) s"
proof (induction cs arbitrary: s)
  case Nil
  then show ?case by (simp add: sends_prefix_def)
next
  case (Cons c cs)
  obtain r s' where sc: "send_chunk c s = (r, s')" by (cases "send_chunk c s")
  then obtain k where s': "ss_sendmsg s' = ss_sendmsg s" "ss_sendmmsg s' = ss_sendmmsg s"
    "k \<le> length c" "ss_wire s' = ss_wire s @ take k c" "r = Ok () \<longrightarrow> k = length c"
    using send_chunk_prefix [of c s] by (auto simp: sends_prefix_def)
  show ?case
  proof (cases "r = Ok ()")
    case True
    from Cons.IH [of s'] obtain j where "j \<le> length (concat cs)"
      "ss_wire (snd (send_chunks cs s')) = ss_wire s' @ take j (concat cs)"
      "fst (send_chunks cs s') = Ok () \<longrightarrow> j = length (concat cs)"
      "ss_sendmsg (snd (send_chunks cs s')) = ss_sendmsg s'" "ss_sendmmsg (snd (send_chunks cs s')) = ss_sendmmsg s'"
      by (auto simp: sends_prefix_def)
    then show ?thesis using sc s' True
      by (auto simp: sends_prefix_def sbind_def intro!: exI [of _ "length c + j"])
  next
    case False
    then have "send_chunks (c # cs) s = (r, s')" using sc by (cases r) (auto simp: sbind_def)
    then show ?thesis using s' False by (auto simp: sends_prefix_def intro!: exI [of _ k])
  qed
qed

text \<open>A kernel that sends everything it is given.\<close>

definition accepting :: "send_sys \<Rightarrow> bool" where
  "accepting s \<longleftrightarrow> (\<forall>i d. ss_sendmsg s i d = int (length d)) \<and> (\<forall>i ds. ss_sendmmsg s i ds = int (length ds))"

lemma accepting_update [simp]:
  "accepting (s\<lparr>ss_calls := cs, ss_wire := w\<rparr>) = accepting s"
  by (simp add: accepting_def)

lemma send_each_ok:
  "accepting s \<Longrightarrow> send_each ds s =
    (Ok (), s\<lparr>ss_calls := ss_calls s @ map (\<lambda>d. [d]) ds, ss_wire := ss_wire s @ ds\<rparr>)"
proof (induction ds arbitrary: s)
  case Nil
  then show ?case by simp
next
  case (Cons d ds)
  then have "sys_sendmsg d s = (int (length d), s\<lparr>ss_calls := ss_calls s @ [[d]], ss_wire := ss_wire s @ [d]\<rparr>)"
    by (simp add: sys_sendmsg_def accepting_def)
  then show ?case using Cons by simp
qed

lemma set_headers_ok: "list_all (\<lambda>d. length d < 2 ^ 32) ds \<Longrightarrow> set_headers ds = Ok ()"
  by (induction ds) (simp_all add: u32_try_from_usize_def)

lemma send_chunks_ok:
  "accepting s \<Longrightarrow> list_all (\<lambda>c. length c < 2 ^ 32 \<and> list_all (\<lambda>d. length d < 2 ^ 32) c) cs \<Longrightarrow>
   send_chunks cs s = (Ok (), s\<lparr>ss_calls := ss_calls s @ cs, ss_wire := ss_wire s @ concat cs\<rparr>)"
proof (induction cs arbitrary: s)
  case Nil
  then show ?case by simp
next
  case (Cons c cs)
  then have "sys_sendmmsg c s = (int (length c), s\<lparr>ss_calls := ss_calls s @ [c], ss_wire := ss_wire s @ c\<rparr>)"
    by (simp add: sys_sendmmsg_def accepting_def)
  moreover have "set_headers c = Ok ()" using Cons.prems(2) set_headers_ok by simp
  ultimately have "send_chunk c s = (Ok (), s\<lparr>ss_calls := ss_calls s @ [c], ss_wire := ss_wire s @ c\<rparr>)"
    using Cons.prems(2) by (simp add: send_chunk_def u32_try_from_usize_def)
  then show ?case using Cons by (simp add: sbind_def)
qed

lemma list_all_chunks:
  assumes "list_all P xs" and "n < 2 ^ 32"
  shows "list_all (\<lambda>c. length c < 2 ^ 32 \<and> list_all P c) (chunks n xs)"
  using assms chunks_bounds [of _ n xs] by (fastforce simp: list_all_iff)

lemma SendM_send_accepting:
  assumes "accepting s" and "list_all (\<lambda>p. length (lib_serialize lib p) < 2 ^ 32) ps" and "batch \<noteq> Some 0"
  obtains cs where "SendM_send lib ps (SendM_new batch) s =
      (Ok (), s\<lparr>ss_calls := ss_calls s @ cs, ss_wire := ss_wire s @ map (lib_serialize lib) ps\<rparr>)"
    and "\<forall>c\<in>set cs. length c \<le> (case batch of None \<Rightarrow> 1 | Some n \<Rightarrow> unat n)"
proof -
  let ?ds = "map (lib_serialize lib) ps"
  show ?thesis
  proof (cases "\<exists>n. batch = Some n \<and> n \<noteq> 1")
    case True
    then obtain n where n: "batch = Some n" "n \<noteq> 1" "n \<noteq> 0" using assms(3) by auto
    then have pos: "0 < unat n" by (simp add: unat_gt_0)
    have "unat n < 2 ^ 32" using unsigned_less [of n] by simp
    then have "list_all (\<lambda>c. length c < 2 ^ 32 \<and> list_all (\<lambda>d. length d < 2 ^ 32) c) (chunks (unat n) ?ds)"
      using assms(2) by (intro list_all_chunks) (simp_all add: list_all_iff)
    from that [of "chunks (unat n) ?ds"] send_chunks_ok [OF assms(1) this] n pos concat_chunks [OF pos, of ?ds] chunks_bounds
    show ?thesis by (auto simp: SendM_send_def SendM_new_def)
  next
    case False
    then have "SendM_new batch = Send_Msg" by (auto simp: SendM_new_def split: option.split)
    moreover have "\<forall>c\<in>set (map (\<lambda>d. [d]) ?ds). length c \<le> (case batch of None \<Rightarrow> 1 | Some n \<Rightarrow> unat n)"
      using False by (auto split: option.split)
    ultimately show ?thesis using that send_each_ok [OF assms(1), of ?ds] by (simp add: SendM_send_def)
  qed
qed

section \<open>Properties\<close>


definition demo_sys :: send_sys where
  "demo_sys = \<lparr>ss_sendmsg = \<lambda>i d. int (length d), ss_sendmmsg = \<lambda>i ds. int (length ds), ss_calls = [], ss_wire = []\<rparr>"


text \<open>
  C29. Whatever the calls return, partial \<open>sendmmsg\<close> included, what reaches the wire of one \<open>send\<close> is a
  prefix of its datagrams: none is duplicated, reordered or sent after a failure. \<open>Ok\<close> means that all
  of them were sent.
\<close>

theorem sent_is_prefix:
  "\<exists>k \<le> length ps. ss_wire (snd (SendM_send lib ps sock s)) = ss_wire s @ map (lib_serialize lib) (take k ps) \<and>
     (fst (SendM_send lib ps sock s) = Ok () \<longrightarrow> k = length ps)"
proof -
  have "sends_prefix (map (lib_serialize lib) ps) (SendM_send lib ps sock s) s"
  proof (cases sock)
    case Send_Msg
    then show ?thesis by (simp add: SendM_send_def send_each_prefix)
  next
    case (Send_Mmsg n)
    then show ?thesis using send_chunks_prefix [of "chunks n (map (lib_serialize lib) ps)" s]
      by (cases "n = 0") (auto simp: SendM_send_def concat_chunks sends_prefix_def)
  qed
  then show ?thesis by (auto simp: sends_prefix_def take_map)
qed

theorem sent_is_prefix_witness:
  "\<exists>k \<le> 3. ss_wire (snd (SendM_send repetition_lib [(1, [2]), (1, [3]), (1, [4])] (Send_Mmsg 2) demo_sys)) =
     map (lib_serialize repetition_lib) (take k [(1, [2]), (1, [3]), (1, [4])])"
proof -
  let ?ps = "[(1, [2]), (1, [3]), (1, [4])] :: (u8 \<times> byte list) list"
  obtain k where k: "k \<le> length ?ps"
    "ss_wire (snd (SendM_send repetition_lib ?ps (Send_Mmsg 2) demo_sys)) =
       ss_wire demo_sys @ map (lib_serialize repetition_lib) (take k ?ps)"
    using sent_is_prefix [of ?ps repetition_lib "Send_Mmsg 2" demo_sys] by blast
  have "ss_wire demo_sys = []" "k \<le> 3" using k(1) by (simp_all add: demo_sys_def)
  with k(2) show ?thesis by auto
qed

text \<open>
  C38. The image in memory of the address that \<open>Send::new\<close> builds is what the kernel reads back as the
  configured address, for IPv4 and IPv6, and has the length given to the kernel. A batch size of 0,
  which the command line accepts, makes a sender that panics at its first \<open>send\<close>.
\<close>

theorem send_destination:
  assumes "case dest of V4 octets port \<Rightarrow> length octets = 4 | V6 octets port f i \<Rightarrow> length octets = 16"
  shows "\<exists>st. Send_new dest batch = Ok st \<and> length (sockaddr_memory (sn_dest st)) = sn_dest_len st \<and>
    kernel_address (sockaddr_memory (sn_dest st)) = Some dest \<and>
    (batch = Some 0 \<longrightarrow> Send_send lib ps st s = (Panic Zero_Chunk_Size, s))"
proof -
  have be: "rev (to_le_bytes (to_be w)) = to_le_bytes w" for w
    by (simp add: to_be_def to_from_le_bytes)
  have len: "length (to_le_bytes (w :: u16)) = 2" "length (to_le_bytes (v :: u32)) = 4" for w v by simp_all
  show ?thesis
  proof (cases dest)
    case (V4 octets port)
    then have "to_le_bytes (from_le_bytes octets :: u32) = octets" using assms by (simp add: to_from_le_bytes)
    then show ?thesis using V4 assms len
      by (simp add: Send_new_def u32_try_from_usize_def sockaddr_of_def kernel_address_def be from_to_le_bytes
          AF_INET_def Send_send_def SendM_send_def SendM_new_def)
  next
    case (V6 octets port flow scope)
    then show ?thesis using assms len
      by (simp add: Send_new_def u32_try_from_usize_def sockaddr_of_def kernel_address_def be from_to_le_bytes
          AF_INET6_def Send_send_def SendM_send_def SendM_new_def)
  qed
qed

theorem send_destination_witness:
  "\<exists>st. Send_new (V4 [127, 0, 0, 1] 5000) None = Ok st \<and>
    kernel_address (sockaddr_memory (sn_dest st)) = Some (V4 [127, 0, 0, 1] 5000)"
  using send_destination [of "V4 [127, 0, 0, 1] 5000" None repetition_lib "[]" demo_sys] by auto

end
