(* ===== verification/Startup.thy ===== *)
theory Startup
  imports Send_Client Receive_Config
begin

text \<open>
  How the sender and the receiver start their threads (\<open>start\<close> in \<open>src/send/mod.rs\<close> and
  \<open>src/receive/mod.rs\<close>), and the entrance of the sender: the accept loops of \<open>src/bin/diode-send.rs\<close>,
  \<open>new_client\<close> and \<open>stop\<close>, the channel \<open>to_server\<close> and the loop of \<open>src/send/server.rs\<close> with its
  semaphore. What creating a thread returns and the cores of the machine are arguments.
\<close>

section \<open>Spawning threads\<close>

text \<open>
  With CPU affinity, the iterator over the cores is advanced before some of the threads are created:
  a group is a list of threads that share what one call of \<open>next\<close> returned. The first thread that
  cannot be created ends the function; those before it run on.
\<close>

fun spawn_group :: "('th \<Rightarrow> (unit, io_error) outcome) \<Rightarrow> nat option \<Rightarrow> 'th list \<Rightarrow>
    (unit, io_error) outcome \<times> ('th \<times> nat option) list" where
  "spawn_group spawn cpu_id [] = (Ok (), [])"
| "spawn_group spawn cpu_id (th # ths) =
     (case spawn th of
        Ok u \<Rightarrow> (case spawn_group spawn cpu_id ths of (r, started) \<Rightarrow> (r, (th, cpu_id) # started))
      | Err e \<Rightarrow> (Err e, [])
      | Panic p \<Rightarrow> (Panic p, []))"

definition next_cpu :: "nat list option \<Rightarrow> nat option \<times> nat list option" where
  "next_cpu cpu_ids =
     (case cpu_ids of None \<Rightarrow> (None, None) | Some [] \<Rightarrow> (None, Some []) | Some (c # cs) \<Rightarrow> (Some c, Some cs))"

fun spawn_groups :: "('th \<Rightarrow> (unit, io_error) outcome) \<Rightarrow> nat list option \<Rightarrow> 'th list list \<Rightarrow>
    (unit, io_error) outcome \<times> ('th \<times> nat option) list" where
  "spawn_groups spawn cpu_ids [] = (Ok (), [])"
| "spawn_groups spawn cpu_ids (g # gs) =
     (case next_cpu cpu_ids of (cpu_id, cpu_ids') \<Rightarrow>
        case spawn_group spawn cpu_id g of
          (Ok u, started) \<Rightarrow> (case spawn_groups spawn cpu_ids' gs of (r, started') \<Rightarrow> (r, started @ started'))
        | (r, started) \<Rightarrow> (r, started))"

subsection \<open>The sender\<close>

datatype sender_thread =
    S_Udp | S_Ordering | S_Encoding nat | S_Heartbeat | S_Client nat

definition sender_groups :: "send_config \<Rightarrow> sender_thread list list" where
  "sender_groups cfg =
     [[S_Udp], [S_Ordering]] @
     map (\<lambda>i. [S_Encoding i]) [0..<unat (s_nb_encode_threads cfg)] @
     (case s_heartbeat_interval cfg of None \<Rightarrow> [] | Some interval \<Rightarrow> [[S_Heartbeat]]) @
     map (\<lambda>i. [S_Client i]) [0..<unat (s_max_clients cfg)]"

text \<open>
  \<open>get_core_ids\<close> may return no list. The last log line evaluates \<open>min_nb_packets\<close>, unless the log
  level discards it (\<open>log_info\<close>).
\<close>

definition sender_start :: "bool \<Rightarrow> bool \<Rightarrow> (sender_thread \<Rightarrow> (unit, io_error) outcome) \<Rightarrow> nat list option \<Rightarrow>
    ('plan, 'config) RaptorQ \<Rightarrow> send_config \<Rightarrow> (unit, send_error) outcome \<times> (sender_thread \<times> nat option) list" where
  "sender_start ovf log_info spawn core_ids rq cfg =
     (case spawn_groups spawn (if s_cpu_affinity cfg then core_ids else None) (sender_groups cfg) of
        (r, started) \<Rightarrow>
          (obind (omap_err SE_Io r) (\<lambda>_.
             if log_info then obind (min_nb_packets ovf rq) (\<lambda>_ :: u16. Ok ()) else Ok ()), started))"

subsection \<open>The receiver\<close>

datatype receiver_thread =
    V_Client nat | V_Dispatch | V_Decode nat | V_Reblock | V_Udp

definition receiver_groups :: "receive_config \<Rightarrow> receiver_thread list list" where
  "receiver_groups cfg =
     map (\<lambda>i. [V_Client i]) [0..<unat (max_clients cfg)] @
     [[V_Dispatch], map V_Decode [0..<unat (nb_decode_threads cfg)], [V_Reblock], [V_Udp]]"

text \<open>The receiver hands the cores out from the last one.\<close>

definition receiver_start :: "bool \<Rightarrow> bool \<Rightarrow> bool \<Rightarrow> (receiver_thread \<Rightarrow> (unit, io_error) outcome) \<Rightarrow>
    nat list option \<Rightarrow> ('plan, 'config) RaptorQ \<Rightarrow> receive_config \<Rightarrow>
    (unit, receive_error) outcome \<times> (receiver_thread \<times> nat option) list" where
  "receiver_start ovf log_info cpu_affinity spawn core_ids rq cfg =
     (case spawn_groups spawn (if cpu_affinity then map_option rev core_ids else None) (receiver_groups cfg) of
        (r, started) \<Rightarrow>
          (obind (omap_err R_Io r) (\<lambda>_.
             if log_info then obind (min_nb_packets ovf rq) (\<lambda>_ :: u16. Ok ()) else Ok ()), started))"

section \<open>The entrance of the sender\<close>

datatype 'c server = Sv_Idle | Sv_Acquiring 'c | Sv_Serving 'c | Sv_Dead | Sv_Returned

text \<open>
  \<open>for_server\<close> holds at most one message. \<open>fe_accepted\<close>, \<open>fe_taken\<close> and \<open>fe_stops\<close> are histories: the
  clients accepted, those taken by a server thread, and the \<open>stop\<close> calls; \<open>fe_nones\<close> counts the
  messages \<open>None\<close> sent to the ordering worker.
\<close>

record 'c front_end =
  for_server :: "'c option list"
  fe_servers :: "'c server list"
  fe_permits :: nat
  fe_accepted :: "'c list"
  fe_taken :: "'c list"
  fe_stops :: nat
  fe_nones :: nat

text \<open>\<open>Sender::new\<close> fails when the semaphore cannot be created.\<close>

definition Sender_new :: "(u32 \<Rightarrow> bool) \<Rightarrow> send_config \<Rightarrow> ('c front_end, send_error) outcome" where
  "Sender_new sem_new cfg =
     (if sem_new (s_max_clients cfg)
      then Ok \<lparr>for_server = [], fe_servers = replicate (unat (s_max_clients cfg)) Sv_Idle,
             fe_permits = unat (s_max_clients cfg), fe_accepted = [], fe_taken = [], fe_stops = 0, fe_nones = 0\<rparr>
      else Err (SE_Other ''failed to create semaphore''))"

text \<open>\<open>None\<close>: the caller is blocked, since the channel is full.\<close>

definition new_client :: "'c \<Rightarrow> 'c front_end \<Rightarrow> 'c front_end option" where
  "new_client client s =
     (if length (for_server s) < 1
      then Some (s\<lparr>for_server := for_server s @ [Some client], fe_accepted := fe_accepted s @ [client]\<rparr>) else None)"

definition stop :: "'c front_end \<Rightarrow> 'c front_end option" where
  "stop s =
     (if length (for_server s) < 1
      then Some (s\<lparr>for_server := for_server s @ [None], fe_stops := fe_stops s + 1\<rparr>) else None)"

text \<open>
  The loop of server thread \<open>i\<close>: receive, take the semaphore, serve, release. \<open>panics\<close> says that the
  client worker panics, in which case the thread dies with its permit.
\<close>

definition server_step :: "send_config \<Rightarrow> nat \<Rightarrow> bool \<Rightarrow> 'c front_end \<Rightarrow> 'c front_end option" where
  "server_step cfg i panics s =
     (if i < length (fe_servers s) then
        (case fe_servers s ! i of
           Sv_Idle \<Rightarrow>
             (case for_server s of
                [] \<Rightarrow> None
              | None # q \<Rightarrow> Some (s\<lparr>for_server := q, fe_servers := (fe_servers s)[i := Sv_Returned],
                  fe_nones := fe_nones s + unat (s_nb_encode_threads cfg)\<rparr>)
              | Some client # q \<Rightarrow> Some (s\<lparr>for_server := q, fe_servers := (fe_servers s)[i := Sv_Acquiring client],
                  fe_taken := fe_taken s @ [client]\<rparr>))
         | Sv_Acquiring client \<Rightarrow>
             if 0 < fe_permits s
             then Some (s\<lparr>fe_permits := fe_permits s - 1, fe_servers := (fe_servers s)[i := Sv_Serving client]\<rparr>)
             else None
         | Sv_Serving client \<Rightarrow>
             if panics then Some (s\<lparr>fe_servers := (fe_servers s)[i := Sv_Dead]\<rparr>)
             else Some (s\<lparr>fe_permits := fe_permits s + 1, fe_servers := (fe_servers s)[i := Sv_Idle]\<rparr>)
         | Sv_Dead \<Rightarrow> None
         | Sv_Returned \<Rightarrow> None)
      else None)"

text \<open>
  The accept loops of \<open>diode-send\<close>, TCP and Unix: every accepted client is handed over, the first
  error of \<open>accept\<close> ends the loop. \<open>Some\<close> with the clients still to come: the loop is blocked in
  \<open>new_client\<close>.
\<close>

fun listener_loop :: "('c, io_error) outcome list \<Rightarrow> 'c front_end \<Rightarrow> ('c, io_error) outcome list \<times> 'c front_end" where
  "listener_loop [] s = ([], s)"
| "listener_loop (Err e # accepts) s = ([], s)"
| "listener_loop (Panic p # accepts) s = ([], s)"
| "listener_loop (Ok client # accepts) s =
     (case new_client client s of
        None \<Rightarrow> (Ok client # accepts, s)
      | Some s' \<Rightarrow> listener_loop accepts s')"

inductive front_trans :: "send_config \<Rightarrow> 'c front_end \<Rightarrow> 'c front_end \<Rightarrow> bool" for cfg where
  client: "new_client c s = Some t \<Longrightarrow> front_trans cfg s t"
| stop: "stop s = Some t \<Longrightarrow> front_trans cfg s t"
| server: "server_step cfg i panics s = Some t \<Longrightarrow> front_trans cfg s t"

inductive_cases front_transE: "front_trans cfg s t"

section \<open>Invariant of the entrance\<close>

fun sv_holds :: "'c server \<Rightarrow> bool" where
  "sv_holds (Sv_Serving c) = True"
| "sv_holds Sv_Dead = True"
| "sv_holds _ = False"

fun sv_returned :: "'c server \<Rightarrow> bool" where
  "sv_returned Sv_Returned = True"
| "sv_returned _ = False"

abbreviation nb_returned :: "'c front_end \<Rightarrow> nat" where
  "nb_returned s \<equiv> length (filter sv_returned (fe_servers s))"

definition front_inv :: "send_config \<Rightarrow> 'c front_end \<Rightarrow> bool" where
  "front_inv cfg s \<longleftrightarrow>
     length (fe_servers s) = unat (s_max_clients cfg) \<and>
     fe_permits s + length (filter sv_holds (fe_servers s)) = unat (s_max_clients cfg) \<and>
     fe_accepted s = fe_taken s @ somes (for_server s) \<and>
     nb_returned s + length (filter (\<lambda>m. m = None) (for_server s)) = fe_stops s \<and>
     fe_nones s = unat (s_nb_encode_threads cfg) * nb_returned s \<and>
     length (for_server s) \<le> 1"

lemma front_inv_init:
  assumes "Sender_new sem_new cfg = Ok s"
  shows "front_inv cfg s"
proof -
  have "filter sv_holds (replicate n Sv_Idle) = []" "filter sv_returned (replicate n Sv_Idle) = []" for n
    by (induction n) auto
  then show ?thesis using assms by (auto simp: Sender_new_def front_inv_def split: if_splits)
qed

lemma server_step_inv:
  assumes "server_step cfg i panics s = Some t" and "front_inv cfg s"
  shows "front_inv cfg t"
proof -
  have i: "i < length (fe_servers s)" using assms(1) by (simp add: server_step_def split: if_splits)
  note rep = length_filter_replace [OF i]
  show ?thesis
  proof (cases "fe_servers s ! i")
    case Sv_Idle
    then obtain m q where q: "for_server s = m # q" using assms(1) i
      by (cases "for_server s") (auto simp: server_step_def)
    then show ?thesis using assms Sv_Idle i rep
      by (cases m) (auto simp: server_step_def front_inv_def dest!: sym [of "Suc _"])
  next
    case (Sv_Acquiring c)
    then show ?thesis using assms i rep
      by (auto simp: server_step_def front_inv_def split: if_splits)
  next
    case (Sv_Serving c)
    then obtain m where "length (filter sv_holds (fe_servers s)) = Suc m"
      using length_filter_pos [OF i, of sv_holds] by auto
    then show ?thesis using assms Sv_Serving i rep
      by (auto simp: server_step_def front_inv_def split: if_splits)
  qed (use assms i in \<open>auto simp: server_step_def\<close>)
qed

lemma front_trans_inv:
  assumes "front_trans cfg s t" and "front_inv cfg s"
  shows "front_inv cfg t"
  using assms
proof cases
  case (client c)
  then show ?thesis using assms(2) by (auto simp: new_client_def front_inv_def split: if_splits)
next
  case stop
  then show ?thesis using assms(2) by (auto simp: stop_def front_inv_def split: if_splits)
next
  case (server i panics)
  then show ?thesis using server_step_inv assms(2) by blast
qed

lemma front_reachable_inv:
  assumes "(front_trans cfg)\<^sup>*\<^sup>* s0 s" and "Sender_new sem_new cfg = Ok s0"
  shows "front_inv cfg s"
  using assms(1)
  by (induction rule: rtranclp_induct) (use front_inv_init [OF assms(2)] front_trans_inv in blast)+

section \<open>Which core a thread gets\<close>

text \<open>The core of the \<open>k\<close>-th group.\<close>

definition nth_cpu :: "nat list option \<Rightarrow> nat \<Rightarrow> nat option" where
  "nth_cpu cpu_ids k = (case cpu_ids of None \<Rightarrow> None | Some cs \<Rightarrow> if k < length cs then Some (cs ! k) else None)"

lemma next_cpu_nth:
  assumes "next_cpu cpu_ids = (c, cpu_ids')"
  shows "c = nth_cpu cpu_ids 0" and "nth_cpu cpu_ids' k = nth_cpu cpu_ids (Suc k)"
  using assms by (auto simp: next_cpu_def nth_cpu_def split: option.splits list.splits)

lemma spawn_group_subset:
  "spawn_group spawn cpu g = (r, started) \<Longrightarrow> (th, c) \<in> set started \<Longrightarrow> th \<in> set g \<and> c = cpu"
  by (induction g arbitrary: r started) (auto split: outcome.splits prod.splits)

lemma spawn_groups_subset:
  "spawn_groups spawn cpu_ids gs = (r, started) \<Longrightarrow> (th, c) \<in> set started \<Longrightarrow>
   \<exists>k < length gs. th \<in> set (gs ! k) \<and> c = nth_cpu cpu_ids k"
proof (induction gs arbitrary: cpu_ids r started)
  case Nil
  then show ?case by simp
next
  case (Cons g gs)
  obtain c0 cpu_ids' where n: "next_cpu cpu_ids = (c0, cpu_ids')" by (cases "next_cpu cpu_ids")
  obtain r1 s1 where g: "spawn_group spawn c0 g = (r1, s1)" by (cases "spawn_group spawn c0 g")
  obtain r2 s2 where gs: "spawn_groups spawn cpu_ids' gs = (r2, s2)" by (cases "spawn_groups spawn cpu_ids' gs")
  have "(th, c) \<in> set s1 \<or> (th, c) \<in> set s2" using Cons.prems n g gs by (cases r1) auto
  then show ?case
  proof
    assume "(th, c) \<in> set s1"
    then have "th \<in> set g \<and> c = nth_cpu cpu_ids 0" using spawn_group_subset [OF g] next_cpu_nth(1) [OF n] by simp
    then show ?thesis by (intro exI [of _ 0]) simp
  next
    assume "(th, c) \<in> set s2"
    from Cons.IH [OF gs this] obtain k where "k < length gs" "th \<in> set (gs ! k)" "c = nth_cpu cpu_ids' k" by blast
    then show ?thesis using next_cpu_nth(2) [OF n] by (intro exI [of _ "Suc k"]) simp
  qed
qed

lemma spawn_group_all: "spawn_group (\<lambda>_. Ok ()) cpu g = (Ok (), map (\<lambda>th. (th, cpu)) g)"
  by (induction g) auto

lemma spawn_groups_all:
  "fst (spawn_groups (\<lambda>_. Ok ()) cpu_ids gs) = Ok () \<and>
   map fst (snd (spawn_groups (\<lambda>_. Ok ()) cpu_ids gs)) = concat gs"
  by (induction gs arbitrary: cpu_ids) (simp_all add: spawn_group_all split_beta comp_def)

lemma sender_groups_single: "g \<in> set (sender_groups cfg) \<Longrightarrow> \<exists>th. g = [th]"
  by (auto simp: sender_groups_def split: option.splits)

lemma receiver_decode_group:
  assumes "k < length (receiver_groups cfg)" and "V_Decode i \<in> set (receiver_groups cfg ! k)"
  shows "k = unat (max_clients cfg) + 1"
proof -
  let ?n = "unat (max_clients cfg)"
  consider "k < ?n" | "k = ?n" | "k = ?n + 1" | "k = ?n + 2" | "k = ?n + 3"
    using assms(1) by (fastforce simp: receiver_groups_def)
  then show ?thesis
    by cases (use assms(2) in \<open>auto simp: receiver_groups_def nth_append\<close>)
qed

section \<open>Properties\<close>

text \<open>
  C30. In every reachable state of the sender's entrance, the clients accepted are those handed to a
  server thread, in order and each once, followed by the one in the channel if there is one; at most
  \<open>max_clients\<close> are served at a time and the semaphore never makes a thread wait; every \<open>stop\<close> ends at
  most one of the threads.
\<close>

theorem clients_are_served_in_order:
  assumes "Sender_new sem_new cfg = Ok s0" and "(front_trans cfg)\<^sup>*\<^sup>* s0 s"
  shows "fe_accepted s = fe_taken s @ somes (for_server s) \<and>
    length (filter sv_holds (fe_servers s)) \<le> unat (s_max_clients cfg) \<and>
    (\<forall>i c. i < length (fe_servers s) \<and> fe_servers s ! i = Sv_Acquiring c \<longrightarrow> (\<exists>t. server_step cfg i False s = Some t)) \<and>
    length (filter sv_returned (fe_servers s)) \<le> fe_stops s"
proof -
  have inv: "front_inv cfg s" by (rule front_reachable_inv [OF assms(2,1)])
  have "0 < fe_permits s" if "i < length (fe_servers s)" "fe_servers s ! i = Sv_Acquiring c" for i c
  proof -
    have "fe_servers s ! i \<in> set (fe_servers s)" using that(1) by simp
    then have "length (filter sv_holds (fe_servers s)) < length (fe_servers s)"
      by (rule length_filter_less) (simp add: that(2))
    then show ?thesis using inv by (simp add: front_inv_def)
  qed
  then show ?thesis using inv by (auto simp: front_inv_def server_step_def)
qed

theorem clients_are_served_in_order_witness:
  "\<exists>s :: nat front_end. fe_accepted s = [5] \<and> fe_taken s = [5] \<and>
     (\<exists>t. server_step (small_send_config\<lparr>s_max_clients := 1\<rparr>) 0 False s = Some t)"
proof -
  let ?cfg = "small_send_config\<lparr>s_max_clients := 1\<rparr>"
  obtain s0 :: "nat front_end" where s0: "Sender_new (\<lambda>_. True) ?cfg = Ok s0" "for_server s0 = []"
    "fe_servers s0 = [Sv_Idle]" "fe_accepted s0 = []" "fe_taken s0 = []"
    by (simp add: Sender_new_def)
  define s1 where "s1 = s0\<lparr>for_server := [Some 5], fe_accepted := [5]\<rparr>"
  define s2 where "s2 = s1\<lparr>for_server := [], fe_servers := [Sv_Acquiring 5], fe_taken := [5]\<rparr>"
  have "new_client 5 s0 = Some s1" using s0 by (simp add: new_client_def s1_def)
  then have "front_trans ?cfg s0 s1" by (rule front_trans.client)
  moreover have "server_step ?cfg 0 False s1 = Some s2" using s0 by (simp add: server_step_def s1_def s2_def)
  then have "front_trans ?cfg s1 s2" by (rule front_trans.server)
  ultimately have "(front_trans ?cfg)\<^sup>*\<^sup>* s0 s2" by (meson r_into_rtranclp rtranclp_trans)
  from clients_are_served_in_order [OF s0(1) this] s0
  have "fe_accepted s2 = [5]" "fe_taken s2 = [5]" "\<exists>t. server_step ?cfg 0 False s2 = Some t"
    by (auto simp: s2_def s1_def)
  then show ?thesis by blast
qed

text \<open>
  With CPU affinity no two threads of the sender share a core while there are enough of them; in the
  receiver all the decoding threads are bound to one and the same core, since the iterator over the
  cores is advanced once before their loop and not in it. When every thread can be created, all of the
  receiver's threads are started.
\<close>

theorem decode_threads_share_a_core:
  assumes "distinct cores"
  shows "(\<forall>th th' c. (th, Some c) \<in> set (snd (sender_start ovf log_info spawn (Some cores) rq scfg)) \<and>
      (th', Some c) \<in> set (snd (sender_start ovf log_info spawn (Some cores) rq scfg)) \<longrightarrow> th = th') \<and>
    (\<exists>c. \<forall>i c'. (V_Decode i, c') \<in> set (snd (receiver_start ovf log_info True spawn' (Some cores) rq rcfg)) \<longrightarrow> c' = c) \<and>
    map fst (snd (receiver_start ovf log_info True (\<lambda>_. Ok ()) (Some cores) rq rcfg)) = concat (receiver_groups rcfg)"
proof -
  let ?cs = "if s_cpu_affinity scfg then Some cores else None"
  have S: "\<exists>k < length (sender_groups scfg). sender_groups scfg ! k = [th] \<and> nth_cpu ?cs k = c"
    if mem: "(th, c) \<in> set (snd (sender_start ovf log_info spawn (Some cores) rq scfg))" for th c
  proof -
    obtain r started where sp: "spawn_groups spawn ?cs (sender_groups scfg) = (r, started)"
      by (cases "spawn_groups spawn ?cs (sender_groups scfg)")
    then have "(th, c) \<in> set started" using mem by (simp add: sender_start_def split: if_splits)
    from spawn_groups_subset [OF sp this] obtain k where k: "k < length (sender_groups scfg)"
      "th \<in> set (sender_groups scfg ! k)" "c = nth_cpu ?cs k" by blast
    have "\<exists>th'. sender_groups scfg ! k = [th']" by (rule sender_groups_single [of _ scfg]) (simp add: k(1))
    then show ?thesis using k by auto
  qed
  have "th = th'" if same: "(th, Some c) \<in> set (snd (sender_start ovf log_info spawn (Some cores) rq scfg))"
    "(th', Some c) \<in> set (snd (sender_start ovf log_info spawn (Some cores) rq scfg))" for th th' c
  proof -
    obtain k k' where k: "sender_groups scfg ! k = [th]" "nth_cpu ?cs k = Some c"
      "sender_groups scfg ! k' = [th']" "nth_cpu ?cs k' = Some c" using S [OF same(1)] S [OF same(2)] by blast
    then have "k = k'" using assms by (auto simp: nth_cpu_def nth_eq_iff_index_eq split: if_splits)
    then show ?thesis using k by simp
  qed
  moreover have "c = nth_cpu (Some (rev cores)) (unat (max_clients rcfg) + 1)"
    if mem: "(V_Decode i, c) \<in> set (snd (receiver_start ovf log_info True spawn' (Some cores) rq rcfg))" for i c
  proof -
    obtain r started where sp: "spawn_groups spawn' (Some (rev cores)) (receiver_groups rcfg) = (r, started)"
      by (cases "spawn_groups spawn' (Some (rev cores)) (receiver_groups rcfg)")
    then have "(V_Decode i, c) \<in> set started" using mem by (simp add: receiver_start_def)
    from spawn_groups_subset [OF sp this] receiver_decode_group show ?thesis by blast
  qed
  moreover have "map fst (snd (receiver_start ovf log_info True (\<lambda>_. Ok ()) (Some cores) rq rcfg)) = concat (receiver_groups rcfg)"
    using spawn_groups_all [of "Some (rev cores)" "receiver_groups rcfg"]
    by (auto simp: receiver_start_def split_beta)
  ultimately show ?thesis by blast
qed

theorem decode_threads_share_a_core_witness:
  "\<exists>c. \<forall>i c'. (V_Decode i, c') \<in> set (snd (receiver_start True False True (\<lambda>_. Ok ()) (Some [0, 1, 2, 3, 4, 5, 6, 7])
     small_rq (small_receive_config\<lparr>nb_decode_threads := 3\<rparr>))) \<longrightarrow> c' = c"
  using decode_threads_share_a_core [of "[0, 1, 2, 3, 4, 5, 6, 7]" True False "\<lambda>_. Ok ()" small_rq small_send_config "\<lambda>_. Ok ()"
      "small_receive_config\<lparr>nb_decode_threads := 3\<rparr>"] by simp

end
