(* ===== verification/File_Bindings.thy ===== *)
theory File_Bindings
  imports Aux_File
begin

text \<open>
  The C interface to the file transfer (\<open>diode-file-bindings/src/lib.rs\<close>) and the two sides of a
  connection (\<open>src/aux/mod.rs\<close>). The configurations that the caller holds live in a heap; a pointer is
  an address, 0 the null pointer. A result \<open>None\<close> is undefined behaviour: the pointer that the caller
  passes is not, or no longer, one of \<open>diode_new_config\<close>. A null string is \<open>None\<close>; the conversion of C
  strings (\<open>from_utf8_lossy\<close>) and the parsing of an address are arguments, as is the address that the
  allocator returns.
\<close>

section \<open>The interface\<close>

datatype diode_send = Diode_Tcp SocketAddr | Diode_Unix "byte list"

record diode_receive =
  dr_from_tcp :: "SocketAddr option"
  dr_from_unix :: "byte list option"

record binding_config =
  bc_diode :: diode_send
  bc_file :: file_config

type_synonym config_heap = "nat \<rightharpoonup> binding_config"

text \<open>
  The pointer and the heap. A wrong address panics, and a panic does not unwind through C: the process
  aborts.
\<close>

definition diode_new_config :: "(byte list \<Rightarrow> byte list) \<Rightarrow> (byte list \<Rightarrow> SocketAddr option) \<Rightarrow> nat \<Rightarrow>
    byte list option \<Rightarrow> u32 \<Rightarrow> config_heap \<Rightarrow> (nat \<times> config_heap, unit) outcome" where
  "diode_new_config lossy parse_addr addr ptr_addr buffer_size heap =
     (case ptr_addr of
        None \<Rightarrow> Ok (0, heap)
      | Some cstr_addr \<Rightarrow>
          (case parse_addr (lossy cstr_addr) of
             None \<Rightarrow> Panic Library_Panic
           | Some socket_addr \<Rightarrow>
               Ok (addr, heap(addr \<mapsto> \<lparr>bc_diode = Diode_Tcp socket_addr,
                 bc_file = \<lparr>fc_buffer_size = unat buffer_size, fc_hash = False, fc_max_files = 0\<rparr>\<rparr>))))"

definition diode_free_config :: "nat \<Rightarrow> config_heap \<Rightarrow> config_heap option" where
  "diode_free_config ptr heap =
     (if ptr = 0 then Some heap
      else (case heap ptr of None \<Rightarrow> None | Some config \<Rightarrow> Some (heap(ptr := None))))"

text \<open>\<open>connect\<close> is what connecting to the diode gives, \<open>files\<close> what is under a path.\<close>

definition diode_send_file :: "hash_fun \<Rightarrow> (byte list \<Rightarrow> byte list) \<Rightarrow> (diode_send \<Rightarrow> (sink, io_error) outcome) \<Rightarrow>
    (byte list \<Rightarrow> source_file) \<Rightarrow> config_heap \<Rightarrow> nat \<Rightarrow> byte list option \<Rightarrow> (u32, unit) outcome option" where
  "diode_send_file H lossy connect files heap ptr ptr_filepath =
     (if ptr = 0 then Some (Ok 0)
      else
        (case heap ptr of
           None \<Rightarrow> None
         | Some config \<Rightarrow>
             Some (case ptr_filepath of
                None \<Rightarrow> Ok 0
              | Some cstr_filepath \<Rightarrow>
                  let path = lossy cstr_filepath in
                  (case fst (send_file H (bc_file config) (connect (bc_diode config)) (files path) path) of
                     Ok n \<Rightarrow> (case u32_try_from_usize n of Ok r \<Rightarrow> Ok r | _ \<Rightarrow> Ok 0)
                   | Err e \<Rightarrow> Ok 0
                   | Panic p \<Rightarrow> Panic p))))"

text \<open>The configuration with which \<open>diode_receive_files\<close> receives, if it does.\<close>

definition binding_receive_config :: "binding_config \<Rightarrow> byte list option \<Rightarrow> (diode_receive \<times> file_config) option" where
  "binding_receive_config config ptr_odir =
     (case bc_diode config of
        Diode_Unix path \<Rightarrow> None
      | Diode_Tcp socket_addr \<Rightarrow>
          (case ptr_odir of
             None \<Rightarrow> None
           | Some odir \<Rightarrow>
               Some (\<lparr>dr_from_tcp = Some socket_addr, dr_from_unix = None\<rparr>,
                 \<lparr>fc_buffer_size = fc_buffer_size (bc_file config), fc_hash = False, fc_max_files = 0\<rparr>)))"

definition diode_receive_files :: "(script \<Rightarrow> bool) \<Rightarrow> (byte list \<Rightarrow> bool) \<Rightarrow> (byte list \<Rightarrow> byte list) \<Rightarrow>
    (SocketAddr \<Rightarrow> listener) \<Rightarrow> config_heap \<Rightarrow> nat \<Rightarrow> byte list option \<Rightarrow>
    ((unit, file_error) outcome option \<times> script list) option" where
  "diode_receive_files panics is_dir lossy listener_at heap ptr ptr_odir =
     (if ptr = 0 then Some (Some (Ok ()), [])
      else
        (case heap ptr of
           None \<Rightarrow> None
         | Some config \<Rightarrow>
             Some (case (binding_receive_config config ptr_odir, ptr_odir) of
               (Some (diode, cfg), Some odir) \<Rightarrow>
                 (case receive_files cfg panics (is_dir (lossy odir)) None (map_option listener_at (dr_from_tcp diode)) of
                    (Some (Err e), cs) \<Rightarrow> (Some (Ok ()), cs)
                  | (r, cs) \<Rightarrow> (r, cs))
             | _ \<Rightarrow> (Some (Ok ()), []))))"

section \<open>What the caller learns\<close>

text \<open>
  The result of a good transfer is the length of the file if it fits 32 bits, and 0 otherwise, which
  is also the result of every error and of an empty file.
\<close>

lemma binding_send_result:
  assumes "regular_file (files (lossy p)) (lossy p) n mode d" and "fair_buffer (bc_file config)"
    and "connect (bc_diode config) = open_conn" and "ptr \<noteq> 0" and "heap ptr = Some config"
  shows "diode_send_file H lossy connect files heap ptr (Some p) =
    Some (Ok (if length d < 2 ^ 32 then of_nat (length d) else 0))"
  using send_regular [OF assms(1,2), of H] assms(3-)
  by (simp add: diode_send_file_def u32_try_from_usize_def)

lemma binding_send_no_connection:
  "ptr \<noteq> 0 \<Longrightarrow> heap ptr = Some config \<Longrightarrow> connect (bc_diode config) = Err e \<Longrightarrow>
   diode_send_file H lossy connect files heap ptr (Some p) = Some (Ok 0)"
  by (simp add: diode_send_file_def send_file_def Let_def)

text \<open>The bindings never hash, and never check a hash: \<open>InvalidHash\<close> cannot be the verdict.\<close>

lemma binding_no_hash:
  "binding_receive_config config odir = Some (diode, cfg) \<Longrightarrow> \<not> fc_hash cfg \<and> fc_max_files cfg = 0 \<and>
     hash_verdict H cfg len fh ws = Ok (unat len)"
  by (auto simp: binding_receive_config_def hash_verdict_def split: option.splits diode_send.splits)

section \<open>Lifetimes\<close>

text \<open>
  The calls of a C program, with the address that the allocator returns for each new configuration. A
  caller is well behaved if it uses and frees only what it has got and not yet freed; then the interface
  never does anything undefined, and if it frees everything nothing is left in the heap.
\<close>

record binding_env =
  be_hash :: hash_fun
  be_lossy :: "byte list \<Rightarrow> byte list"
  be_parse_addr :: "byte list \<Rightarrow> SocketAddr option"
  be_connect :: "diode_send \<Rightarrow> (sink, io_error) outcome"
  be_files :: "byte list \<Rightarrow> source_file"
  be_panics :: "script \<Rightarrow> bool"
  be_is_dir :: "byte list \<Rightarrow> bool"
  be_listener_at :: "SocketAddr \<Rightarrow> listener"

datatype binding_call =
    Call_New nat "byte list" u32 | Call_Free nat
  | Call_Send nat "byte list option" | Call_Receive nat "byte list option"

text \<open>\<open>Some (Panic p)\<close>: the process aborts.\<close>

fun binding_step :: "binding_env \<Rightarrow> binding_call \<Rightarrow> config_heap \<Rightarrow> (config_heap, unit) outcome option" where
  "binding_step E (Call_New addr a n) heap =
     Some (obind (diode_new_config (be_lossy E) (be_parse_addr E) addr (Some a) n heap) (\<lambda>(ptr, heap'). Ok heap'))"
| "binding_step E (Call_Free ptr) heap = map_option Ok (diode_free_config ptr heap)"
| "binding_step E (Call_Send ptr path) heap =
     map_option (\<lambda>r. obind r (\<lambda>n. Ok heap))
       (diode_send_file (be_hash E) (be_lossy E) (be_connect E) (be_files E) heap ptr path)"
| "binding_step E (Call_Receive ptr odir) heap =
     map_option (\<lambda>r. Ok heap)
       (diode_receive_files (be_panics E) (be_is_dir E) (be_lossy E) (be_listener_at E) heap ptr odir)"

fun binding_run :: "binding_env \<Rightarrow> binding_call list \<Rightarrow> config_heap \<Rightarrow> (config_heap, unit) outcome option" where
  "binding_run E [] heap = Some (Ok heap)"
| "binding_run E (c # cs) heap =
     (case binding_step E c heap of
        Some (Ok heap') \<Rightarrow> binding_run E cs heap'
      | r \<Rightarrow> r)"

fun live_calls :: "nat set \<Rightarrow> binding_call list \<Rightarrow> nat set option" where
  "live_calls live [] = Some live"
| "live_calls live (Call_New addr a n # cs) =
     (if addr = 0 \<or> addr \<in> live then None else live_calls (insert addr live) cs)"
| "live_calls live (Call_Free ptr # cs) = (if ptr \<in> live then live_calls (live - {ptr}) cs else None)"
| "live_calls live (Call_Send ptr path # cs) = (if ptr \<in> live then live_calls live cs else None)"
| "live_calls live (Call_Receive ptr odir # cs) = (if ptr \<in> live then live_calls live cs else None)"

lemma binding_step_live:
  assumes "live_calls (dom heap) (c # cs) = Some live" and "0 \<notin> dom heap"
  shows "\<exists>r. binding_step E c heap = Some r \<and>
    (\<forall>heap'. r = Ok heap' \<longrightarrow> live_calls (dom heap') cs = Some live \<and> 0 \<notin> dom heap')"
proof (cases c)
  case (Call_New addr a n)
  then show ?thesis using assms
    by (auto simp: diode_new_config_def split: if_splits option.splits)
next
  case (Call_Free ptr)
  then show ?thesis using assms
    by (auto simp: diode_free_config_def insert_Diff_if split: if_splits)
next
  case (Call_Send ptr path)
  then obtain config where h: "ptr \<noteq> 0" "heap ptr = Some config" "live_calls (dom heap) cs = Some live"
    using assms by (auto split: if_splits)
  then obtain r where "diode_send_file (be_hash E) (be_lossy E) (be_connect E) (be_files E) heap ptr path = Some r"
    by (simp add: diode_send_file_def)
  then show ?thesis using Call_Send h(3) assms(2) by (auto simp: obind_eq_Ok)
next
  case (Call_Receive ptr odir)
  then show ?thesis using assms by (auto simp: diode_receive_files_def split: if_splits)
qed

lemma binding_run_live:
  "live_calls (dom heap) cs = Some live \<Longrightarrow> 0 \<notin> dom heap \<Longrightarrow>
   \<exists>r. binding_run E cs heap = Some r \<and> (\<forall>heap'. r = Ok heap' \<longrightarrow> dom heap' = live)"
proof (induction cs arbitrary: heap)
  case Nil
  then show ?case by simp
next
  case (Cons c cs)
  from binding_step_live [OF Cons.prems, of E] obtain r where
    r: "binding_step E c heap = Some r" "\<forall>heap'. r = Ok heap' \<longrightarrow> live_calls (dom heap') cs = Some live \<and> 0 \<notin> dom heap'"
    by blast
  then show ?case using Cons.IH by (cases r) auto
qed

text \<open>A pointer that has been freed must not be used again, nor freed again.\<close>

lemma freed_pointer:
  assumes "ptr \<noteq> 0" and "diode_free_config ptr heap = Some heap'"
  shows "diode_free_config ptr heap' = None" and "diode_send_file H lossy connect files heap' ptr path = None"
    and "diode_receive_files panics is_dir lossy listener_at heap' ptr odir = None"
proof -
  have "heap' ptr = None" using assms by (auto simp: diode_free_config_def split: option.splits)
  then show "diode_free_config ptr heap' = None" "diode_send_file H lossy connect files heap' ptr path = None"
    "diode_receive_files panics is_dir lossy listener_at heap' ptr odir = None"
    using assms(1) by (simp_all add: diode_free_config_def diode_send_file_def diode_receive_files_def)
qed

end
