(* ===== verification/Logger.thy ===== *)
theory Logger
  imports Stream_IO
begin

text \<open>
  \<open>init_logger\<close> of \<open>src/lib.rs\<close>. The crates \<open>log\<close> and \<open>simplelog\<close> are not under \<open>src\<close>: the configuration
  that the code builds is a record of the settings it makes, and what opening the file and setting the
  logger give are functions of an environment. Of the crate \<open>log\<close> the model uses the order of the levels
  and that a log line evaluates its arguments only if the level lets it through.
\<close>

section \<open>Levels\<close>

datatype level_filter = Log_Off | Log_Error | Log_Warn | Log_Info | Log_Debug | Log_Trace

fun level_rank :: "level_filter \<Rightarrow> nat" where
  "level_rank Log_Off = 0"
| "level_rank Log_Error = 1"
| "level_rank Log_Warn = 2"
| "level_rank Log_Info = 3"
| "level_rank Log_Debug = 4"
| "level_rank Log_Trace = 5"

lemma level_rank_inj: "level_rank a = level_rank b \<longleftrightarrow> a = b"
  by (cases a; cases b) simp_all

instantiation level_filter :: linorder
begin

definition less_eq_level_filter :: "level_filter \<Rightarrow> level_filter \<Rightarrow> bool" where
  "a \<le> b \<longleftrightarrow> level_rank a \<le> level_rank b"

definition less_level_filter :: "level_filter \<Rightarrow> level_filter \<Rightarrow> bool" where
  "a < b \<longleftrightarrow> level_rank a < level_rank b"

instance
  by standard (auto simp: less_eq_level_filter_def less_level_filter_def level_rank_inj)

end

text \<open>A line of level \<open>l\<close> is written, and its arguments are evaluated, under the filter \<open>f\<close>.\<close>

definition logs :: "level_filter \<Rightarrow> level_filter \<Rightarrow> bool" where
  "logs f l \<longleftrightarrow> l \<le> f"

lemma logs_mono: "logs f l \<Longrightarrow> f \<le> g \<Longrightarrow> logs g l"
  by (simp add: logs_def)

lemma logs_simps [simp]:
  "logs Log_Info Log_Info" "logs Log_Debug Log_Info" "logs Log_Trace Log_Info" "\<not> logs Log_Off Log_Info"
  "\<not> logs Log_Error Log_Info" "\<not> logs Log_Warn Log_Info" "\<not> logs Log_Info Log_Debug" "logs Log_Debug Log_Debug"
  by (simp_all add: logs_def less_eq_level_filter_def)

section \<open>The logger\<close>

datatype terminal_mode = Terminal_Stderr | Terminal_Mixed

datatype level_padding = Padding_Right

datatype thread_mode = Thread_Names

datatype time_format = Time_Rfc2822

text \<open>The settings; \<open>lc_local\<close> says whether the local time offset could be set.\<close>

record log_config =
  lc_level_padding :: level_padding
  lc_target_level :: level_filter
  lc_thread_level :: level_filter
  lc_thread_mode :: thread_mode
  lc_time_format :: time_format
  lc_local :: bool

record open_options =
  oo_create :: bool
  oo_append :: bool
  oo_truncate :: bool
  oo_read :: bool

text \<open>What the system and the crate do; an error is its message.\<close>

record log_host =
  lh_local_offset :: bool
  lh_open :: "open_options \<Rightarrow> byte list \<Rightarrow> (unit, string) outcome"
  lh_write_logger :: "level_filter \<Rightarrow> log_config \<Rightarrow> byte list \<Rightarrow> (unit, string) outcome"
  lh_term_logger :: "level_filter \<Rightarrow> log_config \<Rightarrow> terminal_mode \<Rightarrow> (unit, string) outcome"

text \<open>\<open>set_time_offset_to_local\<close> gives the builder back in both cases, which \<open>unwrap_or_else\<close> takes.\<close>

definition log_config_of :: "log_host \<Rightarrow> level_filter \<Rightarrow> log_config" where
  "log_config_of h level_filter =
     \<lparr>lc_level_padding = Padding_Right, lc_target_level = Log_Off, lc_thread_level = level_filter,
      lc_thread_mode = Thread_Names, lc_time_format = Time_Rfc2822, lc_local = lh_local_offset h\<rparr>"

definition init_logger :: "log_host \<Rightarrow> level_filter \<Rightarrow> byte list option \<Rightarrow> bool \<Rightarrow> (unit, string) outcome" where
  "init_logger h level_filter file_opt stderr_only =
     (let terminal_mode = (if stderr_only then Terminal_Stderr else Terminal_Mixed);
          config = log_config_of h level_filter in
      case file_opt of
        Some f \<Rightarrow>
          obind (lh_open h \<lparr>oo_create = True, oo_append = True, oo_truncate = False, oo_read = False\<rparr> f) (\<lambda>_.
          lh_write_logger h level_filter config f)
      | None \<Rightarrow> lh_term_logger h level_filter config terminal_mode)"

section \<open>What it does\<close>

text \<open>
  A log file is never truncated and replaces the terminal: with one, the terminal is not used and its
  mode does not matter; a file that cannot be opened is an error, and no logger is set.
\<close>

lemma init_logger_file:
  "init_logger h l (Some f) b = init_logger h l (Some f) b'"
  "lh_open h \<lparr>oo_create = True, oo_append = True, oo_truncate = False, oo_read = False\<rparr> f = Err e \<Longrightarrow>
     init_logger h l (Some f) b = Err e"
  by (simp_all add: init_logger_def Let_def)

lemma init_logger_terminal:
  "init_logger h l None b = lh_term_logger h l (log_config_of h l) (if b then Terminal_Stderr else Terminal_Mixed)"
  by (simp add: init_logger_def Let_def)

text \<open>A host on which logging works.\<close>

definition quiet_log :: log_host where
  "quiet_log = \<lparr>lh_local_offset = True, lh_open = \<lambda>_ _. Ok (), lh_write_logger = \<lambda>_ _ _. Ok (),
     lh_term_logger = \<lambda>_ _ _. Ok ()\<rparr>"

lemma init_quiet_log [simp]: "init_logger quiet_log l f b = Ok ()"
  by (simp add: init_logger_def quiet_log_def Let_def split: option.split)

end
