(* ===== verification/Aux_Programs.thy ===== *)
theory Aux_Programs
  imports File_Bindings Aux_Udp Logger
begin

text \<open>
  The programs at the two ends of the diode: \<open>diode-send-file\<close>, \<open>diode-receive-file\<close>,
  \<open>diode-send-udp\<close>, \<open>diode-receive-udp\<close> and \<open>diode-flood-test\<close> (\<open>src/bin\<close>), with their arguments and
  default values. As in the daemons, the parsing of the command line is left out. Without a logger
  \<open>main\<close> returns at once. A result \<open>None\<close> means that the program goes on. An error is logged, and the
  exit status is 0 all the same.
\<close>

section \<open>Files\<close>

text \<open>clap requires one of the two options; without it \<open>unreachable!\<close> panics.\<close>

definition diode_choice :: "SocketAddr option \<Rightarrow> byte list option \<Rightarrow> (diode_send, 'e) outcome" where
  "diode_choice to_tcp to_unix =
     (case to_tcp of
        Some a \<Rightarrow> Ok (Diode_Tcp a)
      | None \<Rightarrow> (case to_unix of Some p \<Rightarrow> Ok (Diode_Unix p) | None \<Rightarrow> Panic Library_Panic))"

record send_file_args =
  sf_log_level :: level_filter
  sf_to_tcp :: "SocketAddr option"
  sf_to_unix :: "byte list option"
  sf_buffer_size :: nat
  sf_hash :: bool
  sf_files :: "byte list list"

definition default_send_file_args :: send_file_args where
  "default_send_file_args =
     \<lparr>sf_log_level = Log_Info, sf_to_tcp = None, sf_to_unix = None, sf_buffer_size = 4194304, sf_hash = False, sf_files = []\<rparr>"

text \<open>\<open>connect i\<close> is what the connection for the \<open>i\<close>-th file gives.\<close>

definition send_file_main :: "hash_fun \<Rightarrow> log_host \<Rightarrow> (nat \<Rightarrow> diode_send \<Rightarrow> (sink, io_error) outcome) \<Rightarrow>
    (byte list \<Rightarrow> source_file) \<Rightarrow> send_file_args \<Rightarrow> (unit, file_error) outcome \<times> byte list list" where
  "send_file_main H log connect files args =
     (if \<not> is_ok (init_logger log (sf_log_level args) None False) then (Ok (), [])
      else
        (case diode_choice (sf_to_tcp args) (sf_to_unix args) of
           Ok diode \<Rightarrow>
             let cfg = \<lparr>fc_buffer_size = sf_buffer_size args, fc_hash = sf_hash args, fc_max_files = 0\<rparr> in
             send_files H cfg (map (\<lambda>(i, p). (connect i diode, files p, p)) (enumerate 0 (sf_files args)))
         | Err e \<Rightarrow> (Err e, [])
         | Panic p \<Rightarrow> (Panic p, [])))"

record receive_file_args =
  rf_log_level :: level_filter
  rf_from_tcp :: "SocketAddr option"
  rf_from_unix :: "byte list option"
  rf_buffer_size :: nat
  rf_hash :: bool
  rf_max_files :: nat
  rf_output_directory :: "byte list"

definition default_receive_file_args :: receive_file_args where
  "default_receive_file_args =
     \<lparr>rf_log_level = Log_Info, rf_from_tcp = None, rf_from_unix = None, rf_buffer_size = 4194304,
      rf_hash = False, rf_max_files = 0, rf_output_directory = [46]\<rparr>"

definition receive_file_main :: "log_host \<Rightarrow> (script \<Rightarrow> bool) \<Rightarrow> (byte list \<Rightarrow> bool) \<Rightarrow> (diode_send \<Rightarrow> listener) \<Rightarrow>
    receive_file_args \<Rightarrow> (unit, file_error) outcome option \<times> script list" where
  "receive_file_main log panics is_dir listener_at args =
     (if \<not> is_ok (init_logger log (rf_log_level args) None False) then (Some (Ok ()), [])
      else
        let diode = \<lparr>dr_from_tcp = rf_from_tcp args, dr_from_unix = rf_from_unix args\<rparr>;
            cfg = \<lparr>fc_buffer_size = rf_buffer_size args, fc_hash = rf_hash args, fc_max_files = rf_max_files args\<rparr> in
        receive_files cfg panics (is_dir (rf_output_directory args))
          (map_option (listener_at \<circ> Diode_Unix) (dr_from_unix diode))
          (map_option (listener_at \<circ> Diode_Tcp) (dr_from_tcp diode)))"

section \<open>Datagrams\<close>

text \<open>Both programs use a buffer of \<open>u16::MAX\<close> bytes.\<close>

definition udp_program_config :: udp_config where
  "udp_program_config = \<lparr>uc_buffer_size = 65535\<rparr>"

record send_udp_args =
  su_log_level :: level_filter
  su_to_tcp :: "SocketAddr option"
  su_to_unix :: "byte list option"
  su_from :: SocketAddr

definition default_send_udp_args :: "SocketAddr \<Rightarrow> send_udp_args" where
  "default_send_udp_args from_addr =
     \<lparr>su_log_level = Log_Info, su_to_tcp = None, su_to_unix = None, su_from = from_addr\<rparr>"

definition send_udp_main :: "log_host \<Rightarrow> (diode_send \<Rightarrow> (sink, io_error) outcome) \<Rightarrow>
    (SocketAddr \<Rightarrow> (unit, io_error) outcome) \<Rightarrow> (byte list, io_error) outcome list \<Rightarrow>
    send_udp_args \<Rightarrow> (unit, udp_error) outcome option \<times> byte list" where
  "send_udp_main log connect bind_udp arrivals args =
     (if \<not> is_ok (init_logger log (su_log_level args) None False) then (Some (Ok ()), [])
      else
        (case diode_choice (su_to_tcp args) (su_to_unix args) of
           Ok diode \<Rightarrow> udp_send udp_program_config (connect diode) (bind_udp (su_from args)) arrivals
         | Err e \<Rightarrow> (Some (Err e), [])
         | Panic p \<Rightarrow> (Some (Panic p), [])))"

record receive_udp_args =
  ru_log_level :: level_filter
  ru_from_tcp :: "SocketAddr option"
  ru_from_unix :: "byte list option"
  ru_to_bind :: SocketAddr
  ru_to :: SocketAddr

definition default_receive_udp_args :: "SocketAddr \<Rightarrow> SocketAddr \<Rightarrow> receive_udp_args" where
  "default_receive_udp_args to_bind to =
     \<lparr>ru_log_level = Log_Info, ru_from_tcp = None, ru_from_unix = None, ru_to_bind = to_bind, ru_to = to\<rparr>"

definition receive_udp_main :: "log_host \<Rightarrow> (diode_send \<Rightarrow> udp_listener) \<Rightarrow> (SocketAddr \<Rightarrow> (unit, io_error) outcome) \<Rightarrow>
    (SocketAddr \<Rightarrow> byte list \<Rightarrow> (unit, io_error) outcome) \<Rightarrow> receive_udp_args \<Rightarrow>
    (unit, udp_error) outcome option \<times> byte list list" where
  "receive_udp_main log listener_at bind_udp send_to args =
     (if \<not> is_ok (init_logger log (ru_log_level args) None False) then (Some (Ok ()), [])
      else
        let diode = \<lparr>dr_from_tcp = ru_from_tcp args, dr_from_unix = ru_from_unix args\<rparr> in
        udp_receive udp_program_config (bind_udp (ru_to_bind args)) (send_to (ru_to args))
          (map_option (listener_at \<circ> Diode_Unix) (dr_from_unix diode))
          (map_option (listener_at \<circ> Diode_Tcp) (dr_from_tcp diode)))"

section \<open>The flood test\<close>

text \<open>
  \<open>start\<close> sends the buffer for ever, changed in each round by one random byte. The list holds what
  \<open>next_u32\<close> gives in each round; \<open>None\<close> means that the loop goes on, and the only end is the panic of a
  write that fails.
\<close>

definition xor_buffer :: "u32 \<Rightarrow> byte list \<Rightarrow> byte list" where
  "xor_buffer random buffer = map (\<lambda>n. xor n (ucast (and random 0xff))) buffer"

fun flood_loop :: "u32 list \<Rightarrow> byte list \<Rightarrow> sink \<Rightarrow> (unit, io_error) outcome option \<times> sink" where
  "flood_loop [] buffer diode = (None, diode)"
| "flood_loop (random # randoms) buffer diode =
     (let buffer' = xor_buffer random buffer in
      case sink_write_all buffer' diode of
        (Ok u, diode') \<Rightarrow> flood_loop randoms buffer' diode'
      | (_, diode') \<Rightarrow> (Some (Panic Library_Panic), diode'))"

definition flood_start :: "(nat \<Rightarrow> byte list) \<Rightarrow> u32 list \<Rightarrow> sink \<Rightarrow> nat \<Rightarrow> (unit, io_error) outcome option \<times> sink" where
  "flood_start fill_bytes randoms diode buffer_size =
     (case vec_zeroed buffer_size of
        Ok buffer \<Rightarrow> flood_loop randoms (fill_bytes (length buffer)) diode
      | Err e \<Rightarrow> (Some (Err e), diode)
      | Panic p \<Rightarrow> (Some (Panic p), diode))"

record flood_args =
  fl_log_level :: level_filter
  fl_to_tcp :: "SocketAddr option"
  fl_to_unix :: "byte list option"
  fl_buffer_size :: nat

definition default_flood_args :: flood_args where
  "default_flood_args = \<lparr>fl_log_level = Log_Info, fl_to_tcp = None, fl_to_unix = None, fl_buffer_size = 4194304\<rparr>"

definition flood_main :: "log_host \<Rightarrow> (diode_send \<Rightarrow> (sink, io_error) outcome) \<Rightarrow> (nat \<Rightarrow> byte list) \<Rightarrow> u32 list \<Rightarrow>
    flood_args \<Rightarrow> (unit, io_error) outcome option \<times> byte list" where
  "flood_main log connect fill_bytes randoms args =
     (if \<not> is_ok (init_logger log (fl_log_level args) None False) then (Some (Ok ()), [])
      else
        (case obind (diode_choice (fl_to_tcp args) (fl_to_unix args)) connect of
           Ok diode \<Rightarrow> (case flood_start fill_bytes randoms diode (fl_buffer_size args) of (r, diode') \<Rightarrow> (r, sink_out diode'))
         | Err e \<Rightarrow> (Some (Panic Library_Panic), [])
         | Panic p \<Rightarrow> (Some (Panic p), [])))"

section \<open>What the programs do\<close>

text \<open>Files that can be read, sent to a diode that takes them, are all sent, one connection each, in order.\<close>

lemma send_files_ok:
  assumes "fair_buffer cfg" and "list_all (\<lambda>(conn, f, p). conn = open_conn \<and> (\<exists>n m d. regular_file f p n m d)) fs"
  shows "send_files H cfg fs = (Ok (), map (\<lambda>(conn, f, p). snd (send_file H cfg open_conn f p)) fs)"
  using assms(2)
proof (induction fs)
  case Nil
  then show ?case by simp
next
  case (Cons x fs)
  obtain conn f p where x: "x = (conn, f, p)" by (cases x)
  then obtain n m d where "conn = open_conn" "regular_file f p n m d" using Cons.prems by auto
  then show ?case using Cons x send_regular [OF _ assms(1), of f p n m d H] by simp
qed

lemma map_enumerate_snd: "map (\<lambda>(i, p). g p) (enumerate n ps) = map g ps"
  by (induction ps arbitrary: n) auto

lemma send_file_main_ok:
  assumes "fair_buffer cfg" and "cfg = \<lparr>fc_buffer_size = sf_buffer_size args, fc_hash = sf_hash args, fc_max_files = 0\<rparr>"
    and "sf_to_tcp args \<noteq> None \<or> sf_to_unix args \<noteq> None"
    and "\<forall>p \<in> set (sf_files args). \<exists>n m d. regular_file (files p) p n m d"
  shows "send_file_main H quiet_log (\<lambda>i diode. open_conn) files args =
    (Ok (), map (\<lambda>p. snd (send_file H cfg open_conn (files p) p)) (sf_files args))"
proof -
  let ?fs = "map (\<lambda>(i, p). (open_conn, files p, p)) (enumerate 0 (sf_files args))"
  have fs: "?fs = map (\<lambda>p. (open_conn, files p, p)) (sf_files args)"
    by (rule map_enumerate_snd)
  have "list_all (\<lambda>(conn, f, p). conn = open_conn \<and> (\<exists>n m d. regular_file f p n m d)) ?fs"
    unfolding fs using assms(4) by (simp add: list_all_iff)
  from send_files_ok [OF assms(1) this, of H]
  have "send_files H cfg ?fs = (Ok (), map (\<lambda>p. snd (send_file H cfg open_conn (files p) p)) (sf_files args))"
    unfolding fs by (simp add: comp_def)
  then show ?thesis using assms(2,3) by (auto simp: send_file_main_def diode_choice_def Let_def split: option.splits)
qed

text \<open>
  The two programs' default buffers agree, so that the hashes do; and a transfer of datagrams between
  the two UDP programs neither cuts a datagram nor panics, since none is larger than the buffer.
\<close>

lemma default_buffers_agree: "sf_buffer_size default_send_file_args = rf_buffer_size default_receive_file_args"
  by (simp add: default_send_file_args_def default_receive_file_args_def)

lemma udp_programs_keep_datagrams:
  assumes "\<forall>d\<in>set ds. length d \<le> 65535" and "su_to_tcp args \<noteq> None \<or> su_to_unix args \<noteq> None"
    and "delivers diode (snd (send_udp_main quiet_log (\<lambda>_. open_conn) (\<lambda>_. Ok ()) (map Ok ds) args))"
  shows "receive_udp udp_program_config (Ok ()) (\<lambda>_. Ok ()) diode = (Err (U_Diode (UP_Io Unexpected_Eof)), ds)"
proof -
  have u: "unlimited \<lparr>sink_out = [], sink_limit = None\<rparr>" by (simp add: unlimited_def)
  have "map (udp_frame \<circ> recv_from 65535) ds = map udp_frame ds" using assms(1) by (simp add: recv_from_def)
  with udp_send_loop_ok [OF u, of udp_program_config ds] assms(2,3)
  have s: "clean diode" "script_bytes diode = concat (map udp_frame ds) @ []"
    by (auto simp: send_udp_main_def diode_choice_def udp_send_def open_conn_def send_udp_aux_def vec_zeroed_def
        udp_program_config_def delivers_def split: option.splits)
  have "\<forall>d\<in>set ds. length d \<le> uc_buffer_size udp_program_config \<and> length d < 2 ^ 64 \<and> Ok () = (Ok () :: (unit, io_error) outcome)"
    using assms(1) by (fastforce simp: udp_program_config_def)
  from udp_forward_loop_ok [OF s this] obtain s' where "clean s'" "script_bytes s' = []"
    "udp_forward_loop udp_program_config (\<lambda>_. Ok ()) diode =
       (fst (udp_forward_loop udp_program_config (\<lambda>_. Ok ()) s'), ds @ snd (udp_forward_loop udp_program_config (\<lambda>_. Ok ()) s'))"
    by blast
  then show ?thesis using udp_forward_loop_end [of s' udp_program_config]
    by (simp add: receive_udp_def vec_zeroed_def udp_program_config_def)
qed

text \<open>The flood test ends by a panic or not at all, and an unlimited peer gets all the buffers.\<close>

lemma flood_loop_end: "fst (flood_loop randoms buffer diode) \<in> {None, Some (Panic Library_Panic)}"
  by (induction randoms buffer diode rule: flood_loop.induct) (auto simp: Let_def split: outcome.splits prod.splits)

lemma flood_loop_unlimited:
  "unlimited diode \<Longrightarrow> \<exists>bs. flood_loop randoms buffer diode = (None, diode\<lparr>sink_out := sink_out diode @ bs\<rparr>) \<and>
     length bs = length randoms * length buffer"
proof (induction randoms arbitrary: buffer diode)
  case Nil
  then show ?case by (intro exI [of _ "[]"]) simp
next
  case (Cons random randoms)
  let ?b = "xor_buffer random buffer" and ?d = "diode\<lparr>sink_out := sink_out diode @ xor_buffer random buffer\<rparr>"
  from Cons.IH [of ?d ?b] Cons.prems obtain bs where
    "flood_loop randoms ?b ?d = (None, ?d\<lparr>sink_out := sink_out ?d @ bs\<rparr>)" "length bs = length randoms * length ?b" by auto
  moreover have "sink_write_all ?b diode = (Ok (), ?d)" using Cons.prems by (rule sink_write_unlimited)
  ultimately show ?case by (intro exI [of _ "?b @ bs"]) (simp add: Let_def xor_buffer_def)
qed

lemma flood_loop_closed:
  assumes "sink_limit diode = Some l" and "length (sink_out diode) \<le> l" and "0 < length buffer"
    and "l < length (sink_out diode) + length randoms * length buffer"
  shows "fst (flood_loop randoms buffer diode) = Some (Panic Library_Panic)"
  using assms
proof (induction randoms arbitrary: buffer diode)
  case Nil
  then show ?case by simp
next
  case (Cons random randoms)
  then show ?case by (auto simp: Let_def sink_write_all_def xor_buffer_def)
qed

end
