(* ===== verification/Programs.thy ===== *)
theory Programs
  imports Startup Receive_Client Logger
begin

text \<open>
  The programs \<open>diode-send\<close>, \<open>diode-receive\<close>, \<open>diode-oneshot-send\<close> and \<open>diode-oneshot-receive\<close>
  (\<open>src/bin\<close>): their arguments with the default values, the configurations they build, and \<open>main\<close> with
  its early returns. clap's parsing of the command line is left out, except for the value parser that
  the program defines itself; the results of the system calls are arguments.
\<close>

section \<open>Durations\<close>

datatype parse_int_error = PI_Empty | PI_InvalidDigit | PI_PosOverflow

definition to_digit :: "byte \<Rightarrow> nat option" where
  "to_digit b = (if 48 \<le> unat b \<and> unat b \<le> 57 then Some (unat b - 48) else None)"

fun parse_digits :: "nat \<Rightarrow> byte list \<Rightarrow> (nat, parse_int_error) outcome" where
  "parse_digits acc [] = Ok acc"
| "parse_digits acc (b # bs) =
     (case to_digit b of
        None \<Rightarrow> Err PI_InvalidDigit
      | Some d \<Rightarrow> if acc * 10 + d < 2 ^ 64 then parse_digits (acc * 10 + d) bs else Err PI_PosOverflow)"

text \<open>\<open>u64::from_str\<close>: one sign may come first; a minus is no digit of an unsigned number.\<close>

definition u64_from_str :: "byte list \<Rightarrow> (nat, parse_int_error) outcome" where
  "u64_from_str input =
     (case input of
        [] \<Rightarrow> Err PI_Empty
      | b # bs \<Rightarrow>
          if bs = [] \<and> (b = 43 \<or> b = 45) then Err PI_InvalidDigit
          else if b = 43 then parse_digits 0 bs
          else parse_digits 0 (b # bs))"

text \<open>In seconds.\<close>

definition parse_duration_seconds :: "byte list \<Rightarrow> (nat, parse_int_error) outcome" where
  "parse_duration_seconds input = obind (u64_from_str input) (\<lambda>n. Ok n)"

text \<open>The value of an argument whose default is parsed like the user's text.\<close>

definition default_seconds :: "byte list \<Rightarrow> nat option" where
  "default_seconds input = (case parse_duration_seconds input of Ok n \<Rightarrow> Some n | _ \<Rightarrow> None)"

section \<open>The sockets of clients\<close>

text \<open>
  \<open>Client\<close> of \<open>diode-send.rs\<close> and of \<open>diode-receive.rs\<close>: a socket of one of two kinds, with the operations
  of \<open>Read\<close>, \<open>Write\<close> and \<open>AsRawFd\<close> handed on to it. What the operations of a socket do is an argument.
\<close>

datatype 's client_socket = CS_Tcp (socket_of: 's) | CS_Unix (socket_of: 's)

fun client_read :: "(nat \<Rightarrow> 's \<Rightarrow> (byte list, io_error) outcome \<times> 's) \<Rightarrow> nat \<Rightarrow> 's client_socket \<Rightarrow>
    (byte list, io_error) outcome \<times> 's client_socket" where
  "client_read read n (CS_Tcp socket) = (case read n socket of (r, socket') \<Rightarrow> (r, CS_Tcp socket'))"
| "client_read read n (CS_Unix socket) = (case read n socket of (r, socket') \<Rightarrow> (r, CS_Unix socket'))"

fun client_write :: "(byte list \<Rightarrow> 's \<Rightarrow> (nat, io_error) outcome \<times> 's) \<Rightarrow> byte list \<Rightarrow> 's client_socket \<Rightarrow>
    (nat, io_error) outcome \<times> 's client_socket" where
  "client_write write buf (CS_Tcp socket) = (case write buf socket of (r, socket') \<Rightarrow> (r, CS_Tcp socket'))"
| "client_write write buf (CS_Unix socket) = (case write buf socket of (r, socket') \<Rightarrow> (r, CS_Unix socket'))"

fun client_flush :: "('s \<Rightarrow> (unit, io_error) outcome \<times> 's) \<Rightarrow> 's client_socket \<Rightarrow>
    (unit, io_error) outcome \<times> 's client_socket" where
  "client_flush flush (CS_Tcp socket) = (case flush socket of (r, socket') \<Rightarrow> (r, CS_Tcp socket'))"
| "client_flush flush (CS_Unix socket) = (case flush socket of (r, socket') \<Rightarrow> (r, CS_Unix socket'))"

fun client_as_raw_fd :: "('s \<Rightarrow> int) \<Rightarrow> 's client_socket \<Rightarrow> int" where
  "client_as_raw_fd as_raw_fd (CS_Tcp socket) = as_raw_fd socket"
| "client_as_raw_fd as_raw_fd (CS_Unix socket) = as_raw_fd socket"

text \<open>So the workers may take a client for its socket, as the models of the workers do.\<close>

lemma client_socket_operations:
  "map_prod id socket_of (client_read rd n c) = rd n (socket_of c)"
  "map_prod id socket_of (client_write wr buf c) = wr buf (socket_of c)"
  "map_prod id socket_of (client_flush fl c) = fl (socket_of c)"
  "client_as_raw_fd fd c = fd (socket_of c)"
  by (cases c; simp split: prod.split)+

section \<open>\<open>diode-send\<close>\<close>

record send_args =
  sa_log_level :: level_filter
  sa_log_file :: "byte list option"
  sa_from_tcp :: "SocketAddr option"
  sa_from_unix :: "byte list option"
  sa_max_clients :: u32
  sa_encode_threads :: u8
  sa_heartbeat :: "nat option"
  sa_flush :: bool
  sa_to :: SocketAddr
  sa_to_bind :: SocketAddr
  sa_to_mtu :: u16
  sa_batch :: "u32 option"
  sa_block :: u32
  sa_repair :: u32
  sa_cpu_affinity :: bool
  sa_hash :: bool

definition default_send_args :: "SocketAddr \<Rightarrow> send_args" where
  "default_send_args to =
     \<lparr>sa_log_level = Log_Info, sa_log_file = None, sa_from_tcp = None, sa_from_unix = None, sa_max_clients = 2, sa_encode_threads = 1,
      sa_heartbeat = default_seconds [53], sa_flush = False, sa_to = to, sa_to_bind = V4 [0, 0, 0, 0] 0,
      sa_to_mtu = 1500, sa_batch = None, sa_block = 734928, sa_repair = 2, sa_cpu_affinity = False,
      sa_hash = False\<rparr>"

definition send_config_of :: "send_args \<Rightarrow> send_config" where
  "send_config_of args =
     \<lparr>s_max_clients = sa_max_clients args, s_flush = sa_flush args,
      s_nb_encode_threads = sa_encode_threads args, s_heartbeat_interval = sa_heartbeat args,
      s_to = sa_to args, s_to_bind = sa_to_bind args, s_to_mtu = sa_to_mtu args,
      s_batch_send = sa_batch args, s_cpu_affinity = sa_cpu_affinity args, s_hash = sa_hash args\<rparr>"

datatype send_listener = L_Tcp SocketAddr | L_Unix "byte list"

text \<open>What the system does: logging, the semaphore, sockets, paths, threads, cores.\<close>

record host =
  h_log :: log_host
  h_overflow_checks :: bool
  h_semaphore :: "u32 \<Rightarrow> bool"
  h_bind :: "send_listener \<Rightarrow> (unit, io_error) outcome"
  h_exists :: "byte list \<Rightarrow> bool"
  h_spawn_listener :: "send_listener \<Rightarrow> (unit, io_error) outcome"
  h_spawn_sender :: "sender_thread \<Rightarrow> (unit, io_error) outcome"
  h_spawn_receiver :: "receiver_thread \<Rightarrow> (unit, io_error) outcome"
  h_core_ids :: "nat list option"

text \<open>Why \<open>main\<close> returns before it starts anything. Its exit status is 0 then.\<close>

datatype early_return =
    No_Logger string | Bad_Parameters protocol_error | No_Sender send_error | No_Receiver receive_error
  | No_Tcp io_error | Unix_Path_Exists | No_Unix io_error

definition bind_tcp :: "host \<Rightarrow> SocketAddr option \<Rightarrow> (send_listener option, early_return) outcome" where
  "bind_tcp h from_tcp =
     (case from_tcp of
        None \<Rightarrow> Ok None
      | Some a \<Rightarrow> obind (omap_err No_Tcp (h_bind h (L_Tcp a))) (\<lambda>_. Ok (Some (L_Tcp a))))"

definition bind_unix :: "host \<Rightarrow> byte list option \<Rightarrow> (send_listener option, early_return) outcome" where
  "bind_unix h from_unix =
     (case from_unix of
        None \<Rightarrow> Ok None
      | Some p \<Rightarrow>
          if h_exists h p then Err Unix_Path_Exists
          else obind (omap_err No_Unix (h_bind h (L_Unix p))) (\<lambda>_. Ok (Some (L_Unix p))))"

text \<open>The scope: a listener thread that cannot be created panics, an error of \<open>start\<close> is logged.\<close>

record sender_run =
  sr_listeners :: "send_listener list"
  sr_threads :: "(sender_thread \<times> nat option) list"
  sr_start :: "(unit, send_error) outcome"

fun spawn_listeners :: "host \<Rightarrow> send_listener list \<Rightarrow> send_listener list \<times> bool" where
  "spawn_listeners h [] = ([], True)"
| "spawn_listeners h (l # ls) =
     (case h_spawn_listener h l of
        Ok u \<Rightarrow> (case spawn_listeners h ls of (started, ok) \<Rightarrow> (l # started, ok))
      | _ \<Rightarrow> ([], False))"

definition diode_send_scope :: "host \<Rightarrow> level_filter \<Rightarrow> ('plan, 'config) RaptorQ \<Rightarrow> send_config \<Rightarrow> send_listener option \<Rightarrow>
    send_listener option \<Rightarrow> sender_run" where
  "diode_send_scope h log_level rq cfg tcp_listener unix_listener =
     (case spawn_listeners h (somes [tcp_listener, unix_listener]) of
        (ls, False) \<Rightarrow> \<lparr>sr_listeners = ls, sr_threads = [], sr_start = Panic Library_Panic\<rparr>
      | (ls, True) \<Rightarrow>
          (case sender_start (h_overflow_checks h) (logs log_level Log_Info) (h_spawn_sender h) (h_core_ids h) rq cfg of
             (r, threads) \<Rightarrow> \<lparr>sr_listeners = ls, sr_threads = threads, sr_start = r\<rparr>))"

definition diode_send_main :: "('plan, 'config, 'pkt) raptorq_lib \<Rightarrow> host \<Rightarrow> send_args \<Rightarrow>
    (sender_run, early_return) outcome" where
  "diode_send_main lib h args =
     obind (omap_err No_Logger (init_logger (h_log h) (sa_log_level args) (sa_log_file args) False)) (\<lambda>_.
        obind (omap_err Bad_Parameters
          (RaptorQ_new lib (h_overflow_checks h) (sa_to_mtu args) (sa_block args) (sa_repair args) 0)) (\<lambda>rq.
        obind (omap_err No_Sender (Sender_new (h_semaphore h) (send_config_of args)))
          (\<lambda>sender :: nat front_end.
        obind (bind_tcp h (sa_from_tcp args)) (\<lambda>tcp_listener.
        obind (bind_unix h (sa_from_unix args)) (\<lambda>unix_listener.
        Ok (diode_send_scope h (sa_log_level args) rq (send_config_of args) tcp_listener unix_listener))))))"

section \<open>\<open>diode-receive\<close>\<close>

record receive_args =
  ra_log_level :: level_filter
  ra_log_file :: "byte list option"
  ra_from :: SocketAddr
  ra_from_mtu :: u16
  ra_batch :: "u32 option"
  ra_reset_timeout :: nat
  ra_decode_threads :: u8
  ra_max_clients :: u32
  ra_flush :: bool
  ra_abort_timeout :: "nat option"
  ra_to_tcp :: "SocketAddr option"
  ra_to_unix :: "byte list option"
  ra_block :: u32
  ra_repair :: u32
  ra_min_repair :: u32
  ra_heartbeat :: "nat option"
  ra_cpu_affinity :: bool
  ra_hash :: bool

definition default_receive_args :: "SocketAddr \<Rightarrow> receive_args" where
  "default_receive_args from_addr =
     \<lparr>ra_log_level = Log_Info, ra_log_file = None, ra_from = from_addr, ra_from_mtu = 1500, ra_batch = None,
      ra_reset_timeout = (case default_seconds [50] of None \<Rightarrow> 0 | Some n \<Rightarrow> n), ra_decode_threads = 1,
      ra_max_clients = 2, ra_flush = False, ra_abort_timeout = None, ra_to_tcp = None, ra_to_unix = None,
      ra_block = 734928, ra_repair = 2, ra_min_repair = 1, ra_heartbeat = default_seconds [49, 48],
      ra_cpu_affinity = False, ra_hash = False\<rparr>"

definition receive_config_of :: "receive_args \<Rightarrow> receive_config" where
  "receive_config_of args =
     \<lparr>from_mtu = ra_from_mtu args, batch_receive = ra_batch args, reset_timeout = ra_reset_timeout args,
      nb_decode_threads = ra_decode_threads args, max_clients = ra_max_clients args, r_flush = ra_flush args,
      abort_timeout = ra_abort_timeout args, heartbeat_interval = ra_heartbeat args, r_hash = ra_hash args\<rparr>"

text \<open>\<open>Client::try_from\<close>: the peer to connect to. clap requires one of the two options.\<close>

definition client_try_from :: "(send_listener \<Rightarrow> (sink, io_error) outcome) \<Rightarrow> SocketAddr option \<Rightarrow>
    byte list option \<Rightarrow> (sink, io_error) outcome" where
  "client_try_from connect to_tcp to_unix =
     (case to_tcp of
        Some a \<Rightarrow> connect (L_Tcp a)
      | None \<Rightarrow> (case to_unix of Some p \<Rightarrow> connect (L_Unix p) | None \<Rightarrow> Panic Library_Panic))"

text \<open>\<open>Receiver::new\<close> fails when the semaphore cannot be created.\<close>

definition Receiver_new :: "(u32 \<Rightarrow> bool) \<Rightarrow> receive_config \<Rightarrow> (unit, receive_error) outcome" where
  "Receiver_new sem_new cfg =
     (if sem_new (max_clients cfg) then Ok () else Err (R_Other ''failed to create semaphore''))"

record receiver_run =
  rr_threads :: "(receiver_thread \<times> nat option) list"
  rr_start :: "(unit, receive_error) outcome"

definition receive_main :: "('plan, 'config, 'pkt) raptorq_lib \<Rightarrow> host \<Rightarrow> level_filter \<Rightarrow> byte list option \<Rightarrow> bool \<Rightarrow>
    u32 \<Rightarrow> u32 \<Rightarrow> u32 \<Rightarrow> bool \<Rightarrow>
    receive_config \<Rightarrow> (receiver_run, early_return) outcome" where
  "receive_main lib h log_level log_file stderr_only block repair min_repair cpu_affinity cfg =
     obind (omap_err No_Logger (init_logger (h_log h) log_level log_file stderr_only)) (\<lambda>_.
        obind (omap_err Bad_Parameters
          (RaptorQ_new lib (h_overflow_checks h) (from_mtu cfg) block repair min_repair)) (\<lambda>rq.
        obind (omap_err No_Receiver (Receiver_new (h_semaphore h) cfg)) (\<lambda>_.
        Ok (case receiver_start (h_overflow_checks h) (logs log_level Log_Info) cpu_affinity (h_spawn_receiver h)
                   (h_core_ids h) rq cfg of
              (r, threads) \<Rightarrow> \<lparr>rr_threads = threads, rr_start = r\<rparr>))))"

definition diode_receive_main :: "('plan, 'config, 'pkt) raptorq_lib \<Rightarrow> host \<Rightarrow> receive_args \<Rightarrow>
    (receiver_run, early_return) outcome" where
  "diode_receive_main lib h args =
     receive_main lib h (ra_log_level args) (ra_log_file args) False (ra_block args) (ra_repair args)
       (ra_min_repair args) (ra_cpu_affinity args)
       (receive_config_of args)"

text \<open>The peer's socket for a transfer, with the error type of the client worker (\<open>E: Into<Error>\<close>).\<close>

definition diode_receive_client_new :: "(send_listener \<Rightarrow> (sink, io_error) outcome) \<Rightarrow> receive_args \<Rightarrow>
    (sink, receive_error) outcome" where
  "diode_receive_client_new connect args =
     omap_err R_Io (client_try_from connect (ra_to_tcp args) (ra_to_unix args))"

section \<open>The one-shot programs\<close>

text \<open>\<open>diode-oneshot-send\<close>: one client, its standard input, and no heartbeat.\<close>

record oneshot_send_args =
  oa_log_level :: level_filter
  oa_encode_threads :: u8
  oa_flush :: bool
  oa_to :: SocketAddr
  oa_to_bind :: SocketAddr
  oa_to_mtu :: u16
  oa_batch :: "u32 option"
  oa_block :: u32
  oa_repair :: u32
  oa_cpu_affinity :: bool
  oa_hash :: bool

definition default_oneshot_send_args :: "SocketAddr \<Rightarrow> oneshot_send_args" where
  "default_oneshot_send_args to =
     \<lparr>oa_log_level = Log_Info, oa_encode_threads = 1, oa_flush = False, oa_to = to, oa_to_bind = V4 [0, 0, 0, 0] 0,
      oa_to_mtu = 1500, oa_batch = None, oa_block = 734928, oa_repair = 2, oa_cpu_affinity = False,
      oa_hash = False\<rparr>"

definition oneshot_send_config :: "oneshot_send_args \<Rightarrow> send_config" where
  "oneshot_send_config args =
     \<lparr>s_max_clients = 1, s_flush = oa_flush args,
      s_nb_encode_threads = oa_encode_threads args, s_heartbeat_interval = None,
      s_to = oa_to args, s_to_bind = oa_to_bind args, s_to_mtu = oa_to_mtu args,
      s_batch_send = oa_batch args, s_cpu_affinity = oa_cpu_affinity args, s_hash = oa_hash args\<rparr>"

text \<open>The threads that \<open>main\<close> starts, and the entrance of the sender that it goes on with.\<close>

definition oneshot_send_main :: "('plan, 'config, 'pkt) raptorq_lib \<Rightarrow> host \<Rightarrow> oneshot_send_args \<Rightarrow>
    (sender_run \<times> unit front_end, early_return) outcome" where
  "oneshot_send_main lib h args =
     obind (omap_err No_Logger (init_logger (h_log h) (oa_log_level args) None False)) (\<lambda>_.
        obind (omap_err Bad_Parameters
          (RaptorQ_new lib (h_overflow_checks h) (oa_to_mtu args) (oa_block args) (oa_repair args) 0)) (\<lambda>rq.
        obind (omap_err No_Sender (Sender_new (h_semaphore h) (oneshot_send_config args))) (\<lambda>sender.
        Ok (diode_send_scope h (oa_log_level args) rq (oneshot_send_config args) None None, sender))))"

text \<open>
  After \<open>start\<close>, \<open>main\<close> hands over its standard input and then asks for the stop; both wait while the
  channel is full. \<open>up\<close> says that the client thread has been started. The client worker does not
  panic.
\<close>

datatype oneshot_pc = O_New_Client | O_Stop | O_Done

inductive oneshot_trans :: "send_config \<Rightarrow> bool \<Rightarrow> oneshot_pc \<times> unit front_end \<Rightarrow> oneshot_pc \<times> unit front_end \<Rightarrow> bool"
  for cfg up where
  new_client: "new_client () s = Some t \<Longrightarrow> oneshot_trans cfg up (O_New_Client, s) (O_Stop, t)"
| stop: "stop s = Some t \<Longrightarrow> oneshot_trans cfg up (O_Stop, s) (O_Done, t)"
| server: "up \<Longrightarrow> server_step cfg 0 False s = Some t \<Longrightarrow> oneshot_trans cfg up (pc, s) (pc, t)"

inductive_cases oneshot_transE: "oneshot_trans cfg up a b"

text \<open>
  \<open>diode-oneshot-receive\<close>: every transfer goes to the standard output, and \<open>client_end\<close> exits; the
  status is \<open>None\<close> if the program goes on.
\<close>

record oneshot_receive_args =
  ora_log_level :: level_filter
  ora_from :: SocketAddr
  ora_from_mtu :: u16
  ora_batch :: "u32 option"
  ora_reset_timeout :: nat
  ora_decode_threads :: u8
  ora_flush :: bool
  ora_abort_timeout :: "nat option"
  ora_block :: u32
  ora_repair :: u32
  ora_min_repair :: u32
  ora_cpu_affinity :: bool
  ora_hash :: bool

definition default_oneshot_receive_args :: "SocketAddr \<Rightarrow> oneshot_receive_args" where
  "default_oneshot_receive_args from_addr =
     \<lparr>ora_log_level = Log_Info, ora_from = from_addr, ora_from_mtu = 1500, ora_batch = None,
      ora_reset_timeout = (case default_seconds [50] of None \<Rightarrow> 0 | Some n \<Rightarrow> n), ora_decode_threads = 1,
      ora_flush = False, ora_abort_timeout = None, ora_block = 734928, ora_repair = 2, ora_min_repair = 1,
      ora_cpu_affinity = False, ora_hash = False\<rparr>"

definition oneshot_receive_config :: "oneshot_receive_args \<Rightarrow> receive_config" where
  "oneshot_receive_config args =
     \<lparr>from_mtu = ora_from_mtu args, batch_receive = ora_batch args, reset_timeout = ora_reset_timeout args,
      nb_decode_threads = ora_decode_threads args, max_clients = 1, r_flush = ora_flush args,
      abort_timeout = ora_abort_timeout args, heartbeat_interval = None, r_hash = ora_hash args\<rparr>"

definition oneshot_receive_main :: "('plan, 'config, 'pkt) raptorq_lib \<Rightarrow> host \<Rightarrow> oneshot_receive_args \<Rightarrow>
    (receiver_run, early_return) outcome" where
  "oneshot_receive_main lib h args =
     receive_main lib h (ora_log_level args) None True (ora_block args) (ora_repair args)
       (ora_min_repair args) (ora_cpu_affinity args)
       (oneshot_receive_config args)"

definition oneshot_exit :: "client_result \<Rightarrow> nat option" where
  "oneshot_exit r = (case cr_end r of None \<Rightarrow> None | Some ok \<Rightarrow> Some (if ok then 0 else 1))"

section \<open>Durations are read as they are written\<close>

fun decimal :: "nat \<Rightarrow> byte list" where
  "decimal n = (if n < 10 then [of_nat (48 + n)] else decimal (n div 10) @ [of_nat (48 + n mod 10)])"

declare decimal.simps [simp del]

lemma to_digit_of_nat: "d < 10 \<Longrightarrow> to_digit (of_nat (48 + d)) = Some d"
  by (simp add: to_digit_def unat_of_nat_small del: of_nat_add)

lemma parse_digits_append:
  "parse_digits acc (xs @ ys) = obind (parse_digits acc xs) (\<lambda>a. parse_digits a ys)"
  by (induction acc xs rule: parse_digits.induct) (auto split: option.splits)

lemma parse_digits_decimal: "n < 2 ^ 64 \<Longrightarrow> parse_digits 0 (decimal n) = Ok n"
proof (induction n rule: decimal.induct)
  case (1 n)
  show ?case
  proof (cases "n < 10")
    case True
    then show ?thesis using 1 to_digit_of_nat [of n] by (simp add: decimal.simps [of n])
  next
    case False
    then have "parse_digits 0 (decimal (n div 10)) = Ok (n div 10)" using 1 by simp
    then show ?thesis using False 1(2) to_digit_of_nat [of "n mod 10"]
      by (simp add: decimal.simps [of n] parse_digits_append)
  qed
qed

lemma decimal_digits: "b \<in> set (decimal n) \<Longrightarrow> to_digit b \<noteq> None"
proof (induction n rule: decimal.induct)
  case (1 n)
  have "to_digit (of_nat (48 + n mod 10)) = Some (n mod 10)" by (rule to_digit_of_nat) simp
  then show ?case using 1 to_digit_of_nat [of n]
    by (cases "n < 10") (auto simp: decimal.simps [of n])
qed

lemma parse_duration_decimal:
  assumes "n < 2 ^ 64"
  shows "parse_duration_seconds (decimal n) = Ok n"
proof -
  obtain b bs where d: "decimal n = b # bs" by (cases "decimal n") (auto simp: decimal.simps [of n] split: if_splits)
  then have "to_digit b \<noteq> None" using decimal_digits [of b n] by simp
  then have "b \<noteq> 43 \<and> b \<noteq> 45" by (auto simp: to_digit_def)
  then show ?thesis using parse_digits_decimal [OF assms] d
    by (simp add: parse_duration_seconds_def u64_from_str_def)
qed

text \<open>
  \<open>--heartbeat 0\<close> is the interval 0, and not the absence of an interval: the heartbeat thread is
  started.
\<close>

lemma heartbeat_zero_is_enabled:
  assumes "parse_duration_seconds [48] = Ok n" and "sa_heartbeat args = Some n"
  shows "n = 0 \<and> [S_Heartbeat] \<in> set (sender_groups (send_config_of args))"
  using assms by (simp add: parse_duration_seconds_def u64_from_str_def to_digit_def sender_groups_def send_config_of_def)

section \<open>The defaults of the two sides\<close>

text \<open>
  With the default arguments both sides compute the same packets and blocks, the receiver waits for
  fewer packets of a block than the sender sends, and the sender's heartbeat is faster than what the
  receiver expects.
\<close>

lemma default_arguments_agree:
  "\<exists>rq rq'. RaptorQ_new lib ovf (sa_to_mtu (default_send_args to)) (sa_block (default_send_args to))
        (sa_repair (default_send_args to)) 0 = Ok rq \<and>
     RaptorQ_new lib ovf (ra_from_mtu (default_receive_args from_addr)) (ra_block (default_receive_args from_addr))
        (ra_repair (default_receive_args from_addr)) (ra_min_repair (default_receive_args from_addr)) = Ok rq' \<and>
     max_packet_size rq' = max_packet_size rq \<and> symbol_count rq' = symbol_count rq \<and>
     transfer_length rq' = transfer_length rq \<and> plan rq' = plan rq \<and> config rq' = config rq \<and>
     nb_packets rq' = nb_packets rq \<and>
     (\<exists>n :: u16. min_nb_packets ovf rq' = (Ok n :: (u16, unit) outcome) \<and> unat n < unat (nb_packets rq))"
proof -
  have p: "packet_size 1500 = 1464" by (simp add: packet_size_def)
  have u: "unat (1500 :: u16) = 1500" "unat (734928 :: u32) = 734928" "unat (2 :: u32) = 2" "unat (1 :: u32) = 1" by simp_all
  from RaptorQ_new_ok [of "1500 :: u16" 2 0 734928 lib ovf] p u obtain rq where rq:
    "RaptorQ_new lib ovf 1500 734928 2 0 = Ok rq" "unat (max_packet_size rq) = 1464" "unat (symbol_count rq) = 502"
    "unat (transfer_length rq) = 734928" "unat (nb_repair_packets rq) = 10" "plan rq = lib_generate lib (symbol_count rq)"
    "config rq = lib_with_defaults lib (ucast (transfer_length rq)) (max_packet_size rq)" by auto
  from RaptorQ_new_ok [of "1500 :: u16" 2 1 734928 lib ovf] p u obtain rq' where rq':
    "RaptorQ_new lib ovf 1500 734928 2 1 = Ok rq'" "unat (max_packet_size rq') = 1464" "unat (symbol_count rq') = 502"
    "unat (transfer_length rq') = 734928" "unat (nb_repair_packets rq') = 10" "unat (min_nb_repair_packets rq') = 5"
    "plan rq' = lib_generate lib (symbol_count rq')"
    "config rq' = lib_with_defaults lib (ucast (transfer_length rq')) (max_packet_size rq')" by auto
  have eq: "max_packet_size rq' = max_packet_size rq" "symbol_count rq' = symbol_count rq"
    "transfer_length rq' = transfer_length rq" "nb_repair_packets rq' = nb_repair_packets rq"
    using rq(2-5) rq'(2-5) by (simp_all add: word_unat_eq_iff)
  have w: "symbol_count rq = 502" "nb_repair_packets rq = 10" "min_nb_repair_packets rq' = 5"
    using rq(3,5) rq'(6) by (simp_all add: word_unat_eq_iff)
  show ?thesis
    using rq(1,6,7) rq'(1,7,8) eq w
    by (auto simp: default_send_args_def default_receive_args_def nb_packets_def min_nb_packets_def add_ck_def)
qed

text \<open>The one-shot programs have the same defaults, but no heartbeat and one client.\<close>

lemma oneshot_defaults:
  "oneshot_send_config (default_oneshot_send_args to) =
     (send_config_of (default_send_args to))\<lparr>s_max_clients := 1, s_heartbeat_interval := None\<rparr>"
  "oneshot_receive_config (default_oneshot_receive_args from_addr) =
     (receive_config_of (default_receive_args from_addr))\<lparr>max_clients := 1, heartbeat_interval := None\<rparr>"
  by (simp_all add: oneshot_send_config_def default_oneshot_send_args_def send_config_of_def default_send_args_def
      oneshot_receive_config_def default_oneshot_receive_args_def receive_config_of_def default_receive_args_def)

section \<open>What \<open>diode-send\<close> has done when it starts its threads\<close>

text \<open>
  The scope is entered only with valid parameters and with every configured socket bound; a listener
  thread runs only for a configured socket.
\<close>

lemma spawn_listeners_prefix: "set (fst (spawn_listeners h ls)) \<subseteq> set ls"
  by (induction ls) (auto split: outcome.splits prod.splits)

lemma spawn_listeners_all: "h_spawn_listener h = (\<lambda>_. Ok ()) \<Longrightarrow> spawn_listeners h ls = (ls, True)"
  by (induction ls) auto

lemma bind_tcp_Ok: "bind_tcp h a = Ok l \<Longrightarrow> l = map_option L_Tcp a \<and> (\<forall>x. l = Some x \<longrightarrow> h_bind h x = Ok ())"
  by (auto simp: bind_tcp_def outcome_simps split: option.splits)

lemma bind_unix_Ok:
  "bind_unix h p = Ok l \<Longrightarrow> l = map_option L_Unix p \<and> (\<forall>x. l = Some x \<longrightarrow> h_bind h x = Ok ()) \<and>
   (\<forall>q. p = Some q \<longrightarrow> \<not> h_exists h q)"
  by (auto simp: bind_unix_def outcome_simps split: option.splits if_splits)

lemma diode_send_main_Ok:
  assumes "diode_send_main lib h args = Ok run"
  shows "\<exists>rq. RaptorQ_new lib (h_overflow_checks h) (sa_to_mtu args) (sa_block args) (sa_repair args) 0 = Ok rq \<and>
    run = diode_send_scope h (sa_log_level args) rq (send_config_of args) (map_option L_Tcp (sa_from_tcp args))
      (map_option L_Unix (sa_from_unix args)) \<and>
    (\<forall>a. sa_from_tcp args = Some a \<longrightarrow> h_bind h (L_Tcp a) = Ok ()) \<and>
    (\<forall>p. sa_from_unix args = Some p \<longrightarrow> h_bind h (L_Unix p) = Ok () \<and> \<not> h_exists h p)"
  using assms bind_tcp_Ok [of h] bind_unix_Ok [of h]
  by (fastforce simp: diode_send_main_def outcome_simps split: if_splits)

lemma diode_send_scope_all:
  assumes "h_spawn_listener h = (\<lambda>_. Ok ())" and "h_spawn_sender h = (\<lambda>_. Ok ())"
  shows "sr_listeners (diode_send_scope h l rq cfg tcp unx) = somes [tcp, unx]"
    and "map fst (sr_threads (diode_send_scope h l rq cfg tcp unx)) = concat (sender_groups cfg)"
  using spawn_groups_all [of _ "sender_groups cfg"] assms(2)
  by (simp_all add: diode_send_scope_def spawn_listeners_all [OF assms(1)] sender_start_def split_beta)

text \<open>
  When a socket cannot be bound, nothing has been started, and the error of the TCP socket comes first.
\<close>

lemma diode_send_main_unix_exists:
  assumes "init_logger (h_log h) (sa_log_level args) (sa_log_file args) False = Ok ()" and "RaptorQ_new lib (h_overflow_checks h) (sa_to_mtu args) (sa_block args) (sa_repair args) 0 = Ok rq"
    and "h_semaphore h (sa_max_clients args)" and "sa_from_unix args = Some p" and "h_exists h p"
    and "sa_from_tcp args = None \<or> (\<exists>a. sa_from_tcp args = Some a \<and> h_bind h (L_Tcp a) = Ok ())"
  shows "diode_send_main lib h args = Err Unix_Path_Exists"
  using assms by (auto simp: diode_send_main_def Sender_new_def send_config_of_def bind_tcp_def bind_unix_def)

section \<open>The end of the one-shot programs\<close>

text \<open>What can still happen in the entrance of \<open>diode-oneshot-send\<close>.\<close>

fun oneshot_inv :: "oneshot_pc \<times> unit front_end \<Rightarrow> bool" where
  "oneshot_inv (O_New_Client, s) \<longleftrightarrow> for_server s = [] \<and> fe_servers s = [Sv_Idle] \<and> fe_permits s = 1 \<and> fe_taken s = []"
| "oneshot_inv (O_Stop, s) \<longleftrightarrow>
     (for_server s = [Some ()] \<and> fe_servers s = [Sv_Idle] \<and> fe_permits s = 1 \<and> fe_taken s = []) \<or>
     (for_server s = [] \<and> fe_taken s = [()] \<and>
        (fe_servers s, fe_permits s) \<in> {([Sv_Acquiring ()], 1), ([Sv_Serving ()], 0), ([Sv_Idle], 1)})"
| "oneshot_inv (O_Done, s) \<longleftrightarrow> fe_taken s = [()] \<and>
     ((for_server s = [None] \<and>
        (fe_servers s, fe_permits s) \<in> {([Sv_Acquiring ()], 1), ([Sv_Serving ()], 0), ([Sv_Idle], 1)}) \<or>
      (for_server s = [] \<and> fe_servers s = [Sv_Returned]))"

fun oneshot_rest :: "oneshot_pc \<times> unit front_end \<Rightarrow> nat" where
  "oneshot_rest (pc, s) =
     (case pc of O_New_Client \<Rightarrow> 8 | O_Stop \<Rightarrow> 3 | O_Done \<Rightarrow> 0) +
     sum_list (map (\<lambda>m. if m = None then 2 else 4) (for_server s)) +
     sum_list (map (\<lambda>v. case v of Sv_Acquiring c \<Rightarrow> 2 | Sv_Serving c \<Rightarrow> 1 | _ \<Rightarrow> 0) (fe_servers s))"

lemma oneshot_step:
  assumes "oneshot_trans cfg up a b" and "oneshot_inv a"
  shows "oneshot_inv b \<and> oneshot_rest b < oneshot_rest a"
  using assms
proof cases
  case (server s t pc)
  then show ?thesis using assms(2)
    by (cases pc) (auto simp: server_step_def)
qed (use assms(2) in \<open>auto simp: new_client_def stop_def\<close>)

lemma oneshot_progress:
  assumes "oneshot_inv (pc, s)" and "\<not> (pc = O_Done \<and> fe_servers s = [Sv_Returned])"
  shows "\<exists>b. oneshot_trans cfg True (pc, s) b"
proof (cases pc)
  case O_New_Client
  then have "\<exists>t. new_client () s = Some t" using assms(1) by (simp add: new_client_def)
  then show ?thesis using O_New_Client oneshot_trans.new_client by blast
next
  case O_Stop
  then have "(\<exists>t. stop s = Some t) \<or> (\<exists>t. server_step cfg 0 False s = Some t)"
    using assms(1) by (auto simp: stop_def server_step_def)
  then show ?thesis unfolding O_Stop using oneshot_trans.stop [of s _ cfg True] oneshot_trans.server [OF TrueI, of cfg s _ O_Stop] by fast
next
  case O_Done
  then have "\<exists>t. server_step cfg 0 False s = Some t" using assms by (auto simp: server_step_def)
  then show ?thesis unfolding O_Done using oneshot_trans.server [OF TrueI, of cfg s _ O_Done] by fast
qed

lemma oneshot_reachable:
  assumes "Sender_new sem_new (oneshot_send_config args) = Ok s0"
    and "(oneshot_trans cfg up)\<^sup>*\<^sup>* (O_New_Client, s0) a"
  shows "oneshot_inv a"
  using assms(2)
proof (induction rule: rtranclp_induct)
  case base
  then show ?case using assms(1) by (auto simp: Sender_new_def oneshot_send_config_def split: if_splits)
next
  case (step a b)
  then show ?case using oneshot_step by blast
qed

text \<open>
  The standard input is served once and then the client thread returns: the steps end, and they end
  nowhere else.
\<close>

lemma oneshot_entrance_ends:
  assumes "Sender_new sem_new (oneshot_send_config args) = Ok s0"
    and "(oneshot_trans cfg True)\<^sup>*\<^sup>* (O_New_Client, s0) (pc, s)" and "\<nexists>b. oneshot_trans cfg True (pc, s) b"
  shows "pc = O_Done \<and> fe_servers s = [Sv_Returned] \<and> fe_taken s = [()] \<and> for_server s = []"
proof -
  have inv: "oneshot_inv (pc, s)" by (rule oneshot_reachable [OF assms(1,2)])
  from oneshot_progress [OF inv] assms(3) have "pc = O_Done \<and> fe_servers s = [Sv_Returned]" by blast
  then show ?thesis using inv by auto
qed

lemma oneshot_entrance_terminates:
  "\<not> (\<exists>f. oneshot_inv (f 0) \<and> (\<forall>i. oneshot_trans cfg up (f i) (f (Suc i))))"
proof
  assume "\<exists>f. oneshot_inv (f 0) \<and> (\<forall>i. oneshot_trans cfg up (f i) (f (Suc i)))"
  then obtain f where f: "oneshot_inv (f 0)" "\<And>i. oneshot_trans cfg up (f i) (f (Suc i))" by blast
  have inv: "oneshot_inv (f i)" for i by (induction i) (use f oneshot_step in blast)+
  have "oneshot_rest (f i) + i \<le> oneshot_rest (f 0)" for i
  proof (induction i)
    case (Suc i)
    have "oneshot_rest (f (Suc i)) < oneshot_rest (f i)" using oneshot_step [OF f(2) inv] by blast
    then show ?case using Suc by simp
  qed simp
  from this [of "Suc (oneshot_rest (f 0))"] show False by simp
qed

text \<open>The steps are steps of the sender's entrance, so that its invariant holds.\<close>

lemma oneshot_front:
  assumes "Sender_new sem_new (oneshot_send_config args) = Ok s0"
    and "(oneshot_trans (oneshot_send_config args) up)\<^sup>*\<^sup>* (O_New_Client, s0) (pc, s)"
  shows "front_inv (oneshot_send_config args) s"
  using assms(2)
proof (induction rule: rtranclp_induct2)
  case refl
  then show ?case by (rule front_inv_init [OF assms(1)])
next
  case (step pc s pc' s')
  from step(2) have "front_trans (oneshot_send_config args) s s'"
    by cases (auto intro: front_trans.intros)
  then show ?case using step(3) by (rule front_trans_inv)
qed

text \<open>
  When the client thread could not be created, \<open>main\<close> logs the error, hands over its standard input and
  waits in \<open>stop\<close> for ever.
\<close>

lemma oneshot_without_client_thread:
  assumes "Sender_new sem_new (oneshot_send_config args) = Ok s0"
    and "(oneshot_trans cfg False)\<^sup>*\<^sup>* (O_New_Client, s0) (pc, s)"
  shows "pc \<noteq> O_Done"
proof -
  have "pc \<noteq> O_Done \<and> (pc = O_Stop \<longrightarrow> for_server s = [Some ()])" using assms(2)
  proof (induction rule: rtranclp_induct2)
    case refl
    then show ?case by simp
  next
    case (step pc s pc' s')
    from step(2) show ?case
      by cases (use step(3) oneshot_reachable [OF assms(1) step(1)] in \<open>auto simp: new_client_def stop_def\<close>)
  qed
  then show ?thesis by simp
qed

text \<open>
  \<open>diode-oneshot-receive\<close> exits with 0 after an \<open>End\<close> and with 1 after an \<open>Abort\<close>, having written the
  whole stream. A transfer that ends in another way does not end the program.
\<close>

lemma oneshot_receive_exits:
  assumes "stream_of bs ds" and "carries b t d" and "t = End \<or> t = Abort" and "unlimited client"
    and "SERIALIZE_OVERHEAD \<le> unat (transfer_length rq)"
  shows "\<exists>r. receive_start ovf (oneshot_receive_config args) rq (Ok client) (map Got bs @ Got b # rest) = Some r \<and>
    sink_out (cr_sink r) = sink_out client @ concat ds @ d \<and> oneshot_exit r = Some (if t = End then 0 else 1)"
proof -
  let ?cfg = "oneshot_receive_config args"
  from receive_start_stream [OF assms(1,4,5)] obtain st where
    "receive_start ovf ?cfg rq (Ok client) (map Got bs @ Got b # rest) = receive_loop ?cfg (Got b # rest) st"
    "has_written ?cfg (concat ds) client st" by blast
  with handle_block_ends [OF _ assms(2,3), of ?cfg "concat ds" client st] show ?thesis
    by (auto simp: ends_with_def oneshot_exit_def)
qed

lemma oneshot_receive_goes_on:
  assumes "stream_of bs ds" and "unlimited client" and "SERIALIZE_OVERHEAD \<le> unat (transfer_length rq)"
  shows "\<exists>r. receive_start ovf (oneshot_receive_config args) rq (Ok client) (map Got bs @ Got_Disconnected # rest) = Some r \<and>
    sink_out (cr_sink r) = sink_out client @ concat ds \<and> oneshot_exit r = None"
proof -
  let ?cfg = "oneshot_receive_config args"
  from receive_start_stream [OF assms] obtain st where st:
    "receive_start ovf ?cfg rq (Ok client) (map Got bs @ Got_Disconnected # rest) = receive_loop ?cfg (Got_Disconnected # rest) st"
    "has_written ?cfg (concat ds) client st" by blast
  have "sink_out (bw_drop (rs_client st)) = sink_out client @ concat ds"
    using st(2) bw_drop_good by (simp add: has_written_def)
  then show ?thesis using st(1) by (auto simp: fail_with_def oneshot_exit_def split: option.splits)
qed

section \<open>Properties\<close>

lemma oneshot_stuck_without_thread:
  assumes "oneshot_inv (pc, s)" and "pc \<noteq> O_Done" and "\<nexists>b. oneshot_trans cfg False (pc, s) b"
  shows "pc = O_Stop \<and> for_server s \<noteq> []"
proof (cases pc)
  case O_New_Client
  then have "\<exists>t. new_client () s = Some t" using assms(1) by (simp add: new_client_def)
  then show ?thesis using assms(3) O_New_Client oneshot_trans.new_client by blast
next
  case O_Stop
  have "stop s = None"
  proof (rule ccontr)
    assume "stop s \<noteq> None"
    then obtain t where "stop s = Some t" by blast
    from oneshot_trans.stop [OF this, of cfg False] assms(3) O_Stop show False by blast
  qed
  then show ?thesis using O_Stop by (auto simp: stop_def split: if_splits)
qed (use assms(2) in simp)


definition willing_host :: host where
  "willing_host = \<lparr>h_log = quiet_log, h_overflow_checks = True, h_semaphore = \<lambda>_. True,
     h_bind = \<lambda>_. Ok (), h_exists = \<lambda>_. False, h_spawn_listener = \<lambda>_. Ok (), h_spawn_sender = \<lambda>_. Ok (),
     h_spawn_receiver = \<lambda>_. Ok (), h_core_ids = None\<rparr>"


end
