(* ===== verification/Config_Test.thy ===== *)
theory Config_Test
  imports Protocol Logger "HOL-Library.Multiset"
begin

text \<open>
  \<open>src/bin/diode-config.rs\<close>, the tool that tries the RaptorQ parameters: it encodes a random block,
  shuffles the packets, removes a percentage of them and decodes the rest. The random data and the
  random positions of the shuffle are arguments.
\<close>

section \<open>The test\<close>

text \<open>\<open>swap\<close> panics out of range.\<close>

definition swap_at :: "'b list \<Rightarrow> nat \<Rightarrow> nat \<Rightarrow> ('b list, 'e) outcome" where
  "swap_at xs i j =
     (if i < length xs \<and> j < length xs then Ok (xs[i := xs ! j, j := xs ! i]) else Panic Index_Out_Of_Bounds)"

text \<open>The loop over \<open>0..(nb_packets / 2)\<close>, with one random position for each.\<close>

fun shuffle_packets :: "nat \<Rightarrow> nat list \<Rightarrow> 'b list \<Rightarrow> ('b list, 'e) outcome" where
  "shuffle_packets i [] packets = Ok packets"
| "shuffle_packets i (r # rs) packets = obind (swap_at packets i r) (shuffle_packets (i + 1) rs)"

definition split_off :: "nat \<Rightarrow> 'b list \<Rightarrow> ('b list, 'e) outcome" where
  "split_off n xs = (if n \<le> length xs then Ok (drop n xs) else Panic Slice_Out_Of_Range)"

datatype config_test = Decode_Failed | Decode_Ok | Invalid_Decoded_Data

text \<open>At level \<open>Debug\<close> the length of the first packet is logged.\<close>

definition config_test_run :: "level_filter \<Rightarrow> ('plan, 'config, 'pkt) raptorq_lib \<Rightarrow> ('plan, 'config) RaptorQ \<Rightarrow> u32 \<Rightarrow>
    byte list \<Rightarrow> nat list \<Rightarrow> (config_test, protocol_error) outcome" where
  "config_test_run log_level lib rq remove data randoms =
     (let packets = RaptorQ_encode lib rq 0 data;
          n = length packets in
      if logs log_level Log_Debug \<and> packets = [] then Panic Index_Out_Of_Bounds else
      obind (shuffle_packets 0 randoms packets) (\<lambda>packets.
      let nb = n * unat remove div 100 in
      obind (split_off nb packets) (\<lambda>packets.
      Ok (case RaptorQ_decode lib rq 0 packets of
            None \<Rightarrow> Decode_Failed
          | Some decoded \<Rightarrow> if decoded = data then Decode_Ok else Invalid_Decoded_Data))))"

text \<open>\<open>main\<close>: the exit status, 0 where the program returns.\<close>

record config_args =
  ca_log_level :: level_filter
  ca_mtu :: u16
  ca_block :: u32
  ca_repair :: u32
  ca_min_repair :: u32
  ca_remove :: u32

definition default_config_args :: config_args where
  "default_config_args =
     \<lparr>ca_log_level = Log_Info, ca_mtu = 1500, ca_block = 734928, ca_repair = 2, ca_min_repair = 1, ca_remove = 1\<rparr>"

definition config_main :: "('plan, 'config, 'pkt) raptorq_lib \<Rightarrow> bool \<Rightarrow> log_host \<Rightarrow> config_args \<Rightarrow>
    (nat \<Rightarrow> byte list) \<Rightarrow> nat list \<Rightarrow> (nat, protocol_error) outcome" where
  "config_main lib ovf log args random_data randoms =
     (if \<not> is_ok (init_logger log (ca_log_level args) None False) then Ok 1
      else
        (case RaptorQ_new lib ovf (ca_mtu args) (ca_block args) (ca_repair args) (ca_min_repair args) of
           Err e \<Rightarrow> Ok 2
         | Panic p \<Rightarrow> Panic p
         | Ok rq \<Rightarrow>
             obind (config_test_run (ca_log_level args) lib rq (ca_remove args)
               (random_data (unat (block_size rq))) randoms) (\<lambda>r.
             Ok (if r = Invalid_Decoded_Data then 3 else 0))))"

section \<open>What it keeps\<close>

lemma mset_swap_at: "swap_at xs i j = Ok ys \<Longrightarrow> mset ys = mset xs"
  by (auto simp: swap_at_def mset_swap split: if_splits)

lemma swap_at_Ok: "i < length xs \<Longrightarrow> j < length xs \<Longrightarrow> \<exists>ys. swap_at xs i j = Ok ys \<and> length ys = length xs"
  by (simp add: swap_at_def)

lemma shuffle_packets_ok:
  "i + length rs \<le> length xs \<Longrightarrow> list_all (\<lambda>r. r < length xs) rs \<Longrightarrow>
   \<exists>ys. shuffle_packets i rs xs = Ok ys \<and> mset ys = mset xs"
proof (induction rs arbitrary: i xs)
  case Nil
  then show ?case by simp
next
  case (Cons r rs)
  then obtain ys where ys: "(swap_at xs i r :: ('a list, 'b) outcome) = Ok ys" "length ys = length xs"
    using swap_at_Ok [of i xs r] by auto
  from Cons.IH [of "i + 1" ys] Cons.prems ys(2) have
    "\<exists>zs. (shuffle_packets (i + 1) rs ys :: ('a list, 'b) outcome) = Ok zs \<and> mset zs = mset ys" by simp
  then show ?case using ys(1) mset_swap_at [OF ys(1)] by auto
qed

text \<open>
  The random positions are those of the code: one in \<open>nb_packets / 2..nb_packets\<close> for each of the first
  \<open>nb_packets / 2\<close> packets.
\<close>

definition fair_randoms :: "nat \<Rightarrow> nat list \<Rightarrow> bool" where
  "fair_randoms n rs \<longleftrightarrow> length rs = n div 2 \<and> list_all (\<lambda>r. n div 2 \<le> r \<and> r < n) rs"

text \<open>
  With a codec that decodes a block from any \<open>m\<close> different packets of it, the test succeeds whatever the
  random choices, as long as the removal leaves \<open>m\<close> packets.
\<close>

lemma config_test_succeeds:
  assumes "distinct (RaptorQ_encode lib rq 0 data)"
    and dec: "\<And>qs. distinct qs \<Longrightarrow> set qs \<subseteq> set (RaptorQ_encode lib rq 0 data) \<Longrightarrow> m \<le> length qs \<Longrightarrow>
      RaptorQ_decode lib rq 0 qs = Some data"
    and "fair_randoms (length (RaptorQ_encode lib rq 0 data)) randoms"
    and "RaptorQ_encode lib rq 0 data \<noteq> []"
    and "length (RaptorQ_encode lib rq 0 data) * unat remove div 100 + m \<le> length (RaptorQ_encode lib rq 0 data)"
  shows "config_test_run log_level lib rq remove data randoms = Ok Decode_Ok"
proof -
  let ?ps = "RaptorQ_encode lib rq 0 data"
  let ?nb = "length ?ps * unat remove div 100"
  have "0 + length randoms \<le> length ?ps" "list_all (\<lambda>r. r < length ?ps) randoms"
    using assms(3) by (auto simp: fair_randoms_def list_all_iff)
  from shuffle_packets_ok [OF this] obtain ys where
    ys: "(shuffle_packets 0 randoms ?ps :: (_, protocol_error) outcome) = Ok ys" "mset ys = mset ?ps" by blast
  have l: "length ys = length ?ps" "set ys = set ?ps" "distinct ys"
    using ys(2) assms(1) by (metis size_mset, metis set_mset_mset, metis mset_eq_imp_distinct_iff)
  have "distinct (drop ?nb ys)" using l(3) by simp
  moreover have "set (drop ?nb ys) \<subseteq> set ?ps" using l(2) set_drop_subset by fastforce
  moreover have "m \<le> length (drop ?nb ys)" using assms(5) l(1) by simp
  ultimately have "RaptorQ_decode lib rq 0 (drop ?nb ys) = Some data" by (rule dec)
  moreover have "?nb \<le> length ys" using assms(5) l(1) by simp
  ultimately show ?thesis using ys(1) assms(4) by (simp add: config_test_run_def split_off_def Let_def)
qed

text \<open>Removing more than all the packets panics.\<close>

lemma config_test_remove_all:
  assumes "fair_randoms (length (RaptorQ_encode lib rq 0 data)) randoms"
    and "length (RaptorQ_encode lib rq 0 data) < length (RaptorQ_encode lib rq 0 data) * unat remove div 100"
  shows "config_test_run log_level lib rq remove data randoms = Panic Slice_Out_Of_Range"
proof -
  let ?ps = "RaptorQ_encode lib rq 0 data"
  have "0 + length randoms \<le> length ?ps" "list_all (\<lambda>r. r < length ?ps) randoms"
    using assms(1) by (auto simp: fair_randoms_def list_all_iff)
  from shuffle_packets_ok [OF this] obtain ys where
    ys: "(shuffle_packets 0 randoms ?ps :: (_, protocol_error) outcome) = Ok ys" "mset ys = mset ?ps" by blast
  then show ?thesis using assms(2)
    by (cases ?ps) (auto simp: config_test_run_def split_off_def Let_def mset_eq_length [OF ys(2)])
qed

end
