(* ===== verification/Messages.thy ===== *)
theory Messages
  imports Send_Client Receive_Config File_Bindings Aux_Udp
begin

text \<open>
  The texts of messages and errors (the \<open>Display\<close> implementations) and the conversions between errors
  (the \<open>From\<close> implementations that the operator \<open>?\<close> applies), for all modules of the crate. How the
  standard library and crossbeam display their own values is a parameter. Numbers are displayed in
  decimal, and in hexadecimal with lower-case digits where the code writes \<open>:x\<close>.
\<close>

section \<open>Numbers\<close>

definition digit_char :: "nat \<Rightarrow> char" where
  "digit_char d = char_of (if d < 10 then 48 + d else 87 + d)"

fun show_radix :: "nat \<Rightarrow> nat \<Rightarrow> string" where
  "show_radix r n = (if r < 2 \<or> n < r then [digit_char n] else show_radix r (n div r) @ [digit_char (n mod r)])"

declare show_radix.simps [simp del]

abbreviation show_dec :: "nat \<Rightarrow> string" where
  "show_dec \<equiv> show_radix 10"

abbreviation show_hex :: "nat \<Rightarrow> string" where
  "show_hex \<equiv> show_radix 16"

text \<open>Reading a number back.\<close>

definition char_digit :: "char \<Rightarrow> nat" where
  "char_digit c = (if of_char c < (58 :: nat) then of_char c - 48 else of_char c - 87)"

definition read_radix :: "nat \<Rightarrow> string \<Rightarrow> nat" where
  "read_radix r cs = foldl (\<lambda>n c. n * r + char_digit c) 0 cs"

lemma char_digit_char: "d < 16 \<Longrightarrow> char_digit (digit_char d) = d"
  by (auto simp: char_digit_def digit_char_def of_char_of)

lemma read_show_radix: "2 \<le> r \<Longrightarrow> r \<le> 16 \<Longrightarrow> read_radix r (show_radix r n) = n"
proof (induction r n rule: show_radix.induct)
  case (1 r n)
  show ?case
  proof (cases "n < r")
    case True
    then show ?thesis using 1 by (simp add: show_radix.simps [of r n] read_radix_def char_digit_char)
  next
    case False
    have "n mod r < 16" using 1(2,3) mod_less_divisor [of r n] by linarith
    moreover have "read_radix r (show_radix r (n div r)) = n div r" using 1 False by simp
    ultimately show ?thesis using 1(2) False
      by (simp add: show_radix.simps [of r n] read_radix_def char_digit_char)
  qed
qed

lemma show_radix_inj: "2 \<le> r \<Longrightarrow> r \<le> 16 \<Longrightarrow> show_radix r m = show_radix r n \<longleftrightarrow> m = n"
  using read_show_radix by metis

lemma digit_char_not_space: "d < 16 \<Longrightarrow> digit_char d \<noteq> CHR '' ''"
proof
  assume "d < 16" "digit_char d = CHR '' ''"
  then have "of_char (digit_char d) = (32 :: nat)" by simp
  with \<open>d < 16\<close> show False by (auto simp: digit_char_def of_char_of split: if_splits)
qed

lemma show_radix_no_space: "2 \<le> r \<Longrightarrow> r \<le> 16 \<Longrightarrow> CHR '' '' \<notin> set (show_radix r n)"
proof (induction r n rule: show_radix.induct)
  case (1 r n)
  have "n mod r < 16" using 1(2,3) mod_less_divisor [of r n] by linarith
  then show ?case using 1 digit_char_not_space [of n] digit_char_not_space [of "n mod r"]
    by (cases "n < r") (auto simp: show_radix.simps [of r n])
qed

section \<open>What the library displays\<close>

record display_env =
  de_io :: "io_error \<Rightarrow> string"
  de_recv :: string
  de_recv_timeout :: "recv_timeout_error \<Rightarrow> string"
  de_utf8 :: string
  de_addr :: "SocketAddr \<Rightarrow> string"
  de_path :: "byte list \<Rightarrow> string"

section \<open>\<open>protocol.rs\<close>\<close>

text \<open>\<open>{:?}\<close> of an \<open>Option<u8>\<close>.\<close>

fun debug_option :: "u8 option \<Rightarrow> string" where
  "debug_option None = ''None''"
| "debug_option (Some b) = ''Some('' @ show_dec (unat b) @ '')''"

fun protocol_error_display :: "display_env \<Rightarrow> protocol_error \<Rightarrow> string" where
  "protocol_error_display D (PE_Io e) = ''I/O error: '' @ de_io D e"
| "protocol_error_display D (PE_InvalidBlockType b) = ''invalid block type: '' @ debug_option b"
| "protocol_error_display D (PE_Other e) = e"

datatype protocol_cause = PC_Io io_error | PC_Try_From_Int string

fun protocol_error_from :: "protocol_cause \<Rightarrow> protocol_error" where
  "protocol_error_from (PC_Io e) = PE_Io e"
| "protocol_error_from (PC_Try_From_Int e) = PE_Other e"

definition RaptorQ_display :: "('plan, 'config) RaptorQ \<Rightarrow> string" where
  "RaptorQ_display rq =
     ''RaptorQ max_packet_size == '' @ show_dec (unat (max_packet_size rq)) @
     '' transfer_length = '' @ show_dec (unat (transfer_length rq)) @
     '' symbol_count|nb_packets == '' @ show_dec (unat (symbol_count rq)) @
     '' nb_repair_packets == '' @ show_dec (unat (nb_repair_packets rq)) @
     '' min_nb_repair_packets == '' @ show_dec (unat (min_nb_repair_packets rq))"

fun BlockType_display :: "BlockType \<Rightarrow> string" where
  "BlockType_display Heartbeat = ''Heartbeat''"
| "BlockType_display Start = ''Start''"
| "BlockType_display Data = ''Data''"
| "BlockType_display Abort = ''Abort''"
| "BlockType_display End = ''End''"

text \<open>The type is looked at first; the other two accessors index the bytes and can panic.\<close>

definition Block_display :: "display_env \<Rightarrow> Block \<Rightarrow> (string, unit) outcome" where
  "Block_display D b =
     obind (case Block_block_type b of
              Err e \<Rightarrow> Ok (''UNKNOWN '' @ protocol_error_display D e)
            | Ok t \<Rightarrow> Ok (BlockType_display t)
            | Panic p \<Rightarrow> Panic p) (\<lambda>msg_type.
     obind (Block_client_id b) (\<lambda>client_id.
     obind (Block_payload_len b) (\<lambda>payload_len.
     Ok (''client '' @ show_hex (unat client_id) @ '' block = '' @ msg_type @
         '' data = '' @ show_dec (unat payload_len) @ '' byte(s)''))))"

section \<open>\<open>send/mod.rs\<close> and \<open>receive/mod.rs\<close>\<close>

fun send_error_display :: "display_env \<Rightarrow> send_error \<Rightarrow> string" where
  "send_error_display D (SE_Io e) = ''I/O error: '' @ de_io D e"
| "send_error_display D SE_SendBlock = ''crossbeam send block error''"
| "send_error_display D SE_SendUdp = ''crossbeam send UDP error''"
| "send_error_display D SE_Receive = ''crossbeam receive error: '' @ de_recv D"
| "send_error_display D (SE_Protocol e) = ''diode protocol error: '' @ protocol_error_display D e"
| "send_error_display D (SE_Diode e) = ''diode error: '' @ e"
| "send_error_display D (SE_Other e) = e"

text \<open>A failed send on a channel is told by the type of its messages; the message itself is dropped.\<close>

datatype 'pkt send_cause =
    SC_Io io_error
  | SC_Send_Block "Block option"
  | SC_Send_Numbered "(u8 \<times> Block) option"
  | SC_Send_Numbered_Packets "(u8 \<times> 'pkt list) option"
  | SC_Send_Packets "'pkt list option"
  | SC_Recv
  | SC_Protocol protocol_error

fun send_error_from :: "'pkt send_cause \<Rightarrow> send_error" where
  "send_error_from (SC_Io e) = SE_Io e"
| "send_error_from (SC_Send_Block m) = SE_SendBlock"
| "send_error_from (SC_Send_Numbered m) = SE_SendBlock"
| "send_error_from (SC_Send_Numbered_Packets m) = SE_SendUdp"
| "send_error_from (SC_Send_Packets m) = SE_SendUdp"
| "send_error_from SC_Recv = SE_Receive"
| "send_error_from (SC_Protocol e) = SE_Protocol e"

fun receive_error_display :: "display_env \<Rightarrow> receive_error \<Rightarrow> string" where
  "receive_error_display D (R_Io e) = ''I/O error: '' @ de_io D e"
| "receive_error_display D R_Send_Packets = ''crossbeam send packets error''"
| "receive_error_display D R_Send_Block_Packets = ''crossbeam send block packets error''"
| "receive_error_display D R_Send_Block = ''crossbeam send block error''"
| "receive_error_display D R_Send_Clients = ''crossbeam send client error''"
| "receive_error_display D R_Receive = ''crossbeam receive error: '' @ de_recv D"
| "receive_error_display D (R_Receive_Timeout e) = ''crossbeam receive timeout error: '' @ de_recv_timeout D e"
| "receive_error_display D (R_Protocol e) = ''diode protocol error: '' @ protocol_error_display D e"
| "receive_error_display D (R_Other e) = e"

datatype ('datagrams, 'reassembled) receive_cause =
    RC_Io io_error
  | RC_Send_Datagrams 'datagrams
  | RC_Send_Reassembled 'reassembled
  | RC_Send_Block "Block option"
  | RC_Send_Client u32
  | RC_Recv
  | RC_Recv_Timeout recv_timeout_error
  | RC_Protocol protocol_error

fun receive_error_from :: "('datagrams, 'reassembled) receive_cause \<Rightarrow> receive_error" where
  "receive_error_from (RC_Io e) = R_Io e"
| "receive_error_from (RC_Send_Datagrams m) = R_Send_Packets"
| "receive_error_from (RC_Send_Reassembled m) = R_Send_Block_Packets"
| "receive_error_from (RC_Send_Block m) = R_Send_Block"
| "receive_error_from (RC_Send_Client c) = R_Send_Clients"
| "receive_error_from RC_Recv = R_Receive"
| "receive_error_from (RC_Recv_Timeout e) = R_Receive_Timeout e"
| "receive_error_from (RC_Protocol e) = R_Protocol e"

section \<open>\<open>aux\<close>\<close>

fun diode_send_display :: "display_env \<Rightarrow> diode_send \<Rightarrow> string" where
  "diode_send_display D (Diode_Tcp s) = ''TCP '' @ de_addr D s"
| "diode_send_display D (Diode_Unix p) = ''Unix '' @ de_path D p"

text \<open>Both parts, one right after the other.\<close>

definition diode_receive_display :: "display_env \<Rightarrow> diode_receive \<Rightarrow> string" where
  "diode_receive_display D r =
     (case dr_from_tcp r of None \<Rightarrow> [] | Some from_tcp \<Rightarrow> ''TCP '' @ de_addr D from_tcp) @
     (case dr_from_unix r of None \<Rightarrow> [] | Some from_unix \<Rightarrow> ''Unix '' @ de_path D from_unix)"

fun file_protocol_error_display :: "display_env \<Rightarrow> file_protocol_error \<Rightarrow> string" where
  "file_protocol_error_display D (FP_Io e) = ''I/O error: '' @ de_io D e"
| "file_protocol_error_display D FP_String_Format = ''string format error: '' @ de_utf8 D"
| "file_protocol_error_display D (FP_Invalid_File_Size s1 s2) =
     ''invalid file size: '' @ show_dec s1 @ '' != '' @ show_dec s2"
| "file_protocol_error_display D (FP_Invalid_Hash h1 h2) =
     ''invalid hash: '' @ show_hex (unat h1) @ '' != '' @ show_hex (unat h2)"

datatype file_protocol_cause = FPC_Io io_error | FPC_Utf8

fun file_protocol_error_from :: "file_protocol_cause \<Rightarrow> file_protocol_error" where
  "file_protocol_error_from (FPC_Io e) = FP_Io e"
| "file_protocol_error_from FPC_Utf8 = FP_String_Format"

fun file_error_display :: "display_env \<Rightarrow> file_error \<Rightarrow> string" where
  "file_error_display D (F_Io e) = ''I/O error: '' @ de_io D e"
| "file_error_display D (F_Diode e) = ''diode error: '' @ file_protocol_error_display D e"
| "file_error_display D (F_Other e) = e"

datatype file_cause = FC_Io io_error | FC_Protocol file_protocol_error | FC_Try_From_Int string

fun file_error_from :: "file_cause \<Rightarrow> file_error" where
  "file_error_from (FC_Io e) = F_Io e"
| "file_error_from (FC_Protocol e) = F_Diode e"
| "file_error_from (FC_Try_From_Int e) = F_Other e"

fun udp_protocol_error_display :: "display_env \<Rightarrow> udp_protocol_error \<Rightarrow> string" where
  "udp_protocol_error_display D (UP_Io e) = ''I/O error: '' @ de_io D e"

definition udp_protocol_error_from :: "io_error \<Rightarrow> udp_protocol_error" where
  "udp_protocol_error_from e = UP_Io e"

fun udp_error_display :: "display_env \<Rightarrow> udp_error \<Rightarrow> string" where
  "udp_error_display D (U_Io e) = ''I/O error: '' @ de_io D e"
| "udp_error_display D (U_Diode e) = ''diode error: '' @ udp_protocol_error_display D e"
| "udp_error_display D (U_Other e) = ''error: '' @ e"

datatype udp_cause = UC_Io io_error | UC_Protocol udp_protocol_error

fun udp_error_from :: "udp_cause \<Rightarrow> udp_error" where
  "udp_error_from (UC_Io e) = U_Io e"
| "udp_error_from (UC_Protocol e) = U_Diode e"

section \<open>What the texts tell\<close>

text \<open>The text of a block tells its client, type and length, and nothing else.\<close>

lemma Block_display_layout:
  assumes "length d < 2 ^ 32"
  shows "Block_display D (block_layout n t c d) =
    Ok (''client '' @ show_hex (unat c) @ '' block = '' @ BlockType_display t @
        '' data = '' @ show_dec (length d) @ '' byte(s)'')"
proof -
  have "unat (of_nat (length d) :: u32) = length d" using assms by (intro unat_of_nat_small) simp
  then show ?thesis using assms by (simp add: Block_display_def)
qed

lemma BlockType_display_inj: "BlockType_display t = BlockType_display t' \<longleftrightarrow> t = t'"
  by (cases t; cases t') simp_all

lemma BlockType_display_no_space: "CHR '' '' \<notin> set (BlockType_display t)"
  by (cases t) simp_all

lemma append_space_eq:
  assumes "CHR '' '' \<notin> set xs" and "CHR '' '' \<notin> set ys"
  shows "xs @ CHR '' '' # us = ys @ CHR '' '' # vs \<longleftrightarrow> xs = ys \<and> us = vs"
proof
  assume e: "xs @ CHR '' '' # us = ys @ CHR '' '' # vs"
  have tw: "takeWhile (\<lambda>c. c \<noteq> CHR '' '') (zs @ CHR '' '' # ws) = zs" if "CHR '' '' \<notin> set zs" for zs ws
    using that by (induction zs) auto
  have "xs = ys" using arg_cong [OF e, of "takeWhile (\<lambda>c. c \<noteq> CHR '' '')"] tw [OF assms(1)] tw [OF assms(2)] by simp
  with e show "xs = ys \<and> us = vs" by simp
qed simp

lemma Block_display_inj:
  assumes "length d < 2 ^ 32" and "length d' < 2 ^ 32"
  shows "Block_display D (block_layout n t c d) = Block_display D (block_layout n' t' c' d') \<longleftrightarrow>
    c = c' \<and> t = t' \<and> length d = length d'"
proof -
  have s: "show_hex (unat c) = show_hex (unat c') \<longleftrightarrow> c = c'"
    "show_dec (length d) = show_dec (length d') \<longleftrightarrow> length d = length d'"
    by (simp_all add: show_radix_inj word_unat_eq_iff)
  note ns = append_space_eq [OF show_radix_no_space show_radix_no_space]
    append_space_eq [OF BlockType_display_no_space BlockType_display_no_space]
  show ?thesis unfolding Block_display_layout [OF assms(1)] Block_display_layout [OF assms(2)]
    by (simp add: ns s BlockType_display_inj)
qed

text \<open>A block too short to hold a header cannot be displayed: the text of a log line panics.\<close>

lemma Block_display_short:
  assumes "length (block_bytes b) < 9"
  shows "\<exists>p. Block_display D b = Panic p"
proof -
  have l: "(Block_payload_len b :: (u32, unit) outcome) = Panic Index_Out_Of_Bounds"
    using assms by (simp add: Block_payload_len_def vec_get_def)
  have "Block_client_id b \<noteq> (Err () :: (u32, unit) outcome)"
    by (auto simp: Block_client_id_def vec_get_def split: if_splits)
  then show ?thesis
    by (cases "Block_block_type b"; cases "Block_client_id b :: (u32, unit) outcome") (simp_all add: Block_display_def l)
qed

text \<open>With both sources, the display of \<open>DiodeReceive\<close> runs them together.\<close>

lemma diode_receive_display_both:
  "diode_receive_display D \<lparr>dr_from_tcp = Some a, dr_from_unix = Some p\<rparr> = ''TCP '' @ de_addr D a @ ''Unix '' @ de_path D p"
  by (simp add: diode_receive_display_def)

end
