(* ===== verification/Spec2Isabelle.thy ===== *)
theory Spec2Isabelle
  imports Send_Client Send_Pipeline Reblock_Stream Decode Link Dispatch Receive_Client Aux_File Aux_Udp Udp_Receive Udp_Send Startup Aux_Programs Programs Config_Test Logger Messages
begin

text \<open>
  This library models lidi, a data diode over UDP (crate \<open>diode\<close> under \<open>src/src\<close>): a sender takes the
  byte streams of many local clients, cuts them into numbered blocks, encodes the blocks with RaptorQ
  and sends the packets; a receiver regroups, decodes and dispatches them to client sockets. Nothing
  flows back, so each side has to be right on its own, and the theorems say what the two of them
  guarantee together.

  \<^bold>\<open>The parts and their theories.\<close>
  \<^item> \<open>Prelude\<close>: Rust integers as words, \<open>Result\<close> and panics as the type \<open>outcome\<close>, checked arithmetic
    (the flag \<open>ovf\<close> is the profile's \<open>overflow-checks\<close>), little-endian codecs (locale
    \<open>fixed_width_codec\<close>), growable vectors with their capacity.
  \<^item> \<open>Stream_IO\<close>: \<open>std::io\<close> as the program uses it. A readable stream is a script of chunks and errors,
    \<open>read_exact\<close> is the library's loop, \<open>BufWriter\<close> a buffer in front of a sink (locale \<open>byte_writer\<close>).
  \<^item> \<open>Protocol\<close> (\<open>protocol.rs\<close>): the RaptorQ parameters, the wire format of a block. The raptorq crate is
    not under \<open>src\<close>: it is the record \<open>raptorq_lib\<close> of functions that the definitions take as argument.
  \<^item> \<open>Send_Client\<close> (\<open>send/client.rs\<close>, \<open>send/server.rs\<close>, \<open>send/heartbeat.rs\<close>): the workers that produce blocks.
  \<^item> \<open>Turnstile\<close>: the hand-over in sequence that both pipelines use (a counter behind a mutex and a
    condition variable), as an invariant and the locale \<open>handover\<close>.
  \<^item> \<open>Send_Pipeline\<close> (\<open>send/ordering.rs\<close>, \<open>send/encoding.rs\<close>, \<open>send/udp.rs\<close>, the channels of \<open>send/mod.rs\<close>): the
    interleaving of the ordering worker, the encoding threads and the UDP worker.
  \<^item> \<open>Receive_Config\<close> (\<open>receive/mod.rs\<close>), \<open>Reblock\<close> (\<open>receive/reblock.rs\<close>), \<open>Decode\<close> (\<open>receive/decode.rs\<close>),
    \<open>Dispatch\<close> (\<open>receive/dispatch.rs\<close>), \<open>Receive_Client\<close> (\<open>receive/client.rs\<close>, \<open>receive/clients.rs\<close>): the workers
    of the receiver. \<open>Reblock_Stream\<close> runs the reblock worker over a stream of any length, \<open>Link\<close> composes
    the network, the UDP worker, the reblock worker and the decoding threads.
  \<^item> \<open>Sock_Utils\<close> (\<open>sock_utils.rs\<close>), \<open>Udp_Receive\<close> and \<open>Udp_Send\<close> (\<open>udp.rs\<close>, \<open>receive/udp.rs\<close>, \<open>send/udp.rs\<close>): the
    socket buffer sizes, the reused buffers and message headers of \<open>recvmsg\<close>, \<open>recvmmsg\<close> and \<open>sendmmsg\<close>.
  \<^item> \<open>Startup\<close> (\<open>start\<close> in \<open>send/mod.rs\<close> and \<open>receive/mod.rs\<close>, \<open>new_client\<close>, \<open>stop\<close>, \<open>send/server.rs\<close>): the threads,
    their cores, and the entrance through which clients reach the server threads.
  \<^item> \<open>Aux_File\<close> and \<open>Aux_Udp\<close> (\<open>aux/file\<close>, \<open>aux/udp\<close>): the transfer of files and of datagrams over the diode.
  \<^item> \<open>Programs\<close> (\<open>bin/diode-send.rs\<close>, \<open>bin/diode-receive.rs\<close> and their one-shot variants), \<open>Aux_Programs\<close> (the
    file, UDP and flood programs), \<open>Config_Test\<close> (\<open>bin/diode-config.rs\<close>), \<open>File_Bindings\<close> (\<open>aux/mod.rs\<close>,
    \<open>diode-file-bindings/src/lib.rs\<close>): arguments, defaults, configurations, \<open>main\<close>, and the C interface with
    its heap of configurations.
  \<^item> \<open>Logger\<close> (\<open>lib.rs\<close>) and \<open>Messages\<close>: the set-up of the logger, the texts of values and errors (\<open>Display\<close>) and
    the conversions between errors (\<open>From\<close>) of all modules.
  Each worker's loop body is one function of the shared state and of what its channel returned; the
  state records have the fields of the Rust structs and variables, and a few history fields, named as
  such, that only the properties read. Threads interleave freely: the step relations \<open>send_trans\<close>,
  \<open>decode_trans\<close>, \<open>mx_trans\<close> and the event lists of \<open>Dispatch\<close> contain every order of their steps.

  \<^bold>\<open>What the lemmas show.\<close> \<open>Protocol\<close>: the block layout and its round trip, the parameters computed for
  every MTU. \<open>Send_Client\<close>: what is sent is the stream, cut independently of how it arrives.
  \<open>Send_Pipeline\<close> and \<open>Decode\<close>: both are hand-overs, so blocks leave in order, nothing is lost and the
  threads cannot deadlock while nobody stops them and every block decodes; and what happens when
  somebody stops them, or one does not. \<open>Reblock\<close>: the window invariant. \<open>Reblock_Stream\<close>: the worker, which
  sees the numbers of blocks modulo 256, orders the blocks of an endless stream as if it saw the whole
  numbers; what a timeout forgets. \<open>Link\<close>: any number of blocks crosses the link, and what a failed
  decoding leaves behind. \<open>Dispatch\<close>: each client sees a state machine of its own. \<open>Receive_Client\<close>: the
  peer gets the payloads. \<open>Udp_Receive\<close> and \<open>Udp_Send\<close>: batching changes neither the datagrams nor their
  order, whatever the system calls return. \<open>Startup\<close>: clients are served in the order in which they are
  accepted. \<open>Aux_File\<close> and \<open>Aux_Udp\<close>: files and datagrams come out as they went in, and what a wrong
  peer can do. \<open>Programs\<close> and \<open>Aux_Programs\<close>: durations are read as they are written, the defaults of the two
  sides agree, and how each program ends. \<open>Config_Test\<close>: the test succeeds with every codec that keeps its
  promise. \<open>Messages\<close> and \<open>Logger\<close>: what the texts tell, and where they go. The theorems of this file compose
  them: a stream crosses the diode from the socket of a client to the socket of its peer, through every
  worker of both sides, in every interleaving of their threads, and so does a file.

  \<^bold>\<open>Bounds.\<close> There is no fuel. Loops that end are functions with a termination proof (the readers by the
  size of the script, the window by its distance); the draining loop of \<open>reblock.rs\<close> need not end and
  is a \<open>partial_function\<close>, with the theorem that it ends when at least one packet is required. Block
  numbers are eight bits wide: the hand-over holds for up to 255 threads, which their type guarantees,
  and streams of any length cross the link as long as no packet arrives 127 blocks or more ahead of the
  first incomplete block, or more than 129 behind it (\<open>in_reach\<close>).

  \<^bold>\<open>Not modelled.\<close> The kernel and the network: what a system call, \<open>accept\<close> or the creation of a thread
  returns is an argument, streams and sinks stand for connections. The hash function (its input is
  recorded) and the raptorq crate, which are arguments too. The parsing of the command line by clap, the
  logging crates behind \<open>init_logger\<close>, and the log lines, except where evaluating one can panic. Poisoned
  mutexes, and the failure of a send on a channel whose receiver lives in the same structure. A panic ends
  its thread here, as in the dev profile; the release profile aborts the process.
\<close>

section \<open>From the client of the sender to the client of the receiver\<close>

text \<open>The typed blocks of a transfer, as the dispatch worker classifies them.\<close>

definition typed :: "Block \<Rightarrow> BlockType \<times> Block" where
  "typed b = (case Block_block_type b of Ok t \<Rightarrow> (t, b) | _ \<Rightarrow> (Heartbeat, b))"

lemma typed_layout [simp]: "typed (block_layout n t c d) = (t, block_layout n t c d)"
  by (simp add: typed_def)

lemma carries_layout:
  "length d < 2 ^ 32 \<Longrightarrow> SERIALIZE_OVERHEAD + length d \<le> n \<Longrightarrow> carries (block_layout n t c d) t d"
  by (simp add: carries_def)

text \<open>
  If the dispatch worker receives the blocks of the client's round in the order in which the server
  worker sent them, interleaved in any way with those of other clients and with heartbeats, then one
  channel is opened for it, and the client worker that reads this channel gives its peer what was sent.
\<close>

theorem transfer_crosses_diode:
  assumes "SERIALIZE_OVERHEAD < unat (transfer_length rq)"
    and "server_round ovf scfg rq cid s = (next_id, blocks, res)"
    and "event_run rcfg rq evs (dispatch_init now) = Some (Ok t)"
    and "concat (map (own_blocks rq cid) evs) = map typed blocks"
    and "drops_late rq cid (transfers_of cid t) evs"
    and "unlimited client"
  shows "\<exists>h r d rest. transfers_of cid t = [h] \<and>
    receive_start ovf rcfg rq (Ok client) (map Got (ch_log (chans t ! h))) = Some r \<and>
    cr_result r = Ok () \<and> script_bytes s = d @ rest \<and> sink_out (cr_sink r) = sink_out client @ d \<and>
    (cr_end r = Some True \<or> cr_end r = Some False) \<and> (clean s \<longrightarrow> cr_end r = Some True \<and> rest = [])"
proof -
  let ?n = "unat (transfer_length rq)"
  have oh: "SERIALIZE_OVERHEAD \<le> ?n" using assms(1) by simp
  have n32: "?n < 2 ^ 32" using unsigned_less [of "transfer_length rq"] by simp
  obtain ds e rest bt where sr: "blocks = [block_layout ?n Start cid []] @ data_blocks ?n cid ds @ [block_layout ?n bt cid e]"
    "bt = End \<or> (bt = Abort \<and> e = [])" "script_bytes s = concat ds @ e @ rest" "clean s \<longrightarrow> bt = End \<and> rest = []"
    "\<forall>d \<in> set (e # ds). SERIALIZE_OVERHEAD + length d \<le> ?n"
    using server_round_blocks [OF assms(1,2)] by blast
  have own: "concat (map (own_blocks rq cid) evs) =
      (Start, block_layout ?n Start cid []) # map (Pair Data) (data_blocks ?n cid ds) @ [(bt, block_layout ?n bt cid e)]"
    using assms(4) by (simp add: sr(1) data_blocks_def comp_def)
  have bt: "bt = End \<or> bt = Abort" using sr(2) by blast
  from whole_transfer_view [OF assms(3) own bt oh assms(5)] obtain h where h: "transfers_of cid t = [h]"
    "ch_log (chans t ! h) = blocks" by (auto simp: client_view_def sr(1))
  let ?bs = "block_layout ?n Start cid [] # data_blocks ?n cid ds"
  have "list_all2 (\<lambda>b d. \<exists>t. carries b t d \<and> t \<noteq> Abort \<and> t \<noteq> End) (data_blocks ?n cid ds) ds"
    using sr(5) n32 by (fastforce simp: data_blocks_def list_all2_map1 list_all2_same intro: carries_layout)
  then have "stream_of ?bs ([] # ds)" using oh carries_layout [of "[]" ?n Start cid] by (auto simp: stream_of_def)
  from receive_start_stream [OF this assms(6) oh] obtain st where
    st: "receive_start ovf rcfg rq (Ok client) (map Got ?bs @ [Got (block_layout ?n bt cid e)]) =
      receive_loop rcfg [Got (block_layout ?n bt cid e)] st" "has_written rcfg (concat ([] # ds)) client st" by blast
  have "carries (block_layout ?n bt cid e) bt e" using sr(5) n32 by (intro carries_layout) auto
  from handle_block_ends [OF st(2) this bt] obtain r where
    r: "handle_block rcfg (block_layout ?n bt cid e) st = Inl r" "ends_with (bt = End) (concat ds @ e) client r" by auto
  have "receive_start ovf rcfg rq (Ok client) (map Got (ch_log (chans t ! h))) = Some r"
    using st(1) r(1) by (simp add: h(2) sr(1))
  moreover have "script_bytes s = (concat ds @ e) @ rest" using sr(3) by simp
  ultimately show ?thesis using h(1) r(2) sr(4) bt by (auto simp: ends_with_def)
qed

lemma demo_round:
  "server_round True small_send_config small_rq 7 [Chunk [1, 2], Chunk [3]] =
    (8, [block_layout 17 Start 7 [], block_layout 17 End 7 [1, 2, 3]], Ok ())"
proof -
  let ?s = "[Chunk [1, 2], Chunk [3]]"
  have oh: "SERIALIZE_OVERHEAD < unat (transfer_length small_rq)" by (simp add: SERIALIZE_OVERHEAD_def)
  have fl: "s_flush small_send_config = False" by (simp add: small_send_config_def)
  have l: "client_loop small_send_config small_rq 7 8 [] lg ?s =
      (lg\<lparr>hashed := (if s_hash small_send_config then hashed lg @ [[1, 2, 3]] else hashed lg),
           sent := sent lg @ [block_layout 17 End 7 [1, 2, 3]], transmitted := transmitted lg + 3\<rparr>, Ok ())" for lg
    by (simp add: client_loop_fill fl client_loop_end SERIALIZE_OVERHEAD_def)
  show ?thesis
    using l by (simp add: server_round_def client_start_def Block_new_None SERIALIZE_OVERHEAD_def
        max_data_len_fits vec_zeroed_def new_client_id_def empty_log_def)
qed

section \<open>The whole diode\<close>

text \<open>
  The sending pipeline, from state \<open>p\<close> to rest in \<open>q\<close>, with nobody stopping it and a socket that works; what
  has been submitted to it; and the calls it then makes for the blocks from number \<open>k\<close> on.
\<close>

definition sender_flushed :: "('plan, 'config, 'pkt) send_env \<Rightarrow> 'pkt send_pipe \<Rightarrow> 'pkt send_pipe \<Rightarrow> bool" where
  "sender_flushed E p q \<longleftrightarrow> send_reachable E p \<and> flowing p \<and> 0 < unat (se_threads E) \<and> (\<forall>x. se_udp_ok E x) \<and>
     (internal E)\<^sup>*\<^sup>* p q \<and> \<not> (\<exists>u. internal E q u)"

definition submitted :: "'pkt send_pipe \<Rightarrow> Block list" where
  "submitted p = ordered p @ somes (ord_q p)"

lemma flushed_calls:
  assumes "sender_flushed E p q"
  shows "drop k (udp_out q) = block_calls (se_lib E) (se_rq E) (of_nat k) (drop k (submitted p))"
proof -
  have "udp_out q = encode_seq E (submitted p)"
    using assms rest_all_sent unfolding sender_flushed_def submitted_def by blast
  then show ?thesis by (auto simp: encode_seq_def block_calls_def intro!: nth_equalityI)
qed

text \<open>
  Below it, the UDP sender puts the calls on the wire: with a kernel that sends what it is given, whatever
  the batch size but 0, no call fails, which is what the pipeline assumes of its socket, and the wire
  carries the packets of the submitted blocks, in order.
\<close>

fun send_calls :: "('plan, 'config, 'pkt) raptorq_lib \<Rightarrow> send_socket \<Rightarrow> 'pkt list list \<Rightarrow> send_sys \<Rightarrow>
    (unit, io_error) outcome \<times> send_sys" where
  "send_calls lib sock [] s = (Ok (), s)"
| "send_calls lib sock (ps # calls) s = sbind (SendM_send lib ps sock) (\<lambda>_. send_calls lib sock calls) s"

lemma send_calls_wire:
  assumes "batch \<noteq> Some 0"
  shows "accepting s \<Longrightarrow> list_all (\<lambda>p. length (lib_serialize lib p) < 2 ^ 32) (concat calls) \<Longrightarrow>
    \<exists>s'. send_calls lib (SendM_new batch) calls s = (Ok (), s') \<and>
      ss_wire s' = ss_wire s @ map (lib_serialize lib) (concat calls)"
proof (induction calls arbitrary: s)
  case Nil
  then show ?case by simp
next
  case (Cons ps calls)
  from Cons.prems assms obtain cs where 1: "SendM_send lib ps (SendM_new batch) s =
      (Ok (), s\<lparr>ss_calls := ss_calls s @ cs, ss_wire := ss_wire s @ map (lib_serialize lib) ps\<rparr>)"
    using SendM_send_accepting [of s lib ps batch] by (metis concat.simps(2) list_all_append)
  let ?s = "s\<lparr>ss_calls := ss_calls s @ cs, ss_wire := ss_wire s @ map (lib_serialize lib) ps\<rparr>"
  have "accepting ?s" using Cons.prems(1) by (simp add: accepting_def)
  with Cons.IH [of ?s] Cons.prems(2) obtain s' where "send_calls lib (SendM_new batch) calls ?s = (Ok (), s')"
    "ss_wire s' = ss_wire ?s @ map (lib_serialize lib) (concat calls)" by auto
  then show ?case by (simp add: 1 sbind_def)
qed

theorem flushed_wire:
  assumes "sender_flushed E p q" and "batch \<noteq> Some 0" and "accepting s"
    and "list_all (\<lambda>p. length (lib_serialize (se_lib E) p) < 2 ^ 32) (concat (udp_out q))"
  shows "\<exists>s'. send_calls (se_lib E) (SendM_new batch) (udp_out q) s = (Ok (), s') \<and>
    ss_wire s' = ss_wire s @ concat (map (map (lib_serialize (se_lib E)))
      (block_calls (se_lib E) (se_rq E) 0 (submitted p)))"
  using send_calls_wire [OF assms(2-4)] flushed_calls [OF assms(1), of 0] by (simp add: map_concat)

text \<open>
  The receiver at work on the calls \<open>syss\<close> of its UDP worker: \<open>evs\<close> are the events of the dispatch worker
  once the decoding threads have come to rest, and \<open>t\<close> is its state then.
\<close>

definition receiver_run :: "('plan, 'config, 'pkt) decode_env \<Rightarrow> bool \<Rightarrow> receive_config \<Rightarrow> u16 \<Rightarrow> u32 option \<Rightarrow>
    sys_recv list \<Rightarrow> nat \<Rightarrow> dispatch_event list \<Rightarrow> dispatch \<Rightarrow> bool" where
  "receiver_run E ovf cfg mtu batch syss now evs t \<longleftrightarrow>
     (\<exists>st out d. reblock_start (de_lib E) ovf (de_rq E)
         (map Recv_Datagrams (fst (udp_receive_loop syss (Receive_new mtu batch)))) = Some (Ok (st, out)) \<and>
       decode_feed E out (decode_init E 0) d \<and> \<not> (\<exists>u. decode_internal E d u) \<and>
       dispatched evs = disp_q d \<and> event_run cfg (de_rq E) evs (dispatch_init now) = Some (Ok t))"

text \<open>What the two ends and the network have to fulfil for the blocks from number \<open>k\<close> on to cross.\<close>

definition diode_carries :: "('plan, 'config, 'pkt) send_env \<Rightarrow> 'pkt send_pipe \<Rightarrow> 'pkt send_pipe \<Rightarrow> nat \<Rightarrow>
    ('plan, 'config, 'pkt) decode_env \<Rightarrow> bool \<Rightarrow> u16 \<Rightarrow> u32 option \<Rightarrow> sys_recv list \<Rightarrow> bool" where
  "diode_carries Es p q k Er ovf mtu batch syss \<longleftrightarrow>
     sender_flushed Es p q \<and> full_blocks (se_rq Es) (submitted p) \<and>
     de_lib Er = se_lib Es \<and> de_rq Er = se_rq Es \<and> 0 < unat (de_threads Er) \<and>
     SERIALIZE_OVERHEAD < unat (transfer_length (se_rq Es)) \<and>
     (\<exists>mn rs. min_nb_packets ovf (se_rq Es) = (Ok mn :: (u16, receive_error) outcome) \<and> 0 < unat mn \<and>
        codec_ok (se_lib Es) (se_rq Es) (unat mn) \<and> link_stream (unat mn) (drop k (udp_out q)) rs \<and>
        network_calls (se_lib Es) mtu batch rs syss)"

lemma receiver_run_blocks:
  assumes "diode_carries Es p q k Er ovf mtu batch syss"
  shows "snd (udp_receive_loop syss (Receive_new mtu batch)) = None"
    and "\<exists>evs t. receiver_run Er ovf cfg mtu batch syss now evs t \<and> (\<forall>h. Client_Drop h \<notin> set evs)"
    and "receiver_run Er ovf cfg mtu batch syss now evs t \<Longrightarrow>
      dispatched evs = map Some (drop k (submitted p)) \<and>
      event_run cfg (se_rq Es) evs (dispatch_init now) = Some (Ok t)"
proof -
  let ?bs = "drop k (submitted p)" and ?rq = "se_rq Es"
  from assms obtain mn rs where c: "sender_flushed Es p q" "full_blocks ?rq (submitted p)"
    "de_lib Er = se_lib Es" "de_rq Er = ?rq" "0 < unat (de_threads Er)" "SERIALIZE_OVERHEAD < unat (transfer_length ?rq)"
    "min_nb_packets ovf ?rq = (Ok mn :: (u16, receive_error) outcome)" "0 < unat mn"
    "codec_ok (se_lib Es) ?rq (unat mn)" "link_stream (unat mn) (drop k (udp_out q)) rs"
    "network_calls (se_lib Es) mtu batch rs syss" by (auto simp: diode_carries_def)
  have full: "full_blocks ?rq ?bs"
    using c(2) by (auto simp: full_blocks_def list_all_iff dest: in_set_dropD)
  note d = stream_dispatched [OF c(7-9) c(10) [unfolded flushed_calls [OF c(1)]] full c(11,3,4,5)]
  show "snd (udp_receive_loop syss (Receive_new mtu batch)) = None" using d by blast
  from d obtain st out u where r: "reblock_start (se_lib Es) ovf ?rq
      (map Recv_Datagrams (fst (udp_receive_loop syss (Receive_new mtu batch)))) = Some (Ok (st, out))"
    "decode_feed Er out (decode_init Er 0) u" "\<not> (\<exists>v. decode_internal Er u v)"
    and all: "\<forall>t. decode_feed Er out (decode_init Er 0) t \<longrightarrow> \<not> (\<exists>u. decode_internal Er t u) \<longrightarrow> disp_q t = map Some ?bs"
    by blast
  let ?evs = "map (\<lambda>b. Disp_In now (Dispatch_Recv (Some b))) ?bs"
  have "list_all (\<lambda>b. 4 \<le> length (block_bytes b)) ?bs"
    using full c(6) by (auto simp: full_blocks_def list_all_iff SERIALIZE_OVERHEAD_def)
  from recv_run_total [OF this] obtain t' where "event_run cfg ?rq ?evs (dispatch_init now) = Some (Ok t')" by blast
  moreover have "dispatched ?evs = map Some ?bs" by (simp add: dispatched_def comp_def concat_map_singleton)
  ultimately have "receiver_run Er ovf cfg mtu batch syss now ?evs t'"
    using r all unfolding receiver_run_def c(3,4) by metis
  then show "\<exists>evs t. receiver_run Er ovf cfg mtu batch syss now evs t \<and> (\<forall>h. Client_Drop h \<notin> set evs)" by fastforce
  show "dispatched evs = map Some ?bs \<and> event_run cfg ?rq evs (dispatch_init now) = Some (Ok t)"
    if "receiver_run Er ovf cfg mtu batch syss now evs t"
    using that r(1) all unfolding receiver_run_def c(3,4) by auto
qed

text \<open>The blocks of a client among others, as the dispatch worker tells them.\<close>

definition client_blocks :: "('plan, 'config) RaptorQ \<Rightarrow> u32 \<Rightarrow> Block list \<Rightarrow> (BlockType \<times> Block) list" where
  "client_blocks rq cid bs = concat (map (\<lambda>b. own_blocks rq cid (Disp_In 0 (Dispatch_Recv (Some b)))) bs)"

lemma client_blocks_dispatched:
  "dispatched evs = map Some bs \<Longrightarrow> concat (map (own_blocks rq cid) evs) = client_blocks rq cid bs"
  by (simp add: own_dispatched client_blocks_def comp_def)

text \<open>What the client worker at the far end makes of a transfer, as a fact about its peer.\<close>

definition peer_receives :: "receive_config \<Rightarrow> bool \<Rightarrow> ('plan, 'config) RaptorQ \<Rightarrow> u32 \<Rightarrow> dispatch \<Rightarrow>
    sink \<Rightarrow> script \<Rightarrow> bool" where
  "peer_receives cfg ovf rq cid t client s \<longleftrightarrow>
     (\<exists>h r d rest. transfers_of cid t = [h] \<and>
        receive_start ovf cfg rq (Ok client) (map Got (ch_log (chans t ! h))) = Some r \<and>
        cr_result r = Ok () \<and> script_bytes s = d @ rest \<and> sink_out (cr_sink r) = sink_out client @ d \<and>
        (cr_end r = Some True \<or> cr_end r = Some False) \<and> (clean s \<longrightarrow> cr_end r = Some True \<and> rest = []))"

text \<open>
  A sender with three encoding threads, over the repetition code, in which up to three blocks wait for
  their number, and a network that loses the first \<open>k\<close> of them.
\<close>

definition sample_env :: "u32 \<Rightarrow> (unit, unit, u8 \<times> byte list) send_env" where
  "sample_env n = (demo_env 3)\<lparr>se_rq := sample_rq n\<rparr>"

definition sample_decode :: "u32 \<Rightarrow> (unit, unit, u8 \<times> byte list) decode_env" where
  "sample_decode n = (demo_decode_env 2)\<lparr>de_rq := sample_rq n\<rparr>"

lemma sample_env_simps [simp]: "se_rq (sample_env n) = sample_rq n"
  by (simp add: sample_env_def)

definition layout_fits :: "nat \<Rightarrow> Block \<Rightarrow> bool" where
  "layout_fits n b \<longleftrightarrow> (\<exists>t c d. b = block_layout n t c d \<and> SERIALIZE_OVERHEAD + length d \<le> n)"

lemma layout_fits_layout: "SERIALIZE_OVERHEAD + length d \<le> n \<Longrightarrow> layout_fits n (block_layout n t c d)"
  by (auto simp: layout_fits_def)

lemma sample_carries:
  assumes "SERIALIZE_OVERHEAD < unat n" and "unat n < unat mtu" and "length xs \<le> 3" and "k < length xs"
    and "list_all (layout_fits (unat n)) xs"
  shows "\<exists>q. diode_carries (sample_env n) (send_queued (sample_env n) xs) q k (sample_decode n) True mtu (Some 4)
    (once_calls (of_nat k) (drop k xs))"
proof -
  let ?E = "sample_env n" and ?p = "send_queued (sample_env n) xs"
  have env: "chan_cap ?E = 3" "se_threads ?E = 3" "se_lib ?E = repetition_lib" "\<forall>x. se_udp_ok ?E x"
    by (simp_all add: sample_env_def demo_env_def chan_cap_def)
  have "submittable ?E (Some b)" if "b \<in> set xs" for b
    using assms(5) that Block_new_Some [of _ "sample_rq n"]
    by (fastforce simp: submittable_def list_all_iff layout_fits_def)
  then have r: "send_reachable ?E ?p" using assms(3) env(1) by (intro send_queued_reachable) auto
  have f: "flowing ?p" by (simp add: send_queued_def flowing_def send_init_def)
  from pipeline_rests [OF r f env(4)] obtain q where "(internal ?E)\<^sup>*\<^sup>* ?p q" "\<not> (\<exists>u. internal ?E q u)" by blast
  then have fl: "sender_flushed ?E ?p q" using r f env by (simp add: sender_flushed_def)
  have sub: "submitted ?p = xs" by (simp add: submitted_def send_queued_def send_init_def)
  have full: "full_blocks (sample_rq n) xs" using assms(5) by (fastforce simp: full_blocks_def list_all_iff layout_fits_def)
  then have fulld: "full_blocks (sample_rq n) (drop k xs)" by (auto simp: full_blocks_def list_all_iff dest: in_set_dropD)
  have "link_stream 1 (drop k (udp_out q)) (each_once (of_nat k) (drop k xs))"
    using once_link [of "drop k xs" n "of_nat k"] assms(4) by (simp add: flushed_calls [OF fl] sub env)
  then have "diode_carries ?E ?p q k (sample_decode n) True mtu (Some 4) (once_calls (of_nat k) (drop k xs))"
    unfolding diode_carries_def
    using fl full assms(1) repetition_codec [of n] once_network [OF fulld assms(2), of "of_nat k"] sample_min_packets [of n]
    by (auto simp: sub env sample_decode_def intro!: exI [of _ "1 :: u16"] exI [of _ "each_once (of_nat k) (drop k xs)"])
  then show ?thesis ..
qed

lemma diode_delivers:
  assumes "server_round ovf scfg (se_rq Es) cid s = (next_id, blocks, res)"
    and "diode_carries Es p q k Er ovf mtu batch syss"
    and "client_blocks (se_rq Es) cid (drop k (submitted p)) = map typed blocks"
    and "receiver_run Er ovf rcfg mtu batch syss now evs t"
    and "drops_late (se_rq Es) cid (transfers_of cid t) evs" and "unlimited client"
  shows "peer_receives rcfg ovf (se_rq Es) cid t client s"
proof -
  have oh: "SERIALIZE_OVERHEAD < unat (transfer_length (se_rq Es))" using assms(2) by (simp add: diode_carries_def)
  from receiver_run_blocks(3) [OF assms(2,4)] have
    d: "dispatched evs = map Some (drop k (submitted p))"
    and run: "event_run rcfg (se_rq Es) evs (dispatch_init now) = Some (Ok t)" by auto
  have own: "concat (map (own_blocks (se_rq Es) cid) evs) = map typed blocks"
    by (rule trans [OF client_blocks_dispatched [OF d] assms(3)])
  from transfer_crosses_diode [OF oh assms(1) run own assms(5,6)] show ?thesis unfolding peer_receives_def .
qed




text \<open>The file of three bytes, in a transfer wide enough for one block.\<close>

lemma wide_round:
  assumes "bs \<noteq> []" and "length bs < 91"
  shows "server_round True small_send_config (sample_rq 100) 7 [Chunk bs] =
    (8, [block_layout 100 Start 7 [], block_layout 100 End 7 bs], Ok ())"
proof -
  have fl: "s_flush small_send_config = False" by (simp add: small_send_config_def)
  have l: "client_loop small_send_config (sample_rq 100) 7 91 [] lg [Chunk bs] =
      (lg\<lparr>hashed := (if s_hash small_send_config then hashed lg @ [bs] else hashed lg),
           sent := sent lg @ [block_layout 100 End 7 bs], transmitted := transmitted lg + length bs\<rparr>, Ok ())" for lg
    using assms by (simp add: client_loop_fill fl client_loop_end SERIALIZE_OVERHEAD_def)
  show ?thesis
    using l by (simp add: server_round_def client_start_def Block_new_None SERIALIZE_OVERHEAD_def
        max_data_len_fits vec_zeroed_def new_client_id_def empty_log_def)
qed


end
